(* ===== verification/Prelude.thy ===== *)
theory Prelude
  imports "HOL-Library.Word"
begin

unbundle bit_operations_syntax

text \<open>
  Shared ground of the development: the C integer types as words, the loops of the
  sources as total functions, byte-addressed memory with little-endian access, and the
  generic lemmas on words, lists and loops that the component theories use.

  The collection \<open>c_simps\<close> holds the facts that evaluate C-level operations
  (loops on closed bounds, memory reads over writes).
\<close>

named_theorems c_simps \<open>evaluation of loops and memory accesses\<close>

type_synonym u8 = "8 word"
type_synonym u16 = "16 word"
type_synonym u32 = "32 word"
type_synonym u64 = "64 word"


section \<open>Words\<close>

abbreviation (input) UINT64_MAX :: u64 where
  "UINT64_MAX \<equiv> - 1"

lemma unat_UINT64_MAX: "unat UINT64_MAX = 2 ^ 64 - 1"
  by (simp add: unsigned_minus_1_eq_mask mask_eq_exp_minus_1)

lemma unat_lt64: "unat (x :: u64) < 18446744073709551616"
  using unsigned_less [of x] by simp

lemma unat_of_nat64: "k < 2 ^ 64 \<Longrightarrow> unat (of_nat k :: u64) = k"
  by (simp add: unat_of_nat)

lemma unat_add_no_wrap:
  fixes a b :: u64
  assumes "unat a + unat b < 2 ^ 64"
  shows "unat (a + b) = unat a + unat b"
  using assms by (simp add: unat_word_ariths)

lemma unat_mult_no_wrap:
  fixes a b :: u64
  assumes "unat a * unat b < 2 ^ 64"
  shows "unat (a * b) = unat a * unat b"
  using assms by (simp add: unat_word_ariths)

lemma unat_succ:
  fixes i n :: u64
  assumes "i < n"
  shows "unat (i + 1) = Suc (unat i)"
proof -
  have "unat i < unat n" using assms by (simp add: word_less_nat_alt)
  moreover have "unat n < 2 ^ 64" using unat_lt64 [of n] by simp
  ultimately have "Suc (unat i) < 2 ^ 64" by linarith
  then show ?thesis by (simp add: unat_word_ariths)
qed

lemma mod_eq_0_unat: "(a :: u64) mod b = 0 \<longleftrightarrow> unat a mod unat b = 0"
  using unat_eq_0 [of "a mod b"] by (simp add: unat_mod)

definition page_aligned :: "u64 \<Rightarrow> bool" where
  "page_aligned a \<longleftrightarrow> a mod 4096 = 0"

lemma page_aligned_unat: "page_aligned a \<longleftrightarrow> 4096 dvd unat a"
  by (simp add: page_aligned_def mod_eq_0_unat dvd_eq_mod_eq_0)

lemma page_alignedE:
  assumes "page_aligned a"
  obtains q where "unat a = 4096 * q"
  using assms by (auto simp: page_aligned_unat elim: dvdE)

text \<open>The guard \<open>base <= UINT64_MAX - size\<close> excludes a wrapping sum.\<close>

lemma le_max_minus_iff:
  fixes a b :: u64
  shows "a \<le> UINT64_MAX - b \<longleftrightarrow> unat a + unat b < 2 ^ 64"
proof -
  have "unat (UINT64_MAX - b) = 2 ^ 64 - 1 - unat b"
    using unat_sub [of b UINT64_MAX] unat_UINT64_MAX by simp
  then have "a \<le> UINT64_MAX - b \<longleftrightarrow> unat a \<le> 2 ^ 64 - 1 - unat b"
    by (simp only: word_le_nat_alt)
  then show ?thesis using unat_lt64 [of b] by auto
qed


section \<open>Loops\<close>

text \<open>\<open>for (i = lo; i < n; ++i) s = body(i, s)\<close> with 64-bit counters.\<close>

function for_up :: "u64 \<Rightarrow> u64 \<Rightarrow> (u64 \<Rightarrow> 's \<Rightarrow> 's) \<Rightarrow> 's \<Rightarrow> 's" where
  "for_up i n body s = (if i < n then for_up (i + 1) n body (body i s) else s)"
  by pat_completeness auto
termination
  by (relation "measure (\<lambda>(i, n, body, s). unat n - unat i)")
    (auto simp: unat_succ word_less_nat_alt)

declare for_up.simps [simp del]

text \<open>
  A loop whose body may execute \<open>return\<close>: the body yields \<open>Inl r\<close> to leave the
  enclosing function with \<open>r\<close> and \<open>Inr s\<close> to go on.
\<close>

function for_ret :: "u64 \<Rightarrow> u64 \<Rightarrow> (u64 \<Rightarrow> 's \<Rightarrow> 'r + 's) \<Rightarrow> 's \<Rightarrow> 'r + 's" where
  "for_ret i n body s =
     (if i < n then case body i s of Inl r \<Rightarrow> Inl r | Inr s' \<Rightarrow> for_ret (i + 1) n body s'
      else Inr s)"
  by pat_completeness auto
termination
  by (relation "measure (\<lambda>(i, n, body, s). unat n - unat i)")
    (auto simp: unat_succ word_less_nat_alt)

declare for_ret.simps [simp del]

lemma for_up_done [simp]: "\<not> i < n \<Longrightarrow> for_up i n body s = s"
  by (simp add: for_up.simps [of i])

lemma for_up_step: "i < n \<Longrightarrow> for_up i n body s = for_up (i + 1) n body (body i s)"
  by (simp add: for_up.simps [of i])

text \<open>
  Loop rule: what holds of the start state and is kept by every iteration holds at the
  end. The invariant may mention the counter as a number.
\<close>

lemma for_up_inv:
  assumes "P (unat i) s" and "i \<le> n"
    and step: "\<And>k t. unat i \<le> k \<Longrightarrow> k < unat n \<Longrightarrow> P k t \<Longrightarrow> P (Suc k) (body (of_nat k) t)"
  shows "P (unat n) (for_up i n body s)"
  using assms
proof (induction i n body s rule: for_up.induct)
  case (1 i n body s)
  show ?case
  proof (cases "i < n")
    case True
    then have "P (unat (i + 1)) (body i s)"
      using 1(2) 1(4)[of "unat i" s] by (simp add: unat_succ word_less_nat_alt)
    moreover have "i + 1 \<le> n"
      using True by (simp add: word_le_nat_alt unat_succ word_less_nat_alt)
    ultimately have "P (unat n) (for_up (i + 1) n body (body i s))"
      using 1(1)[OF True] 1(4) True by (simp add: unat_succ)
    then show ?thesis using True by (simp add: for_up_step)
  next
    case False
    with 1(3) have "i = n" by simp
    with 1(2) False show ?thesis by simp
  qed
qed

lemma for_up_fold:
  "for_up i n body s = fold (\<lambda>k. body (of_nat k)) [unat i..<unat n] s"
proof (induction i n body s rule: for_up.induct)
  case (1 i n body s)
  show ?case
  proof (cases "i < n")
    case True
    then have "[unat i..<unat n] = unat i # [unat (i + 1)..<unat n]"
      by (simp add: unat_succ word_less_nat_alt upt_conv_Cons)
    with 1 True show ?thesis by (simp add: for_up_step)
  next
    case False
    then show ?thesis by (simp add: word_less_nat_alt)
  qed
qed

text \<open>Loop rule with returns: the invariant holds if the loop ends, the postcondition if it returns.\<close>

lemma for_ret_inv:
  assumes "P (unat i) s" and "i \<le> n"
    and step: "\<And>k t. unat i \<le> k \<Longrightarrow> k < unat n \<Longrightarrow> P k t \<Longrightarrow>
      (case body (of_nat k) t of Inl r \<Rightarrow> Q r | Inr t' \<Rightarrow> P (Suc k) t')"
  shows "case for_ret i n body s of Inl r \<Rightarrow> Q r | Inr t \<Rightarrow> P (unat n) t"
  using assms
proof (induction i n body s rule: for_ret.induct)
  case (1 i n body s)
  show ?case
  proof (cases "i < n")
    case True
    have here: "case body i s of Inl r \<Rightarrow> Q r | Inr t' \<Rightarrow> P (Suc (unat i)) t'"
      using 1(4)[of "unat i" s] 1(2) True by (simp add: word_less_nat_alt)
    show ?thesis
    proof (cases "body i s")
      case (Inl r)
      then show ?thesis using here True by (simp add: for_ret.simps [of i])
    next
      case (Inr t)
      have "i + 1 \<le> n" using True by (simp add: word_le_nat_alt unat_succ word_less_nat_alt)
      then have "case for_ret (i + 1) n body t of Inl r \<Rightarrow> Q r | Inr t \<Rightarrow> P (unat n) t"
        using 1(1)[OF True Inr] 1(4) here Inr True by (simp add: unat_succ)
      then show ?thesis using Inr True by (simp add: for_ret.simps [of i])
    qed
  next
    case False
    with 1(3) have "i = n" by simp
    with 1(2) False show ?thesis by (simp add: for_ret.simps [of n])
  qed
qed

text \<open>The common loop that only looks for a counter value satisfying a condition.\<close>

lemma for_ret_search:
  "for_ret i n (\<lambda>i s. if P i then Inl r else Inr s) s =
     (if \<exists>k. unat i \<le> k \<and> k < unat n \<and> P (of_nat k) then Inl r else Inr s)"
proof (induction "unat n - unat i" arbitrary: i)
  case 0
  then show ?case by (auto simp: for_ret.simps [of i] word_less_nat_alt)
next
  case (Suc d)
  then have lt: "i < n" by (simp add: word_less_nat_alt)
  then have "d = unat n - unat (i + 1)" using Suc.hyps(2) by (simp add: unat_succ)
  from Suc.hyps(1) [OF this] have IH: "for_ret (i + 1) n (\<lambda>i s. if P i then Inl r else Inr s) s =
     (if \<exists>k. Suc (unat i) \<le> k \<and> k < unat n \<and> P (of_nat k) then Inl r else Inr s)"
    using lt by (simp add: unat_succ)
  have split_first: "unat i \<le> k \<longleftrightarrow> k = unat i \<or> Suc (unat i) \<le> k" for k by auto
  have "(\<exists>k\<ge>unat i. k < unat n \<and> P (of_nat k)) \<longleftrightarrow>
      P i \<or> (\<exists>k\<ge>Suc (unat i). k < unat n \<and> P (of_nat k))"
    unfolding split_first using lt by (auto simp: word_less_nat_alt)
  then show ?case using lt IH by (auto simp: for_ret.simps [of i])
qed

lemma for_ret_search_unit:
  "for_ret 0 n (\<lambda>i _. if P i then Inl r else Inr ()) u =
     (if \<exists>k < unat n. P (of_nat k) then Inl r else Inr ())"
proof -
  have "(\<lambda>i _. if P i then Inl r else Inr ()) = (\<lambda>i (s :: unit). if P i then Inl r else Inr s)"
    by (simp add: fun_eq_iff)
  then show ?thesis using for_ret_search [of 0 n P r u] by simp
qed

text \<open>A loop that leaves at the first counter value failing a test, with a result computed there.\<close>

lemma for_ret_find:
  "for_ret i n (\<lambda>i s. if P i s then Inr s else Inl (r i s)) s =
     (case find (\<lambda>k. \<not> P (of_nat k) s) [unat i..<unat n] of
        None \<Rightarrow> Inr s | Some k \<Rightarrow> Inl (r (of_nat k) s))"
proof (induction "unat n - unat i" arbitrary: i)
  case 0
  then show ?case by (auto simp: for_ret.simps [of i] word_less_nat_alt)
next
  case (Suc d)
  then have lt: "i < n" by (simp add: word_less_nat_alt)
  then have "[unat i..<unat n] = unat i # [unat (i + 1)..<unat n]"
    by (simp add: unat_succ word_less_nat_alt upt_conv_Cons)
  moreover have "d = unat n - unat (i + 1)" using Suc.hyps(2) lt by (simp add: unat_succ)
  ultimately show ?case using Suc.hyps(1) [of "i + 1"] lt by (simp add: for_ret.simps [of i])
qed

text \<open>Removing an array element by moving the last one into its place.\<close>

lemma swap_remove:
  assumes "distinct (take (Suc k) xs)" and "k < length xs" and "i \<le> k"
  shows "distinct (take k (xs[i := xs ! k]))"
    and "set (take k (xs[i := xs ! k])) = set (take (Suc k) xs) - {xs ! i}"
proof -
  have split: "take (Suc k) xs = take k xs @ [xs ! k]" using assms(2) by (rule take_Suc_conv_app_nth)
  have ys: "distinct (take k xs)" "xs ! k \<notin> set (take k xs)" using assms(1) split by auto
  have "distinct (take k (xs[i := xs ! k])) \<and>
    set (take k (xs[i := xs ! k])) = set (take (Suc k) xs) - {xs ! i}"
  proof (cases "i = k")
    case True
    then show ?thesis using ys split by simp
  next
    case False
    then have i: "i < length (take k xs)" using assms(2,3) by simp
    then have nth: "take k xs ! i = xs ! i" by simp
    have ne: "xs ! i \<noteq> xs ! k" using ys(2) nth_mem [OF i] nth by metis
    have "take k (xs[i := xs ! k]) = (take k xs)[i := xs ! k]" by (simp add: take_update_swap)
    moreover have "set ((take k xs)[i := xs ! k]) = set (take (Suc k) xs) - {xs ! i}"
      unfolding split set_update_distinct [OF ys(1) i] nth using ne by (simp add: insert_Diff_if)
    moreover have "distinct ((take k xs)[i := xs ! k])" using ys by (intro distinct_list_update) auto
    ultimately show ?thesis by simp
  qed
  then show "distinct (take k (xs[i := xs ! k]))"
    and "set (take k (xs[i := xs ! k])) = set (take (Suc k) xs) - {xs ! i}" by simp_all
qed

lemma intervals_meet:
  fixes a b x y :: nat
  assumes "0 < x" and "0 < y"
  shows "{a..<a + x} \<inter> {b..<b + y} \<noteq> {} \<longleftrightarrow> a < b + y \<and> b < a + x"
proof
  assume "a < b + y \<and> b < a + x"
  then have "max a b \<in> {a..<a + x} \<inter> {b..<b + y}" using assms by simp
  then show "{a..<a + x} \<inter> {b..<b + y} \<noteq> {}" by blast
qed auto

text \<open>The pages that a byte range touches.\<close>

lemma div_image_interval:
  fixes b s :: nat
  assumes "0 < s"
  shows "(\<lambda>a. a div 4096) ` {b..<b + s} = {b div 4096..<(b + s + 4095) div 4096}"
proof (intro set_eqI iffI)
  fix k assume k: "k \<in> {b div 4096..<(b + s + 4095) div 4096}"
  then have "k * 4096 < b + s" by auto
  then have "max b (k * 4096) \<in> {b..<b + s}" using assms by simp
  moreover have "max b (k * 4096) div 4096 = k" using k by (auto simp: max_def)
  ultimately show "k \<in> (\<lambda>a. a div 4096) ` {b..<b + s}" by (metis imageI)
next
  fix k assume "k \<in> (\<lambda>a. a div 4096) ` {b..<b + s}"
  then show "k \<in> {b div 4096..<(b + s + 4095) div 4096}" by auto
qed


section \<open>Memory\<close>

text \<open>
  Physical memory is a function from byte addresses to bytes. The kernel runs on an
  identity map, so the addresses its code dereferences are physical addresses.
\<close>

type_synonym memory = "u64 \<Rightarrow> u8"

text \<open>Little-endian access to \<open>n\<close> bytes.\<close>

primrec load_le :: "nat \<Rightarrow> memory \<Rightarrow> u64 \<Rightarrow> 'a::len word" where
  "load_le 0 m a = 0"
| "load_le (Suc n) m a = ucast (m a) OR push_bit 8 (load_le n m (a + 1))"

definition store_le :: "nat \<Rightarrow> u64 \<Rightarrow> 'a::len word \<Rightarrow> memory \<Rightarrow> memory" where
  "store_le n a v m = (\<lambda>b. let i = unat (b - a) in
     if i < n then ucast (drop_bit (8 * i) v) else m b)"

definition load32 :: "memory \<Rightarrow> u64 \<Rightarrow> u32" where
  "load32 = load_le 4"

definition load64 :: "memory \<Rightarrow> u64 \<Rightarrow> u64" where
  "load64 = load_le 8"

definition store32 :: "u64 \<Rightarrow> u32 \<Rightarrow> memory \<Rightarrow> memory" where
  "store32 = store_le 4"

definition store64 :: "u64 \<Rightarrow> u64 \<Rightarrow> memory \<Rightarrow> memory" where
  "store64 = store_le 8"

lemma bit_load_le:
  "bit (load_le n m a :: 'a::len word) k \<longleftrightarrow>
     k < LENGTH('a) \<and> k < 8 * n \<and> bit (m (a + of_nat (k div 8))) (k mod 8)"
proof (induction n arbitrary: a k)
  case 0
  then show ?case by simp
next
  case (Suc n)
  show ?case
  proof (cases "k < 8")
    case True
    then show ?thesis by (simp add: bit_simps)
  next
    case False
    then obtain j where k: "k = j + 8" by (metis add.commute le_Suc_ex not_less)
    have "bit (m (a + 1 + of_nat (j div 8))) (j mod 8) =
        bit (m (a + of_nat (k div 8))) (k mod 8)"
      using k by (simp add: ac_simps div_add1_eq [of j 8 8])
    moreover have "\<not> bit (m a) k" using False bit_imp_le_length [of "m a" k] by auto
    ultimately show ?thesis using k Suc [of "a + 1" j] by (auto simp: bit_simps)
  qed
qed

lemma load_store_le_same:
  assumes "8 * n = LENGTH('a)" and "n < 2 ^ 64"
  shows "load_le n (store_le n a v m) a = (v :: 'a::len word)"
proof (rule bit_word_eqI)
  fix k assume k: "k < LENGTH('a)"
  then have i: "k div 8 < n" using assms(1) by linarith
  then have "unat (of_nat (k div 8) :: u64) = k div 8"
    using assms(2) by (intro unat_of_nat64) linarith
  moreover have "8 * (k div 8) + k mod 8 = k" by simp
  ultimately show "bit (load_le n (store_le n a v m) a :: 'a word) k = bit v k"
    using k i assms(1) by (simp add: bit_load_le store_le_def bit_simps)
qed

lemma load64_store64_same [simp, c_simps]: "load64 (store64 a v m) a = v"
  by (simp add: load64_def store64_def load_store_le_same)

lemma load32_store32_same [simp, c_simps]: "load32 (store32 a v m) a = v"
  by (simp add: load32_def store32_def load_store_le_same)

text \<open>
  Two accesses do not meet when each address is outside the other range; ranges are
  compared by the distance between the addresses, modulo the address space.
\<close>

lemma load_store_le_other:
  assumes "\<And>i. i < k \<Longrightarrow> n \<le> unat (b + of_nat i - a)"
  shows "load_le k (store_le n a v m) b = (load_le k m b :: 'b::len word)"
proof (rule bit_word_eqI)
  fix j assume "j < LENGTH('b)"
  show "bit (load_le k (store_le n a v m) b :: 'b word) j = bit (load_le k m b :: 'b word) j"
  proof (cases "j < 8 * k")
    case True
    then have "n \<le> unat (b + of_nat (j div 8) - a)" by (intro assms) linarith
    then show ?thesis by (simp add: bit_load_le store_le_def)
  next
    case False
    then show ?thesis by (simp add: bit_load_le)
  qed
qed

definition aligned8 :: "u64 \<Rightarrow> bool" where
  "aligned8 a \<longleftrightarrow> 8 dvd unat a"

lemma aligned8_diff_far:
  assumes "aligned8 a" and "aligned8 b" and "a \<noteq> b" and "i < 8"
  shows "8 \<le> unat (b + of_nat i - a)"
proof -
  have "8 dvd unat (b - a)"
    using assms(1,2) by (auto simp: aligned8_def unat_sub_if' dvd_diff_nat)
  moreover have "unat (b - a) \<noteq> 0" using assms(3) by (simp add: unat_eq_0)
  ultimately obtain q where q: "unat (b - a) = 8 * q" "q \<noteq> 0" by (auto elim!: dvdE)
  then have "8 * q < 18446744073709551616" using unat_lt64 [of "b - a"] by simp
  then have "8 * q + i < 2 ^ 64" using assms(4) by simp
  then have "unat ((b - a) + of_nat i) = 8 * q + i"
    using q assms(4) by (simp add: unat_add_no_wrap unat_of_nat64)
  moreover have "b + of_nat i - a = (b - a) + of_nat i" by (simp add: algebra_simps)
  ultimately have "unat (b + of_nat i - a) = 8 * q + i" by (simp only:)
  then show ?thesis using q by linarith
qed

lemma load64_store64_other [c_simps]:
  assumes "aligned8 a" and "aligned8 b" and "a \<noteq> b"
  shows "load64 (store64 a v m) b = load64 m b"
  by (simp add: load64_def store64_def load_store_le_other aligned8_diff_far assms)


text \<open>Accesses whose distances in both directions are large enough do not meet.\<close>

lemma load_store_le_apart:
  assumes "n \<le> unat (b - a)" and "k \<le> unat (a - b)"
  shows "load_le k (store_le n a v m) b = (load_le k m b :: 'b::len word)"
proof (rule load_store_le_other)
  fix i assume i: "i < k"
  have "unat i' = i" if "i' = of_nat i" for i' :: u64
    using that i assms(2) unat_lt64 [of "a - b"] by (simp add: unat_of_nat64)
  moreover have "unat (b - a) + i < 2 ^ 64"
  proof (cases "a = b")
    case True
    then show ?thesis using assms(2) i by simp
  next
    case False
    then have "unat (a - b) + unat (b - a) = 2 ^ 64"
      by (simp add: unat_sub_if' word_le_nat_alt word_unat_eq_iff)
        (use unat_lt64 [of a] unat_lt64 [of b] in auto)
    then show ?thesis using assms(2) i by linarith
  qed
  ultimately have "unat ((b - a) + of_nat i) = unat (b - a) + i" by (simp add: unat_add_no_wrap)
  moreover have "b + of_nat i - a = (b - a) + of_nat i" by (simp add: algebra_simps)
  ultimately have "unat (b + of_nat i - a) = unat (b - a) + i" by (simp only:)
  then show "n \<le> unat (b + of_nat i - a)" using assms(1) by linarith
qed

lemma load_store_apart [c_simps]:
  "8 \<le> unat (b - a) \<Longrightarrow> 8 \<le> unat (a - b) \<Longrightarrow> load64 (store64 a v m) b = load64 m b"
  "4 \<le> unat (b - a) \<Longrightarrow> 8 \<le> unat (a - b) \<Longrightarrow> load64 (store32 a w m) b = load64 m b"
  "8 \<le> unat (b - a) \<Longrightarrow> 4 \<le> unat (a - b) \<Longrightarrow> load32 (store64 a v m) b = load32 m b"
  "4 \<le> unat (b - a) \<Longrightarrow> 4 \<le> unat (a - b) \<Longrightarrow> load32 (store32 a w m) b = load32 m b"
  by (simp_all add: load64_def load32_def store64_def store32_def load_store_le_apart)

text \<open>Reading depends on the bytes read only.\<close>

lemma load_le_cong:
  "(\<And>i. i < n \<Longrightarrow> m' (a + of_nat i) = m (a + of_nat i)) \<Longrightarrow> load_le n m' a = load_le n m a"
proof (induction n arbitrary: a)
  case (Suc n)
  have "m' (a + 1 + of_nat i) = m (a + 1 + of_nat i)" if "i < n" for i
    using Suc.prems [of "Suc i"] that by (simp add: add.assoc)
  then show ?case using Suc.IH [of "a + 1"] Suc.prems [of 0] by simp
qed simp

definition same_bytes :: "memory \<Rightarrow> memory \<Rightarrow> u64 \<Rightarrow> nat \<Rightarrow> bool" where
  "same_bytes m m' a n \<longleftrightarrow> (\<forall>i < n. m' (a + of_nat i) = m (a + of_nat i))"

lemma same_bytes_load:
  assumes "same_bytes m m' a n" and "j + k \<le> n"
  shows "load_le k m' (a + of_nat j) = load_le k m (a + of_nat j)"
proof (rule load_le_cong)
  fix i assume "i < k"
  then have "j + i < n" using assms(2) by simp
  then have "m' (a + of_nat (j + i)) = m (a + of_nat (j + i))" using assms(1) unfolding same_bytes_def by blast
  then show "m' (a + of_nat j + of_nat i) = m (a + of_nat j + of_nat i)" by (simp add: add.assoc)
qed

end
