(* ===== verification/BootInfo.thy ===== *)
theory BootInfo
  imports Prelude
begin

text \<open>
  The loader/kernel contract of \<open>include/boot_info.h\<close>: the two structs as records, and
  how they lie in memory. A pointer to a struct is its address, with 0 for \<open>NULL\<close>.
\<close>

abbreviation (input) BOOT_INFO_MAGIC :: u64 where
  "BOOT_INFO_MAGIC \<equiv> 0x4f5342494e464f31"

abbreviation (input) BOOT_INFO_VERSION :: u32 where
  "BOOT_INFO_VERSION \<equiv> 2"

abbreviation (input) BOOT_SERVICES_EXITED :: u64 where
  "BOOT_SERVICES_EXITED \<equiv> 1"

record BOOT_INFO =
  magic :: u64
  version :: u32
  info_size :: u32
  memory_map :: u64
  memory_map_size :: u64
  descriptor_size :: u64
  descriptor_version :: u32
  reserved :: u32
  kernel_base :: u64
  kernel_size :: u64
  stack_base :: u64
  stack_size :: u64
  info_flags :: u64

abbreviation (input) sizeof_BOOT_INFO :: u64 where
  "sizeof_BOOT_INFO \<equiv> 88"

record BOOT_MEMORY_DESCRIPTOR =
  dtype :: u32
  padding :: u32
  physical_start :: u64
  virtual_start :: u64
  number_of_pages :: u64
  attributes :: u64

abbreviation (input) sizeof_BOOT_MEMORY_DESCRIPTOR :: u64 where
  "sizeof_BOOT_MEMORY_DESCRIPTOR \<equiv> 40"

definition load_BOOT_INFO :: "memory \<Rightarrow> u64 \<Rightarrow> BOOT_INFO" where
  "load_BOOT_INFO m a = \<lparr>magic = load64 m a, version = load32 m (a + 8),
     info_size = load32 m (a + 12), memory_map = load64 m (a + 16),
     memory_map_size = load64 m (a + 24), descriptor_size = load64 m (a + 32),
     descriptor_version = load32 m (a + 40), reserved = load32 m (a + 44),
     kernel_base = load64 m (a + 48), kernel_size = load64 m (a + 56),
     stack_base = load64 m (a + 64), stack_size = load64 m (a + 72),
     info_flags = load64 m (a + 80)\<rparr>"

definition load_DESCRIPTOR :: "memory \<Rightarrow> u64 \<Rightarrow> BOOT_MEMORY_DESCRIPTOR" where
  "load_DESCRIPTOR m a = \<lparr>dtype = load32 m a, padding = load32 m (a + 4),
     physical_start = load64 m (a + 8), virtual_start = load64 m (a + 16),
     number_of_pages = load64 m (a + 24), attributes = load64 m (a + 32)\<rparr>"

text \<open>Writing a struct field by field, in declaration order.\<close>

definition store_BOOT_INFO :: "u64 \<Rightarrow> BOOT_INFO \<Rightarrow> memory \<Rightarrow> memory" where
  "store_BOOT_INFO a i m =
     store64 (a + 80) (info_flags i) (store64 (a + 72) (stack_size i) (store64 (a + 64) (stack_base i)
     (store64 (a + 56) (kernel_size i) (store64 (a + 48) (kernel_base i)
     (store32 (a + 44) (reserved i) (store32 (a + 40) (descriptor_version i)
     (store64 (a + 32) (descriptor_size i) (store64 (a + 24) (memory_map_size i)
     (store64 (a + 16) (memory_map i) (store32 (a + 12) (info_size i)
     (store32 (a + 8) (version i) (store64 a (magic i) m))))))))))))"

definition store_DESCRIPTOR :: "u64 \<Rightarrow> BOOT_MEMORY_DESCRIPTOR \<Rightarrow> memory \<Rightarrow> memory" where
  "store_DESCRIPTOR a d m =
     store64 (a + 32) (attributes d) (store64 (a + 24) (number_of_pages d)
     (store64 (a + 16) (virtual_start d) (store64 (a + 8) (physical_start d)
     (store32 (a + 4) (padding d) (store32 a (dtype d) m)))))"

lemma load_store_BOOT_INFO [simp]: "load_BOOT_INFO (store_BOOT_INFO a i m) a = i"
  by (simp add: load_BOOT_INFO_def store_BOOT_INFO_def c_simps)

lemma load_store_DESCRIPTOR [simp]: "load_DESCRIPTOR (store_DESCRIPTOR a d m) a = d"
  by (simp add: load_DESCRIPTOR_def store_DESCRIPTOR_def c_simps)

end
