(* ===== verification/Bitset.thy ===== *)
theory Bitset
  imports Prelude
begin

text \<open>
  The interface of a bitmap indexed by 64-bit words: membership, setting and clearing of
  one index below a bound. Its clients are the range loops and the counting loop of the
  page allocator, whose effect on the set of members is proved here once.
\<close>

definition bit_elems :: "('m \<Rightarrow> u64 \<Rightarrow> bool) \<Rightarrow> nat \<Rightarrow> 'm \<Rightarrow> nat set" where
  "bit_elems mbr bound m = {k. k < bound \<and> mbr m (of_nat k)}"

lemma finite_bit_elems [simp]: "finite (bit_elems mbr bound m)"
  by (simp add: bit_elems_def)

locale bitset =
  fixes mbr :: "'m \<Rightarrow> u64 \<Rightarrow> bool"
    and ins :: "'m \<Rightarrow> u64 \<Rightarrow> 'm"
    and del :: "'m \<Rightarrow> u64 \<Rightarrow> 'm"
    and wfm :: "'m \<Rightarrow> bool"
    and bound :: nat
  assumes bound64: "bound < 2 ^ 64"
    and mbr_ins: "wfm m \<Longrightarrow> unat i < bound \<Longrightarrow> unat j < bound \<Longrightarrow> mbr (ins m i) j \<longleftrightarrow> j = i \<or> mbr m j"
    and mbr_del: "wfm m \<Longrightarrow> unat i < bound \<Longrightarrow> unat j < bound \<Longrightarrow> mbr (del m i) j \<longleftrightarrow> j \<noteq> i \<and> mbr m j"
    and wfm_ins: "wfm m \<Longrightarrow> wfm (ins m i)"
    and wfm_del: "wfm m \<Longrightarrow> wfm (del m i)"
begin

lemma idx: "k < bound \<Longrightarrow> unat (of_nat k :: u64) = k"
  using bound64 by (simp add: unat_of_nat64)

lemma of_nat_eq_idx:
  assumes "k < bound"
  shows "of_nat k = (i :: u64) \<longleftrightarrow> k = unat i"
proof
  assume "of_nat k = i"
  then show "k = unat i" using idx [OF assms] by simp
qed simp

lemma mem_elems: "unat i < bound \<Longrightarrow> unat i \<in> bit_elems mbr bound m \<longleftrightarrow> mbr m i"
  by (simp add: bit_elems_def)

lemma elems_ins:
  "wfm m \<Longrightarrow> unat i < bound \<Longrightarrow>
   bit_elems mbr bound (ins m i) = insert (unat i) (bit_elems mbr bound m)"
  by (auto simp: bit_elems_def mbr_ins idx of_nat_eq_idx)

lemma elems_del:
  "wfm m \<Longrightarrow> unat i < bound \<Longrightarrow>
   bit_elems mbr bound (del m i) = bit_elems mbr bound m - {unat i}"
  by (auto simp: bit_elems_def mbr_del idx of_nat_eq_idx)

lemma fill_range:
  assumes "wfm m" and "unat hi \<le> bound"
  shows "wfm (for_up lo hi (\<lambda>i m. ins m i) m)"
    and "bit_elems mbr bound (for_up lo hi (\<lambda>i m. ins m i) m) =
         bit_elems mbr bound m \<union> {unat lo..<unat hi}"
proof -
  have "wfm (fold (\<lambda>k m. ins m (of_nat k)) ks m) \<and>
      bit_elems mbr bound (fold (\<lambda>k m. ins m (of_nat k)) ks m) = bit_elems mbr bound m \<union> set ks"
    if "\<forall>k\<in>set ks. k < bound" for ks
    using that assms(1)
    by (induction ks arbitrary: m) (auto simp: wfm_ins elems_ins idx)
  from this [of "[unat lo..<unat hi]"] assms(2)
  show "wfm (for_up lo hi (\<lambda>i m. ins m i) m)"
    and "bit_elems mbr bound (for_up lo hi (\<lambda>i m. ins m i) m) =
         bit_elems mbr bound m \<union> {unat lo..<unat hi}"
    by (auto simp: for_up_fold)
qed

lemma erase_range:
  assumes "wfm m" and "unat hi \<le> bound"
  shows "wfm (for_up lo hi (\<lambda>i m. del m i) m)"
    and "bit_elems mbr bound (for_up lo hi (\<lambda>i m. del m i) m) =
         bit_elems mbr bound m - {unat lo..<unat hi}"
proof -
  have "wfm (fold (\<lambda>k m. del m (of_nat k)) ks m) \<and>
      bit_elems mbr bound (fold (\<lambda>k m. del m (of_nat k)) ks m) = bit_elems mbr bound m - set ks"
    if "\<forall>k\<in>set ks. k < bound" for ks
    using that assms(1)
    by (induction ks arbitrary: m) (auto simp: wfm_del elems_del idx)
  from this [of "[unat lo..<unat hi]"] assms(2)
  show "wfm (for_up lo hi (\<lambda>i m. del m i) m)"
    and "bit_elems mbr bound (for_up lo hi (\<lambda>i m. del m i) m) =
         bit_elems mbr bound m - {unat lo..<unat hi}"
    by (auto simp: for_up_fold)
qed

lemma count_all:
  fixes t :: u64
  assumes "unat n = bound"
  shows "for_up 0 n (\<lambda>i t. if mbr m i then t + 1 else t) t =
    t + of_nat (card (bit_elems mbr bound m))"
proof -
  have "fold (\<lambda>k t. if mbr m (of_nat k) then t + 1 else t) [0..<b] t =
      t + of_nat (card {k. k < b \<and> mbr m (of_nat k)})" for b and t :: u64
  proof (induction b)
    case 0
    then show ?case by simp
  next
    case (Suc b)
    have "{k. k < Suc b \<and> mbr m (of_nat k)} =
        (if mbr m (of_nat b) then insert b {k. k < b \<and> mbr m (of_nat k)}
         else {k. k < b \<and> mbr m (of_nat k)})"
      by (auto simp: less_Suc_eq)
    with Suc show ?case by simp
  qed
  then show ?thesis by (simp add: for_up_fold assms bit_elems_def)
qed

end

end
