(* ===== verification/FrameAllocator.thy ===== *)
theory FrameAllocator
  imports Prelude
begin

text \<open>
  The contract of a page-frame allocator towards its clients: the frames in use and the
  frames available are disjoint sets of page-aligned addresses, allocation moves one
  frame from the second set to the first, and freeing moves it back. The clients proved
  here are runs of allocations: they return distinct frames, exhaust exactly the
  available ones, and freeing them restores the sets.
\<close>

definition frame_addr :: "u64 \<Rightarrow> bool" where
  "frame_addr a \<longleftrightarrow> page_aligned a \<and> 0x100000 \<le> a \<and> a < 0x100000000"

text \<open>\<open>n\<close> allocations in a row; \<open>None\<close> as soon as one fails.\<close>

primrec alloc_many :: "('s \<Rightarrow> u64 option \<times> 's) \<Rightarrow> nat \<Rightarrow> 's \<Rightarrow> (u64 list \<times> 's) option" where
  "alloc_many alloc 0 s = Some ([], s)"
| "alloc_many alloc (Suc n) s =
     (case alloc s of
        (None, _) \<Rightarrow> None
      | (Some a, s') \<Rightarrow> map_option (map_prod ((#) a) id) (alloc_many alloc n s'))"

primrec free_many :: "(u64 \<Rightarrow> 's \<Rightarrow> bool \<times> 's) \<Rightarrow> u64 list \<Rightarrow> 's \<Rightarrow> bool \<times> 's" where
  "free_many free [] s = (True, s)"
| "free_many free (a # as) s =
     (case free a s of (ok, s') \<Rightarrow> map_prod ((\<and>) ok) id (free_many free as s'))"

locale frame_allocator =
  fixes alloc :: "'s \<Rightarrow> u64 option \<times> 's"
    and free :: "u64 \<Rightarrow> 's \<Rightarrow> bool \<times> 's"
    and inv :: "'s \<Rightarrow> bool"
    and used :: "'s \<Rightarrow> u64 set"
    and avail :: "'s \<Rightarrow> u64 set"
  assumes alloc_Some: "inv s \<Longrightarrow> alloc s = (Some a, s') \<Longrightarrow>
      a \<in> avail s \<and> used s' = insert a (used s) \<and> avail s' = avail s - {a} \<and> inv s'"
    and alloc_None: "inv s \<Longrightarrow> alloc s = (None, s') \<Longrightarrow> s' = s \<and> avail s = {}"
    and free_used: "inv s \<Longrightarrow> a \<in> used s \<Longrightarrow> free a s = (ok, s') \<Longrightarrow>
      ok \<and> used s' = used s - {a} \<and> avail s' = insert a (avail s) \<and> inv s'"
    and free_unused: "inv s \<Longrightarrow> a \<notin> used s \<Longrightarrow> free a s = (False, s)"
    and disjoint: "inv s \<Longrightarrow> used s \<inter> avail s = {}"
    and finite_avail: "inv s \<Longrightarrow> finite (avail s)"
    and frames: "inv s \<Longrightarrow> a \<in> used s \<union> avail s \<Longrightarrow> frame_addr a"
begin

lemma alloc_fresh: "inv s \<Longrightarrow> alloc s = (Some a, s') \<Longrightarrow> a \<notin> used s \<and> frame_addr a"
  using alloc_Some [of s a s'] disjoint [of s] frames [of s a] by auto

lemma alloc_card:
  "inv s \<Longrightarrow> alloc s = (Some a, s') \<Longrightarrow> card (avail s) = Suc (card (avail s'))"
  using alloc_Some [of s a s'] finite_avail [of s] card.remove [of "avail s" a] by simp

lemma alloc_succeeds: "inv s \<Longrightarrow> avail s \<noteq> {} \<Longrightarrow> \<exists>a s'. alloc s = (Some a, s')"
  using alloc_None [of s "snd (alloc s)"] by (cases "alloc s"; cases "fst (alloc s)") auto

lemma free_ok:
  assumes "inv s" and "a \<in> used s"
  obtains s' where "free a s = (True, s')" and "used s' = used s - {a}"
    and "avail s' = insert a (avail s)" and "inv s'"
  using free_used [OF assms, of "fst (free a s)" "snd (free a s)"] by (cases "free a s") auto

lemma alloc_many_ok:
  assumes "inv s" and "n \<le> card (avail s)"
  shows "\<exists>as s'. alloc_many alloc n s = Some (as, s') \<and> length as = n \<and> distinct as
    \<and> set as \<subseteq> avail s \<and> used s' = used s \<union> set as \<and> avail s' = avail s - set as \<and> inv s'"
  using assms
proof (induction n arbitrary: s)
  case 0
  then show ?case by simp
next
  case (Suc n)
  then have "avail s \<noteq> {}" by auto
  with Suc.prems(1) obtain a t where a: "alloc s = (Some a, t)" using alloc_succeeds by blast
  note step = alloc_Some [OF Suc.prems(1) a]
  have "inv t" "n \<le> card (avail t)"
    using step alloc_card [OF Suc.prems(1) a] Suc.prems(2) by simp_all
  from Suc.IH [OF this] obtain as s' where
    "alloc_many alloc n t = Some (as, s')" "length as = n" "distinct as"
    "set as \<subseteq> avail t" "used s' = used t \<union> set as" "avail s' = avail t - set as" "inv s'"
    by (elim exE conjE)
  then show ?case using a step by (intro exI [of _ "a # as"] exI [of _ s']) auto
qed

lemma alloc_many_exhausted:
  "inv s \<Longrightarrow> card (avail s) < n \<Longrightarrow> alloc_many alloc n s = None"
proof (induction n arbitrary: s)
  case (Suc n)
  obtain r t where r: "alloc s = (r, t)" by (cases "alloc s")
  show ?case
  proof (cases r)
    case (Some a)
    then have "alloc s = (Some a, t)" using r by simp
    from alloc_Some [OF Suc.prems(1) this] alloc_card [OF Suc.prems(1) this] Suc.prems(2)
    have "alloc_many alloc n t = None" by (intro Suc.IH) simp_all
    then show ?thesis using r Some by simp
  qed (simp add: r)
qed simp

lemma free_many_ok:
  "inv s \<Longrightarrow> distinct as \<Longrightarrow> set as \<subseteq> used s \<Longrightarrow>
   \<exists>s'. free_many free as s = (True, s') \<and> used s' = used s - set as
     \<and> avail s' = avail s \<union> set as \<and> inv s'"
proof (induction as arbitrary: s)
  case Nil
  then show ?case by simp
next
  case (Cons a as)
  obtain ok t where a: "free a s = (ok, t)" by (cases "free a s")
  have step: "ok \<and> used t = used s - {a} \<and> avail t = insert a (avail s) \<and> inv t"
    using free_used [OF Cons.prems(1) _ a] Cons.prems(3) by simp
  moreover from step Cons.prems obtain s' where "free_many free as t = (True, s')"
    "used s' = used t - set as" "avail s' = avail t \<union> set as" "inv s'"
    using Cons.IH [of t] by auto
  ultimately show ?case using a by auto
qed

text \<open>Allocating and freeing everything again restores what is in use and what is available.\<close>

lemma alloc_free_many:
  assumes "inv s" and "n \<le> card (avail s)"
  shows "\<exists>as s' s''. alloc_many alloc n s = Some (as, s') \<and> free_many free as s' = (True, s'')
    \<and> used s'' = used s \<and> avail s'' = avail s \<and> inv s''"
proof -
  obtain as s' where as: "alloc_many alloc n s = Some (as, s')" "distinct as"
    "set as \<subseteq> avail s" "used s' = used s \<union> set as" "avail s' = avail s - set as" "inv s'"
    using alloc_many_ok [OF assms] by blast
  then obtain s'' where "free_many free as s' = (True, s'')" "used s'' = used s' - set as"
    "avail s'' = avail s' \<union> set as" "inv s''"
    using free_many_ok [of s' as] by auto
  moreover have "used s \<inter> set as = {}" using disjoint [OF assms(1)] as(3) by auto
  ultimately show ?thesis using as by auto
qed

end

text \<open>An allocator that always hands out the lowest available frame.\<close>

locale lowest_first_allocator = frame_allocator +
  assumes alloc_least: "inv s \<Longrightarrow> alloc s = (Some a, s') \<Longrightarrow> b \<in> avail s \<Longrightarrow> a \<le> b"
begin

lemma alloc_Min: "inv s \<Longrightarrow> alloc s = (Some a, s') \<Longrightarrow> a = Min (avail s)"
  by (metis Min_eqI alloc_Some alloc_least finite_avail)

text \<open>
  What was allocated before is below what is allocated next, and a freed frame below
  every available one is the next to be handed out.
\<close>

lemma alloc_many_sorted:
  "inv s \<Longrightarrow> alloc_many alloc n s = Some (as, s') \<Longrightarrow>
   inv s' \<and> avail s' \<subseteq> avail s \<and> sorted_wrt (<) as \<and> set as \<subseteq> avail s
     \<and> (\<forall>a \<in> set as. \<forall>b \<in> avail s'. a < b)"
proof (induction n arbitrary: s as)
  case 0
  then show ?case by simp
next
  case (Suc n)
  obtain a t bs where a: "alloc s = (Some a, t)" and bs: "alloc_many alloc n t = Some (bs, s')" "as = a # bs"
    using Suc.prems(2) by (auto split: prod.splits option.splits)
  note step = alloc_Some [OF Suc.prems(1) a]
  have IH: "inv s' \<and> avail s' \<subseteq> avail t \<and> sorted_wrt (<) bs \<and> set bs \<subseteq> avail t
     \<and> (\<forall>a \<in> set bs. \<forall>b \<in> avail s'. a < b)"
    using Suc.IH [OF _ bs(1)] step by blast
  moreover have "\<forall>b \<in> avail t. a < b"
    using alloc_least [OF Suc.prems(1) a] step by (metis DiffE insertI1 order_le_imp_less_or_eq)
  ultimately show ?case using step bs(2) by (auto simp: subset_iff)
qed

lemma free_then_alloc:
  assumes "inv s" and "a \<in> used s" and "\<And>b. b \<in> avail s \<Longrightarrow> a < b"
    and "free a s = (ok, t)" and "alloc t = (r, u)"
  shows "r = Some a"
proof -
  have t: "avail t = insert a (avail s)" "inv t" using free_used [OF assms(1,2,4)] by auto
  then obtain c where c: "r = Some c" using alloc_None [of t u] assms(5) by (cases r) auto
  have "c \<in> avail t" "c \<le> a"
    using alloc_Some [OF t(2)] alloc_least [OF t(2), of c u a] assms(5) c t(1) by auto
  then show ?thesis using assms(3) [of c] t(1) c by auto
qed

end

end
