(* ===== verification/Pmm.thy ===== *)
theory Pmm
  imports BootInfo Bitset FrameAllocator
begin

text \<open>
  The physical page allocator of \<open>kernel/pmm.c\<close>. The static variables are the record
  \<open>pmm\<close>; the two bitmaps are arrays of \<open>WORD_COUNT\<close> words. \<open>pmm_alloc\<close> takes
  whether the out pointer is non-null and yields \<open>Some a\<close> when the C function returns
  true with \<open>*address = a\<close>, \<open>None\<close> when it returns false and writes nothing.
\<close>

abbreviation (input) PMM_PAGE_SIZE :: u64 where
  "PMM_PAGE_SIZE \<equiv> 4096"

abbreviation (input) PMM_LIMIT :: u64 where
  "PMM_LIMIT \<equiv> 0x100000000"

abbreviation (input) PAGE_COUNT :: u64 where
  "PAGE_COUNT \<equiv> 0x100000"

abbreviation (input) WORD_COUNT :: nat where
  "WORD_COUNT \<equiv> 16384"

record pmm =
  eligible :: "u64 list"
  allocated :: "u64 list"
  total_pages :: u64
  free_pages :: u64
  cursor :: u64
  ready :: bool

definition pmm_bss :: pmm where
  "pmm_bss = \<lparr>eligible = replicate WORD_COUNT 0, allocated = replicate WORD_COUNT 0,
     total_pages = 0, free_pages = 0, cursor = 0, ready = False\<rparr>"

definition map_bit :: "u64 list \<Rightarrow> u64 \<Rightarrow> bool" where
  "map_bit bm page \<longleftrightarrow> (bm ! unat (page div 64)) AND push_bit (unat (page mod 64)) 1 \<noteq> 0"

definition map_set :: "u64 list \<Rightarrow> u64 \<Rightarrow> u64 list" where
  "map_set bm page =
     bm[unat (page div 64) := (bm ! unat (page div 64)) OR push_bit (unat (page mod 64)) 1]"

definition map_clear :: "u64 list \<Rightarrow> u64 \<Rightarrow> u64 list" where
  "map_clear bm page =
     bm[unat (page div 64) := (bm ! unat (page div 64)) AND NOT (push_bit (unat (page mod 64)) 1)]"

definition valid_range :: "u64 \<Rightarrow> u64 \<Rightarrow> bool" where
  "valid_range base sz \<longleftrightarrow> sz \<noteq> 0 \<and> base \<le> UINT64_MAX - sz"

definition reserve :: "u64 \<Rightarrow> u64 \<Rightarrow> u64 list \<Rightarrow> u64 list" where
  "reserve base sz elig =
     (if base \<ge> PMM_LIMIT then elig
      else let e = base + sz; e = (if e > PMM_LIMIT then PMM_LIMIT else e) in
        for_up (base div PMM_PAGE_SIZE) ((e + 4095) div 4096) (\<lambda>page m. map_clear m page) elig)"

definition descriptor :: "memory \<Rightarrow> BOOT_INFO \<Rightarrow> u64 \<Rightarrow> BOOT_MEMORY_DESCRIPTOR" where
  "descriptor m info index = load_DESCRIPTOR m (memory_map info + index * descriptor_size info)"

definition valid_boot_info :: "memory \<Rightarrow> u64 \<Rightarrow> bool" where
  "valid_boot_info m p =
     (let info = load_BOOT_INFO m p in
      if p = 0 \<or> magic info \<noteq> BOOT_INFO_MAGIC then False
      else if version info \<noteq> BOOT_INFO_VERSION \<or> info_size info \<noteq> 88 then False
      else if info_flags info \<noteq> BOOT_SERVICES_EXITED then False
      else if memory_map info = 0 \<or> memory_map info mod 8 \<noteq> 0 then False
      else if descriptor_size info < sizeof_BOOT_MEMORY_DESCRIPTOR then False
      else if descriptor_size info mod 8 \<noteq> 0 \<or> descriptor_version info \<noteq> 1 then False
      else if \<not> valid_range (memory_map info) (memory_map_size info) then False
      else if memory_map_size info > 65536 \<or> memory_map_size info mod descriptor_size info \<noteq> 0
        then False
      else if \<not> valid_range (kernel_base info) (kernel_size info) then False
      else if \<not> valid_range (stack_base info) (stack_size info) then False
      else valid_range p sizeof_BOOT_INFO)"

definition valid_descriptor :: "BOOT_MEMORY_DESCRIPTOR \<Rightarrow> bool" where
  "valid_descriptor d =
     (if physical_start d mod PMM_PAGE_SIZE \<noteq> 0 \<or> number_of_pages d = 0 then False
      else number_of_pages d \<le> (UINT64_MAX - physical_start d) div PMM_PAGE_SIZE)"

definition valid_map_ranges :: "memory \<Rightarrow> BOOT_INFO \<Rightarrow> bool" where
  "valid_map_ranges m info =
     (let count = memory_map_size info div descriptor_size info in
      case for_ret 0 count (\<lambda>i _.
          let d = descriptor m info i in
          if \<not> valid_descriptor d then Inl False
          else let e = physical_start d + number_of_pages d * 4096 in
            for_ret 0 i (\<lambda>j _.
              let other = descriptor m info j in
              if physical_start d < physical_start other + number_of_pages other * 4096
                 \<and> physical_start other < e then Inl False else Inr ()) ()) () of
        Inl r \<Rightarrow> r | Inr _ \<Rightarrow> True)"

text \<open>The loop body of \<open>mark_usable_pages\<close>.\<close>

definition mark_descriptor :: "BOOT_MEMORY_DESCRIPTOR \<Rightarrow> u64 list \<Rightarrow> u64 list" where
  "mark_descriptor d elig =
     (if dtype d \<noteq> 7 \<or> attributes d AND push_bit 63 1 \<noteq> 0 then elig
      else let begin = physical_start d; e = begin + number_of_pages d * 4096;
               begin = (if begin < 0x100000 then 0x100000 else begin);
               e = (if e > PMM_LIMIT then PMM_LIMIT else e) in
        for_up (begin div 4096) (e div 4096) (\<lambda>page m. map_set m page) elig)"

definition mark_usable_pages :: "memory \<Rightarrow> BOOT_INFO \<Rightarrow> u64 list \<Rightarrow> u64 list" where
  "mark_usable_pages m info elig =
     (let count = memory_map_size info div descriptor_size info in
      for_up 0 count (\<lambda>i elig. mark_descriptor (descriptor m info i) elig) elig)"

definition reserve_boot_regions :: "BOOT_INFO \<Rightarrow> u64 \<Rightarrow> u64 list \<Rightarrow> u64 list" where
  "reserve_boot_regions info p elig =
     reserve (stack_base info) (stack_size info)
      (reserve (memory_map info) (memory_map_size info)
       (reserve p sizeof_BOOT_INFO
        (reserve (kernel_base info) (kernel_size info) elig)))"

definition pmm_init :: "memory \<Rightarrow> u64 \<Rightarrow> pmm \<Rightarrow> bool \<times> pmm" where
  "pmm_init m p s =
     (let info = load_BOOT_INFO m p in
      if ready s \<or> \<not> valid_boot_info m p then (False, s)
      else if \<not> valid_map_ranges m info then (False, s)
      else let elig = reserve_boot_regions info p (mark_usable_pages m info (eligible s));
               total = for_up 0 PAGE_COUNT
                 (\<lambda>page t. if map_bit elig page then t + 1 else t) (total_pages s) in
        (True, s\<lparr>eligible := elig, total_pages := total, free_pages := total, ready := True\<rparr>))"

text \<open>The scan of \<open>pmm_alloc\<close>: the first page from the cursor on that is eligible and not allocated.\<close>

function alloc_scan :: "pmm \<Rightarrow> u64 \<Rightarrow> u64 option" where
  "alloc_scan s scanned =
     (if scanned < PAGE_COUNT then
        let page = (cursor s + scanned) mod PAGE_COUNT in
        if \<not> map_bit (eligible s) page \<or> map_bit (allocated s) page
        then alloc_scan s (scanned + 1) else Some page
      else None)"
  by pat_completeness auto
termination
  by (relation "measure (\<lambda>(s, scanned). 0x100000 - unat scanned)")
    (auto simp: unat_succ [of _ PAGE_COUNT] word_less_nat_alt)

declare alloc_scan.simps [simp del]

definition pmm_alloc :: "bool \<Rightarrow> pmm \<Rightarrow> u64 option \<times> pmm" where
  "pmm_alloc nonnull s =
     (if \<not> ready s \<or> \<not> nonnull \<or> free_pages s = 0 then (None, s)
      else case alloc_scan s 0 of
        None \<Rightarrow> (None, s)
      | Some page \<Rightarrow>
          (Some (page * 4096),
           s\<lparr>allocated := map_set (allocated s) page, free_pages := free_pages s - 1,
             cursor := (page + 1) mod PAGE_COUNT\<rparr>))"

definition pmm_free :: "u64 \<Rightarrow> pmm \<Rightarrow> bool \<times> pmm" where
  "pmm_free address s =
     (if \<not> ready s \<or> address mod 4096 \<noteq> 0 \<or> address \<ge> PMM_LIMIT then (False, s)
      else let page = address div 4096 in
        if \<not> map_bit (eligible s) page \<or> \<not> map_bit (allocated s) page then (False, s)
        else (True, s\<lparr>allocated := map_clear (allocated s) page, free_pages := free_pages s + 1,
                      cursor := (if page < cursor s then page else cursor s)\<rparr>))"

definition pmm_total :: "pmm \<Rightarrow> u64" where
  "pmm_total s = total_pages s"

definition pmm_available :: "pmm \<Rightarrow> u64" where
  "pmm_available s = free_pages s"

definition pmm_is_allocated :: "u64 \<Rightarrow> pmm \<Rightarrow> bool" where
  "pmm_is_allocated address s \<longleftrightarrow> ready s \<and> address < PMM_LIMIT \<and> address mod 4096 = 0
     \<and> map_bit (eligible s) (address div 4096) \<and> map_bit (allocated s) (address div 4096)"


section \<open>The bitmaps as sets of page numbers\<close>

definition map_wf :: "u64 list \<Rightarrow> bool" where
  "map_wf bm \<longleftrightarrow> length bm = WORD_COUNT"

abbreviation pages :: "u64 list \<Rightarrow> nat set" where
  "pages \<equiv> bit_elems map_bit 0x100000"

lemma map_bit_iff: "map_bit bm page \<longleftrightarrow> bit (bm ! (unat page div 64)) (unat page mod 64)"
  by (simp add: map_bit_def and_exp_eq_0_iff_not_bit unat_div unat_mod)

lemma word_index: "unat (i :: u64) < 0x100000 \<Longrightarrow> unat i div 64 < WORD_COUNT"
  by (simp add: less_mult_imp_div_less)

lemma same_bit_iff:
  "(i :: u64) = j \<longleftrightarrow> unat i div 64 = unat j div 64 \<and> unat i mod 64 = unat j mod 64"
  by (metis div_mult_mod_eq unsigned_word_eqI)

interpretation pmap: bitset map_bit map_set map_clear map_wf "0x100000"
proof
  fix m :: "u64 list" and i j :: u64
  assume wf: "map_wf m"
  then show "map_wf (map_set m i)" "map_wf (map_clear m i)"
    by (simp_all add: map_wf_def map_set_def map_clear_def)
  assume i: "unat i < 0x100000" and j: "unat j < 0x100000"
  have len: "unat i div 64 < length m" "unat j div 64 < length m"
    using wf word_index [OF i] word_index [OF j] by (simp_all add: map_wf_def)
  show "map_bit (map_set m i) j \<longleftrightarrow> j = i \<or> map_bit m j"
    using len same_bit_iff [of j i]
    by (auto simp: map_bit_iff map_set_def unat_div unat_mod nth_list_update bit_simps)
  show "map_bit (map_clear m i) j \<longleftrightarrow> j \<noteq> i \<and> map_bit m j"
    using len same_bit_iff [of j i]
    by (auto simp: map_bit_iff map_clear_def unat_div unat_mod nth_list_update bit_simps)
qed simp


section \<open>The allocator invariant\<close>

definition free_set :: "pmm \<Rightarrow> nat set" where
  "free_set s = pages (eligible s) - pages (allocated s)"

text \<open>
  Besides the counters, the invariant says that no page below the cursor is free: this is
  what makes the scan from the cursor find the lowest free page.
\<close>

definition pmm_inv :: "pmm \<Rightarrow> bool" where
  "pmm_inv s \<longleftrightarrow> map_wf (eligible s) \<and> map_wf (allocated s)
     \<and> pages (allocated s) \<subseteq> pages (eligible s) \<and> pages (eligible s) \<subseteq> {0x100..<0x100000}
     \<and> unat (cursor s) < 0x100000 \<and> (\<forall>k \<in> free_set s. unat (cursor s) \<le> k)
     \<and> unat (total_pages s) = card (pages (eligible s))
     \<and> unat (free_pages s) = card (free_set s)
     \<and> (\<not> ready s \<longrightarrow> pages (eligible s) = {} \<and> cursor s = 0)"

definition frame :: "nat \<Rightarrow> u64" where
  "frame k = of_nat k * 4096"

definition pmm_used :: "pmm \<Rightarrow> u64 set" where
  "pmm_used s = frame ` pages (allocated s)"

definition pmm_avail :: "pmm \<Rightarrow> u64 set" where
  "pmm_avail s = frame ` free_set s"

lemma pages_bound: "k \<in> pages m \<Longrightarrow> k < 0x100000"
  by (simp add: bit_elems_def)

lemma unat_frame: "k < 0x100000 \<Longrightarrow> unat (frame k) = k * 4096"
  by (simp add: frame_def unat_mult_no_wrap unat_of_nat64)

lemma frame_unat: "page_aligned a \<Longrightarrow> frame (unat a div 4096) = a"
proof -
  assume "page_aligned a"
  then have "unat a div 4096 * 4096 = unat a" by (simp add: page_aligned_unat)
  then have "unat (frame (unat a div 4096)) = unat a"
    using unat_lt64 [of a] by (simp add: frame_def unat_mult_no_wrap unat_of_nat64)
  then show ?thesis by (simp add: word_unat_eq_iff)
qed

lemma frame_inj: "j < 0x100000 \<Longrightarrow> k < 0x100000 \<Longrightarrow> frame j = frame k \<longleftrightarrow> j = k"
  by (simp add: word_unat_eq_iff unat_frame)

lemma frame_less: "j < 0x100000 \<Longrightarrow> k < 0x100000 \<Longrightarrow> frame j \<le> frame k \<longleftrightarrow> j \<le> k"
  by (simp add: word_le_nat_alt unat_frame)

lemma frame_div: "k < 0x100000 \<Longrightarrow> frame k div 4096 = of_nat k"
  by (simp add: word_unat_eq_iff unat_div unat_frame unat_of_nat64)

lemma free_set_bound: "k \<in> free_set s \<Longrightarrow> k < 0x100000"
  by (auto simp: free_set_def pages_bound)

lemma finite_free_set [simp]: "finite (free_set s)"
  by (simp add: free_set_def)

lemma mem_free_set:
  "unat i < 0x100000 \<Longrightarrow> unat i \<in> free_set s \<longleftrightarrow> map_bit (eligible s) i \<and> \<not> map_bit (allocated s) i"
  by (simp add: free_set_def pmap.mem_elems)

subsection \<open>Allocation\<close>

lemma alloc_scan_spec:
  assumes "unat (cursor s) < 0x100000" and "unat n \<le> 0x100000"
    and "\<forall>k \<in> free_set s. unat (cursor s) + unat n \<le> k"
  shows "alloc_scan s n = (if free_set s = {} then None else Some (of_nat (Min (free_set s))))"
  using assms
proof (induction s n rule: alloc_scan.induct)
  case (1 s n)
  let ?page = "(cursor s + n) mod PAGE_COUNT"
  let ?c = "unat (cursor s) + unat n"
  show ?case
  proof (cases "n < PAGE_COUNT")
    case True
    have page: "unat ?page = ?c mod 0x100000"
      using 1(2,3) by (simp add: unat_mod unat_add_no_wrap)
    then have lt: "unat ?page < 0x100000" by simp
    show ?thesis
    proof (cases "unat ?page \<in> free_set s")
      case free: True
      then have "?c \<le> unat ?page" using 1(4) by simp
      then have eq: "unat ?page = ?c" using page by (metis mod_less_eq_dividend order_antisym)
      have "Min (free_set s) = ?c" using free 1(4) eq by (intro Min_eqI) auto
      then have "of_nat (Min (free_set s)) = ?page" using eq [symmetric] by simp
      then show ?thesis
        using True free mem_free_set [OF lt] by (auto simp: alloc_scan.simps [of s n] Let_def)
    next
      case notfree: False
      then have rec: "alloc_scan s n = alloc_scan s (n + 1)"
        using True mem_free_set [OF lt] by (auto simp: alloc_scan.simps [of s n] Let_def)
      have after: "?c + 1 \<le> k" if k: "k \<in> free_set s" for k
      proof -
        have "?c \<le> k" "k < 0x100000" using 1(4) k free_set_bound by auto
        moreover have "k \<noteq> ?c" using notfree page k \<open>k < 0x100000\<close> by auto
        ultimately show ?thesis by simp
      qed
      show ?thesis unfolding rec
        using 1(1) [OF True refl _ 1(2)] notfree after True mem_free_set [OF lt]
        by (simp add: unat_succ [of n PAGE_COUNT] word_less_nat_alt)
    qed
  next
    case False
    then have "free_set s = {}" using 1(4) free_set_bound [of _ s]
      by (fastforce simp: word_less_nat_alt not_less)
    then show ?thesis using False by (simp add: alloc_scan.simps [of s n])
  qed
qed

lemma pmm_inv_free_pages: "pmm_inv s \<Longrightarrow> free_pages s = 0 \<longleftrightarrow> free_set s = {}"
  by (auto simp: pmm_inv_def simp flip: unat_eq_0)

lemma pmm_inv_not_ready: "pmm_inv s \<Longrightarrow> \<not> ready s \<Longrightarrow> free_set s = {} \<and> pages (allocated s) = {}"
  by (auto simp: pmm_inv_def free_set_def)

definition take_page :: "nat \<Rightarrow> pmm \<Rightarrow> pmm" where
  "take_page k s = s\<lparr>allocated := map_set (allocated s) (of_nat k),
     free_pages := free_pages s - 1, cursor := (of_nat k + 1) mod PAGE_COUNT\<rparr>"

definition give_page :: "nat \<Rightarrow> pmm \<Rightarrow> pmm" where
  "give_page k s = s\<lparr>allocated := map_clear (allocated s) (of_nat k),
     free_pages := free_pages s + 1, cursor := (if of_nat k < cursor s then of_nat k else cursor s)\<rparr>"

lemma page_ops_simps [simp]:
  "eligible (take_page k s) = eligible s" "total_pages (take_page k s) = total_pages s"
  "ready (take_page k s) = ready s"
  "eligible (give_page k s) = eligible s" "total_pages (give_page k s) = total_pages s"
  "ready (give_page k s) = ready s"
  "free_pages (take_page k s) = free_pages s - 1"
  "free_pages (give_page k s) = free_pages s + 1"
  "cursor (take_page k s) = (of_nat k + 1) mod PAGE_COUNT"
  by (simp_all add: take_page_def give_page_def)

lemma pmm_alloc_eq:
  assumes "pmm_inv s"
  shows "pmm_alloc True s =
    (if free_set s = {} then (None, s)
     else (Some (frame (Min (free_set s))), take_page (Min (free_set s)) s))"
proof -
  have "alloc_scan s 0 = (if free_set s = {} then None else Some (of_nat (Min (free_set s))))"
    using assms by (intro alloc_scan_spec) (auto simp: pmm_inv_def)
  then show ?thesis
    using pmm_inv_free_pages [OF assms] pmm_inv_not_ready [OF assms]
    by (auto simp: pmm_alloc_def take_page_def frame_def)
qed

lemma unat_next_page:
  assumes "k < 0x100000"
  shows "unat ((of_nat k + 1) mod PAGE_COUNT) = (k + 1) mod 0x100000"
  using assms by (simp add: unat_mod unat_of_nat64 unat_add_no_wrap)

lemma take_page_pages:
  assumes "pmm_inv s" and "k \<in> free_set s"
  shows "pages (allocated (take_page k s)) = insert k (pages (allocated s))"
    and "free_set (take_page k s) = free_set s - {k}"
proof -
  have wf: "map_wf (allocated s)" using assms(1) by (simp add: pmm_inv_def)
  have k: "unat (of_nat k :: u64) = k" using free_set_bound [OF assms(2)] by (simp add: unat_of_nat64)
  show *: "pages (allocated (take_page k s)) = insert k (pages (allocated s))"
    using pmap.elems_ins [OF wf, of "of_nat k"] k free_set_bound [OF assms(2)]
    by (simp add: take_page_def)
  show "free_set (take_page k s) = free_set s - {k}"
    using * by (auto simp: free_set_def take_page_def)
qed

lemma take_page_inv:
  assumes "pmm_inv s" and "k \<in> free_set s" and "\<forall>j \<in> free_set s. k \<le> j"
  shows "pmm_inv (take_page k s)"
proof -
  let ?t = "take_page k s"
  note pg = take_page_pages [OF assms(1,2)]
  have k: "k < 0x100000" by (rule free_set_bound [OF assms(2)])
  have "pages (allocated ?t) \<subseteq> pages (eligible ?t)"
    using assms(1,2) by (auto simp: pg pmm_inv_def free_set_def)
  moreover have "\<forall>j \<in> free_set ?t. unat (cursor ?t) \<le> j"
  proof
    fix j assume "j \<in> free_set ?t"
    then have "k < j" "j < 0x100000" using assms(3) free_set_bound by (fastforce simp: pg)+
    then show "unat (cursor ?t) \<le> j" by (simp add: unat_next_page [OF k])
  qed
  moreover have "unat (free_pages ?t) = card (free_set ?t)"
  proof -
    have "0 < card (free_set s)" using assms(2) by (auto simp: card_gt_0_iff)
    then have "1 \<le> free_pages s" using assms(1) by (simp add: pmm_inv_def word_le_nat_alt)
    then have "unat (free_pages s - 1) = card (free_set s) - 1"
      using assms(1) by (simp add: unat_sub pmm_inv_def)
    then show ?thesis using assms(2) by (simp add: pg(2))
  qed
  moreover have "map_wf (allocated ?t)"
    using assms(1) pmap.wfm_ins by (simp add: take_page_def pmm_inv_def)
  moreover have "ready s" using pmm_inv_not_ready [OF assms(1)] assms(2) by blast
  ultimately show ?thesis
    using assms(1) k unfolding pmm_inv_def by (simp add: unat_next_page)
qed

subsection \<open>Freeing\<close>

lemma mem_pmm_used:
  assumes "page_aligned a" and "a < PMM_LIMIT"
  shows "a \<in> pmm_used s \<longleftrightarrow> map_bit (allocated s) (a div 4096)"
proof -
  have lt: "unat (a div 4096) < 0x100000"
    using assms(2) by (simp add: unat_div word_less_nat_alt less_mult_imp_div_less)
  have a: "a = frame (unat (a div 4096))" using frame_unat [OF assms(1)] by (simp add: unat_div)
  have "a \<in> pmm_used s \<longleftrightarrow> unat (a div 4096) \<in> pages (allocated s)"
  proof
    assume "a \<in> pmm_used s"
    then obtain k where "k \<in> pages (allocated s)" "a = frame k" by (auto simp: pmm_used_def)
    moreover from this have "k < 0x100000" using pages_bound by blast
    ultimately show "unat (a div 4096) \<in> pages (allocated s)"
      by (simp add: frame_div unat_of_nat64)
  next
    assume "unat (a div 4096) \<in> pages (allocated s)"
    then show "a \<in> pmm_used s" using a by (auto simp: pmm_used_def)
  qed
  then show ?thesis using lt by (simp add: pmap.mem_elems)
qed

lemma pmm_used_frame_addr:
  assumes "pmm_inv s" and "a \<in> pmm_used s \<union> pmm_avail s"
  shows "frame_addr a"
proof -
  obtain k where k: "k \<in> pages (eligible s)" "a = frame k"
    using assms by (auto simp: pmm_used_def pmm_avail_def free_set_def pmm_inv_def)
  then have "0x100 \<le> k" "k < 0x100000" using assms(1) by (auto simp: pmm_inv_def)
  then show ?thesis
    using k(2) by (simp add: frame_addr_def page_aligned_unat unat_frame word_le_nat_alt word_less_nat_alt)
qed

lemma pmm_is_allocated_iff:
  assumes "pmm_inv s"
  shows "pmm_is_allocated a s \<longleftrightarrow> a \<in> pmm_used s"
proof (cases "page_aligned a \<and> a < PMM_LIMIT")
  case True
  have lt: "unat (a div 4096) < 0x100000"
    using True by (simp add: unat_div word_less_nat_alt less_mult_imp_div_less)
  show ?thesis
  proof (cases "ready s")
    case ready: True
    then have "map_bit (allocated s) (a div 4096) \<longrightarrow> map_bit (eligible s) (a div 4096)"
      using assms pmap.mem_elems [OF lt, symmetric] unfolding pmm_inv_def by blast
    then show ?thesis using True ready by (auto simp: pmm_is_allocated_def mem_pmm_used page_aligned_def)
  next
    case False
    then show ?thesis
      using pmm_inv_not_ready [OF assms] by (simp add: pmm_is_allocated_def pmm_used_def)
  qed
next
  case False
  then show ?thesis
    using pmm_used_frame_addr [OF assms, of a] by (auto simp: pmm_is_allocated_def frame_addr_def page_aligned_def)
qed

lemma of_nat_div_page: "of_nat (unat a div 4096) = (a div 4096 :: u64)"
  by (simp add: word_arith_nat_div)

lemma pmm_free_eq:
  assumes "pmm_inv s"
  shows "pmm_free a s =
    (if a \<in> pmm_used s then (True, give_page (unat a div 4096) s) else (False, s))"
proof -
  have "pmm_free a s =
    (if pmm_is_allocated a s then (True, give_page (unat a div 4096) s) else (False, s))"
    by (auto simp: pmm_free_def pmm_is_allocated_def give_page_def Let_def not_le of_nat_div_page)
  then show ?thesis by (simp add: pmm_is_allocated_iff [OF assms])
qed

lemma give_page_pages:
  assumes "pmm_inv s" and "k \<in> pages (allocated s)"
  shows "pages (allocated (give_page k s)) = pages (allocated s) - {k}"
    and "free_set (give_page k s) = insert k (free_set s)"
proof -
  have wf: "map_wf (allocated s)" using assms(1) by (simp add: pmm_inv_def)
  have lt: "k < 0x100000" by (rule pages_bound [OF assms(2)])
  then have k: "unat (of_nat k :: u64) = k" by (simp add: unat_of_nat64)
  show *: "pages (allocated (give_page k s)) = pages (allocated s) - {k}"
    using pmap.elems_del [OF wf, of "of_nat k"] k lt by (simp add: give_page_def)
  show "free_set (give_page k s) = insert k (free_set s)"
    using * assms by (auto simp: free_set_def pmm_inv_def)
qed

lemma give_page_inv:
  assumes "pmm_inv s" and "k \<in> pages (allocated s)"
  shows "pmm_inv (give_page k s)"
proof -
  let ?t = "give_page k s"
  note pg = give_page_pages [OF assms]
  have lt: "k < 0x100000" by (rule pages_bound [OF assms(2)])
  have cur: "unat (cursor ?t) = min k (unat (cursor s))"
    using lt by (simp add: give_page_def word_less_nat_alt unat_of_nat64)
  have "\<forall>j \<in> free_set ?t. unat (cursor ?t) \<le> j" "unat (cursor ?t) < 0x100000"
    using assms(1) lt by (auto simp: pg cur pmm_inv_def)
  moreover have "unat (free_pages ?t) = card (free_set ?t)"
  proof -
    have "card (free_set s) \<le> card {..<(0x100000::nat)}"
      by (intro card_mono) (auto dest: free_set_bound)
    then have "unat (free_pages s) + 1 < 2 ^ 64" using assms(1) by (simp add: pmm_inv_def)
    moreover have "k \<notin> free_set s" using assms(2) by (simp add: free_set_def)
    ultimately show ?thesis
      using assms(1) by (simp add: pg(2) unat_add_no_wrap pmm_inv_def)
  qed
  moreover have "map_wf (allocated ?t)"
    using assms(1) pmap.wfm_del by (simp add: give_page_def pmm_inv_def)
  ultimately show ?thesis using assms by (auto simp: pmm_inv_def pg)
qed

lemma pmm_used_take:
  assumes "pmm_inv s" and "k \<in> free_set s"
  shows "pmm_used (take_page k s) = insert (frame k) (pmm_used s)"
    and "pmm_avail (take_page k s) = pmm_avail s - {frame k}"
proof -
  show "pmm_used (take_page k s) = insert (frame k) (pmm_used s)"
    by (simp add: pmm_used_def take_page_pages [OF assms])
  have "inj_on frame (free_set s)"
    by (rule inj_onI) (simp add: frame_inj free_set_bound)
  then show "pmm_avail (take_page k s) = pmm_avail s - {frame k}"
    using assms(2) by (simp add: pmm_avail_def take_page_pages [OF assms] inj_on_image_set_diff)
qed

lemma pmm_used_give:
  assumes "pmm_inv s" and "a \<in> pmm_used s"
  shows "pmm_used (give_page (unat a div 4096) s) = pmm_used s - {a}"
    and "pmm_avail (give_page (unat a div 4096) s) = insert a (pmm_avail s)"
    and "pmm_inv (give_page (unat a div 4096) s)"
proof -
  obtain k where k: "k \<in> pages (allocated s)" "a = frame k" using assms(2) by (auto simp: pmm_used_def)
  then have idx: "unat a div 4096 = k" using pages_bound [OF k(1)] by (simp add: unat_frame)
  have "inj_on frame (pages (allocated s))"
    by (rule inj_onI) (meson frame_inj pages_bound)
  then show "pmm_used (give_page (unat a div 4096) s) = pmm_used s - {a}"
    unfolding idx using k
    by (simp add: pmm_used_def give_page_pages [OF assms(1) k(1)] inj_on_image_set_diff)
  show "pmm_avail (give_page (unat a div 4096) s) = insert a (pmm_avail s)"
    unfolding idx using k by (simp add: pmm_avail_def give_page_pages [OF assms(1) k(1)])
  show "pmm_inv (give_page (unat a div 4096) s)"
    using give_page_inv [OF assms(1) k(1)] by (simp add: idx)
qed

interpretation pmm_fa:
  lowest_first_allocator "pmm_alloc True" pmm_free pmm_inv pmm_used pmm_avail
proof
  fix s s' :: pmm and a b :: u64 and ok :: bool
  assume inv: "pmm_inv s"
  have least: "Min (free_set s) \<in> free_set s" "\<forall>j \<in> free_set s. Min (free_set s) \<le> j"
    if "free_set s \<noteq> {}" using that by simp_all
  show "frame_addr a" if "a \<in> pmm_used s \<union> pmm_avail s"
    using pmm_used_frame_addr [OF inv that] .
  show "pmm_used s \<inter> pmm_avail s = {}"
    using frame_inj pages_bound free_set_bound [of _ s] pages_bound [of _ "allocated s"]
    unfolding pmm_used_def pmm_avail_def by (fastforce simp: free_set_def)
  show "finite (pmm_avail s)" by (simp add: pmm_avail_def)
  {
    assume al: "pmm_alloc True s = (Some a, s')"
    then have *: "free_set s \<noteq> {}" "a = frame (Min (free_set s))" "s' = take_page (Min (free_set s)) s"
      by (auto simp: pmm_alloc_eq [OF inv] split: if_splits)
    then show "a \<in> pmm_avail s \<and> pmm_used s' = insert a (pmm_used s) \<and> pmm_avail s' = pmm_avail s - {a} \<and> pmm_inv s'"
      using least pmm_used_take [OF inv] take_page_inv [OF inv] by (auto simp: pmm_avail_def)
    show "a \<le> b" if b: "b \<in> pmm_avail s"
    proof -
      obtain j where "j \<in> free_set s" "b = frame j" using b by (auto simp: pmm_avail_def)
      moreover have "Min (free_set s) < 0x100000"
        using least(1) * by (intro free_set_bound) blast
      ultimately show ?thesis using * least(2) free_set_bound [of j s] by (simp add: frame_less)
    qed
  }
  show "s' = s \<and> pmm_avail s = {}" if "pmm_alloc True s = (None, s')"
    using that by (auto simp: pmm_alloc_eq [OF inv] pmm_avail_def split: if_splits)
  show "ok \<and> pmm_used s' = pmm_used s - {a} \<and> pmm_avail s' = insert a (pmm_avail s) \<and> pmm_inv s'"
    if "a \<in> pmm_used s" "pmm_free a s = (ok, s')"
    using that pmm_used_give [OF inv that(1)] by (auto simp: pmm_free_eq [OF inv])
  show "pmm_free a s = (False, s)" if "a \<notin> pmm_used s"
    using that by (simp add: pmm_free_eq [OF inv])
qed

lemma card_pmm_avail: "pmm_inv s \<Longrightarrow> card (pmm_avail s) = unat (pmm_available s)"
proof -
  assume "pmm_inv s"
  moreover have "inj_on frame (free_set s)"
    by (rule inj_onI) (simp add: frame_inj free_set_bound)
  ultimately show ?thesis by (simp add: pmm_avail_def card_image pmm_inv_def pmm_available_def)
qed


section \<open>Initialisation\<close>

text \<open>The byte addresses a descriptor covers, and the pages a byte range touches.\<close>

definition desc_range :: "BOOT_MEMORY_DESCRIPTOR \<Rightarrow> nat set" where
  "desc_range d = {unat (physical_start d)..<unat (physical_start d) + unat (number_of_pages d) * 4096}"

definition touched :: "u64 \<Rightarrow> u64 \<Rightarrow> nat set" where
  "touched base sz = (\<lambda>a. a div 4096) ` {unat base..<unat base + unat sz}"

definition desc_count :: "BOOT_INFO \<Rightarrow> nat" where
  "desc_count info = unat (memory_map_size info div descriptor_size info)"

definition conventional :: "BOOT_MEMORY_DESCRIPTOR \<Rightarrow> bool" where
  "conventional d \<longleftrightarrow> dtype d = 7 \<and> \<not> bit (attributes d) 63"

text \<open>Pages of conventional, non-runtime memory from 1 MiB up to 4 GiB.\<close>

definition usable_pages :: "memory \<Rightarrow> BOOT_INFO \<Rightarrow> nat set" where
  "usable_pages m info = {k. 0x100 \<le> k \<and> k < 0x100000 \<and>
     (\<exists>i < desc_count info. conventional (descriptor m info (of_nat i))
        \<and> k * 4096 \<in> desc_range (descriptor m info (of_nat i)))}"

definition reserved_pages :: "BOOT_INFO \<Rightarrow> u64 \<Rightarrow> nat set" where
  "reserved_pages info p =
     touched (kernel_base info) (kernel_size info) \<union> touched p sizeof_BOOT_INFO
     \<union> touched (memory_map info) (memory_map_size info) \<union> touched (stack_base info) (stack_size info)"

lemma touched_eq:
  "0 < unat sz \<Longrightarrow> touched base sz = {unat base div 4096..<(unat base + unat sz + 4095) div 4096}"
  by (simp add: touched_def div_image_interval)

lemma valid_descriptor_range:
  assumes "valid_descriptor d"
  shows "4096 dvd unat (physical_start d)" and "0 < unat (number_of_pages d)"
    and "unat (physical_start d) + unat (number_of_pages d) * 4096 < 2 ^ 64"
    and "unat (physical_start d + number_of_pages d * 4096) =
         unat (physical_start d) + unat (number_of_pages d) * 4096"
proof -
  let ?s = "unat (physical_start d)" and ?n = "unat (number_of_pages d)"
  show "4096 dvd ?s" "0 < ?n"
    using assms by (auto simp: valid_descriptor_def page_aligned_unat [symmetric] page_aligned_def
        simp flip: unat_eq_0 split: if_splits)
  have "unat (UINT64_MAX - physical_start d) = 2 ^ 64 - 1 - ?s"
    using unat_sub [of "physical_start d" UINT64_MAX] unat_UINT64_MAX by simp
  then have "?n \<le> (2 ^ 64 - 1 - ?s) div 4096"
    using assms by (auto simp: valid_descriptor_def word_le_nat_alt unat_div split: if_splits)
  then have "?n * 4096 \<le> 2 ^ 64 - 1 - ?s" by (simp add: less_eq_div_iff_mult_less_eq)
  then show lt: "?s + ?n * 4096 < 2 ^ 64" using unat_lt64 [of "physical_start d"] by auto
  then show "unat (physical_start d + number_of_pages d * 4096) = ?s + ?n * 4096"
    by (simp add: unat_add_no_wrap unat_mult_no_wrap)
qed

lemma valid_map_ranges_iff:
  "valid_map_ranges m info \<longleftrightarrow>
     (\<forall>i < desc_count info. valid_descriptor (descriptor m info (of_nat i))) \<and>
     (\<forall>i < desc_count info. \<forall>j < i.
        desc_range (descriptor m info (of_nat i)) \<inter> desc_range (descriptor m info (of_nat j)) = {})"
proof -
  let ?d = "\<lambda>i. descriptor m info (of_nat i)"
  define clash where "clash d other \<longleftrightarrow>
      physical_start d < physical_start other + number_of_pages other * 4096
      \<and> physical_start other < physical_start d + number_of_pages d * 4096" for d other :: BOOT_MEMORY_DESCRIPTOR
  define bad where "bad i \<longleftrightarrow> \<not> valid_descriptor (descriptor m info i) \<or>
      (\<exists>j < unat i. clash (descriptor m info i) (?d j))" for i
  have body: "(\<lambda>i _. let d = descriptor m info i in
          if \<not> valid_descriptor d then Inl False
          else let e = physical_start d + number_of_pages d * 4096 in
            for_ret 0 i (\<lambda>j _.
              let other = descriptor m info j in
              if physical_start d < physical_start other + number_of_pages other * 4096
                 \<and> physical_start other < e then Inl False else Inr ()) ()) =
       (\<lambda>i (_ :: unit). if bad i then Inl False else Inr ())"
    by (intro ext) (auto simp: Let_def for_ret_search_unit bad_def clash_def)
  have idx: "unat (of_nat i :: u64) = i" if "i < desc_count info" for i
    using that unat_lt64 [of "memory_map_size info div descriptor_size info"]
    by (intro unat_of_nat64) (simp add: desc_count_def)
  have "valid_map_ranges m info \<longleftrightarrow> (\<forall>i < desc_count info. \<not> bad (of_nat i))"
    unfolding valid_map_ranges_def body by (simp add: for_ret_search_unit desc_count_def)
  moreover have meet: "clash d e \<longleftrightarrow> desc_range d \<inter> desc_range e \<noteq> {}"
    if "valid_descriptor d" "valid_descriptor e" for d e
    using valid_descriptor_range [OF that(1)] valid_descriptor_range [OF that(2)]
    by (auto simp: word_less_nat_alt desc_range_def intervals_meet clash_def)
  ultimately have "valid_map_ranges m info \<longleftrightarrow> (\<forall>i < desc_count info. valid_descriptor (?d i) \<and>
      (\<forall>j < i. \<not> clash (?d i) (?d j)))"
    using idx by (simp add: bad_def)
  moreover have "clash (?d i) (?d j) \<longleftrightarrow> desc_range (?d i) \<inter> desc_range (?d j) \<noteq> {}"
    if "\<forall>i < desc_count info. valid_descriptor (?d i)" "i < desc_count info" "j < i" for i j
    using that by (intro meet) auto
  ultimately show ?thesis by (simp only:) blast
qed

text \<open>The pages of one descriptor inside the managed range.\<close>

definition desc_pages :: "BOOT_MEMORY_DESCRIPTOR \<Rightarrow> nat set" where
  "desc_pages d = {k. 0x100 \<le> k \<and> k < 0x100000 \<and> k * 4096 \<in> desc_range d}"

lemma conventional_iff:
  "conventional d \<longleftrightarrow> \<not> (dtype d \<noteq> 7 \<or> attributes d AND push_bit 63 1 \<noteq> 0)"
  unfolding conventional_def push_bit_of_1 by (simp only: and_exp_eq_0_iff_not_bit) simp

lemma mark_descriptor_spec:
  assumes vd: "valid_descriptor d" and wf: "map_wf bm"
  shows "map_wf (mark_descriptor d bm)"
    and "pages (mark_descriptor d bm) = pages bm \<union> (if conventional d then desc_pages d else {})"
proof -
  define b where "b = (if physical_start d < 0x100000 then 0x100000 else physical_start d)"
  define e where "e = (if physical_start d + number_of_pages d * 4096 > PMM_LIMIT then PMM_LIMIT
    else physical_start d + number_of_pages d * 4096)"
  have eq: "mark_descriptor d bm = (if conventional d
      then for_up (b div 4096) (e div 4096) (\<lambda>page m. map_set m page) bm else bm)"
    unfolding mark_descriptor_def conventional_iff b_def e_def Let_def by simp
  note r = valid_descriptor_range [OF vd]
  obtain q where q: "unat (physical_start d) = 4096 * q" using r(1) by (auto elim: dvdE)
  have b: "unat (b div 4096) = max 0x100 q"
    by (simp add: b_def q unat_div word_less_nat_alt max_def)
  have e: "unat (e div 4096) = min 0x100000 (q + unat (number_of_pages d))"
    using r(4) by (simp add: e_def q unat_div word_less_nat_alt min_def)
  have "{unat (b div 4096)..<unat (e div 4096)} = desc_pages d"
    unfolding b e by (auto simp: desc_range_def desc_pages_def q)
  then show "map_wf (mark_descriptor d bm)"
    and "pages (mark_descriptor d bm) = pages bm \<union> (if conventional d then desc_pages d else {})"
    unfolding eq using pmap.fill_range [OF wf, of "e div 4096" "b div 4096"] e wf by simp_all
qed

lemma mark_usable_pages_spec:
  assumes "\<forall>i < desc_count info. valid_descriptor (descriptor m info (of_nat i))" and "map_wf bm"
  shows "map_wf (mark_usable_pages m info bm) \<and>
    pages (mark_usable_pages m info bm) = pages bm \<union> usable_pages m info"
proof -
  let ?d = "\<lambda>i. descriptor m info (of_nat i)"
  have "map_wf (fold (\<lambda>i. mark_descriptor (?d i)) ks bm) \<and>
      pages (fold (\<lambda>i. mark_descriptor (?d i)) ks bm) =
      pages bm \<union> (\<Union>i \<in> set ks. if conventional (?d i) then desc_pages (?d i) else {})"
    if "\<forall>i \<in> set ks. valid_descriptor (?d i)" for ks
    using that assms(2) by (induction ks arbitrary: bm) (auto simp: mark_descriptor_spec)
  from this [of "[0..<desc_count info]"] assms(1)
  have "map_wf (mark_usable_pages m info bm) \<and> pages (mark_usable_pages m info bm) =
      pages bm \<union> (\<Union>i < desc_count info. if conventional (?d i) then desc_pages (?d i) else {})"
    by (simp add: mark_usable_pages_def for_up_fold desc_count_def atLeast0LessThan)
  moreover have "(\<Union>i < desc_count info. if conventional (?d i) then desc_pages (?d i) else {}) =
      usable_pages m info"
    by (auto simp: usable_pages_def desc_pages_def split: if_splits)
  ultimately show ?thesis by simp
qed

lemma reserve_spec:
  assumes "valid_range base sz" and "map_wf bm"
  shows "map_wf (reserve base sz bm) \<and> pages (reserve base sz bm) = pages bm - touched base sz"
proof (cases "base \<ge> PMM_LIMIT")
  case True
  have "k \<notin> touched base sz" if "k \<in> pages bm" for k
    using pages_bound [OF that] True by (auto simp: touched_def word_le_nat_alt)
  with True assms(2) show ?thesis by (auto simp: reserve_def)
next
  case False
  define e where "e = (if base + sz > PMM_LIMIT then PMM_LIMIT else base + sz)"
  have sum: "unat (base + sz) = unat base + unat sz"
    using assms(1) by (simp add: valid_range_def le_max_minus_iff unat_add_no_wrap)
  have sz: "0 < unat sz" using assms(1) by (simp add: valid_range_def flip: unat_eq_0)
  have e: "unat e = min 0x100000000 (unat base + unat sz)"
    using sum by (simp add: e_def word_less_nat_alt min_def)
  then have hi: "unat ((e + 4095) div 4096) = (unat e + 4095) div 4096"
    by (simp add: unat_div unat_add_no_wrap)
  have "touched base sz \<inter> {..<0x100000} = {unat base div 4096..<(unat e + 4095) div 4096}"
    unfolding e touched_def using sz False by (auto simp: div_image_interval min_def)
  moreover have "pages bm \<subseteq> {..<0x100000}" using pages_bound by auto
  ultimately have "pages bm - touched base sz = pages bm - {unat base div 4096..<(unat e + 4095) div 4096}"
    by auto
  then show ?thesis
    using pmap.erase_range [OF assms(2), of "(e + 4095) div 4096" "base div 4096"] False e hi
    by (simp add: reserve_def Let_def e_def [symmetric] unat_div)
qed

lemma valid_boot_info_ranges:
  assumes "valid_boot_info m p"
  defines "info \<equiv> load_BOOT_INFO m p"
  shows "p \<noteq> 0" and "valid_range (kernel_base info) (kernel_size info)"
    and "valid_range p sizeof_BOOT_INFO"
    and "valid_range (memory_map info) (memory_map_size info)"
    and "valid_range (stack_base info) (stack_size info)"
  using assms by (auto simp: valid_boot_info_def Let_def split: if_splits)

lemma reserve_boot_regions_spec:
  assumes "valid_boot_info m p" and "map_wf bm"
  defines "info \<equiv> load_BOOT_INFO m p"
  shows "map_wf (reserve_boot_regions info p bm) \<and>
    pages (reserve_boot_regions info p bm) = pages bm - reserved_pages info p"
  using valid_boot_info_ranges [OF assms(1)] assms(2)
  by (simp add: reserve_boot_regions_def reserve_spec info_def reserved_pages_def Diff_eq Int_ac)

lemma pmm_init_accepts:
  "fst (pmm_init m p s) \<longleftrightarrow>
     \<not> ready s \<and> valid_boot_info m p \<and> valid_map_ranges m (load_BOOT_INFO m p)"
  by (simp add: pmm_init_def Let_def)

lemma pmm_init_rejects: "\<not> fst (pmm_init m p s) \<Longrightarrow> snd (pmm_init m p s) = s"
  by (auto simp: pmm_init_def Let_def split: if_splits)

lemma pmm_init_spec:
  assumes inv: "pmm_inv s" and ok: "pmm_init m p s = (True, s')"
  defines "info \<equiv> load_BOOT_INFO m p"
  shows "pages (eligible s') = usable_pages m info - reserved_pages info p"
    and "pages (allocated s') = {}" and "ready s'" and "pmm_inv s'"
    and "total_pages s' = free_pages s'"
proof -
  let ?elig = "reserve_boot_regions info p (mark_usable_pages m info (eligible s))"
  have acc: "\<not> ready s" "valid_boot_info m p" "valid_map_ranges m info"
    using pmm_init_accepts [of m p s] ok by (simp_all add: info_def)
  have e0: "pages (eligible s) = {}" "map_wf (eligible s)" "cursor s = 0" "total_pages s = 0"
    using inv acc(1) by (simp_all add: pmm_inv_def flip: unat_eq_0)
  have vd: "\<forall>i < desc_count info. valid_descriptor (descriptor m info (of_nat i))"
    using acc(3) by (simp add: valid_map_ranges_iff)
  note mark = mark_usable_pages_spec [OF vd e0(2)]
  note elig = reserve_boot_regions_spec [OF acc(2), of "mark_usable_pages m info (eligible s)",
      folded info_def]
  have pg: "map_wf ?elig" "pages ?elig = usable_pages m info - reserved_pages info p"
    using mark elig e0(1) by simp_all
  have s': "s' = s\<lparr>eligible := ?elig, total_pages := of_nat (card (pages ?elig)),
      free_pages := of_nat (card (pages ?elig)), ready := True\<rparr>"
    using ok acc e0 pmap.count_all [of PAGE_COUNT ?elig 0]
    by (simp add: pmm_init_def Let_def info_def)
  show "pages (eligible s') = usable_pages m info - reserved_pages info p" using s' pg by simp
  show al: "pages (allocated s') = {}" using s' inv e0(1) by (auto simp: pmm_inv_def)
  show "ready s'" "total_pages s' = free_pages s'" using s' by simp_all
  have "card (pages ?elig) \<le> card {..<(0x100000::nat)}"
    by (intro card_mono) (auto dest: pages_bound)
  then have "unat (of_nat (card (pages ?elig)) :: u64) = card (pages ?elig)"
    by (intro unat_of_nat64) simp
  moreover have "pages ?elig \<subseteq> {0x100..<0x100000}" unfolding pg by (auto simp: usable_pages_def)
  ultimately show "pmm_inv s'"
    using s' al pg(1) inv e0 by (simp add: pmm_inv_def free_set_def)
qed

lemma pmm_bss_inv: "pmm_inv pmm_bss"
proof -
  have "pages (replicate WORD_COUNT 0) = {}"
    by (auto simp: bit_elems_def map_bit_iff unat_of_nat64 less_mult_imp_div_less)
  then show ?thesis by (simp add: pmm_inv_def pmm_bss_def map_wf_def free_set_def)
qed


section \<open>Runs of the allocator\<close>

text \<open>
  Every sequence of calls of the public interface, with the ledger of the frames handed
  out and not taken back, as the callers see them from the returned values.
\<close>

inductive pmm_run :: "pmm \<Rightarrow> u64 set \<Rightarrow> bool" where
  run_start: "pmm_run pmm_bss {}"
| run_init: "pmm_run s H \<Longrightarrow> pmm_init m p s = (ok, s') \<Longrightarrow> pmm_run s' H"
| run_alloc: "pmm_run s H \<Longrightarrow> pmm_alloc nonnull s = (r, s') \<Longrightarrow> pmm_run s' (H \<union> set_option r)"
| run_free: "pmm_run s H \<Longrightarrow> pmm_free a s = (ok, s') \<Longrightarrow> pmm_run s' (if ok then H - {a} else H)"

lemma pmm_run_inv: "pmm_run s H \<Longrightarrow> pmm_inv s \<and> pmm_used s = H"
proof (induction rule: pmm_run.induct)
  case run_start
  show ?case using pmm_bss_inv pmm_inv_not_ready [OF pmm_bss_inv]
    by (simp add: pmm_used_def pmm_bss_def)
next
  case (run_init s H m p ok s')
  show ?case
  proof (cases ok)
    case True
    then have init: "pmm_init m p s = (True, s')" using run_init.hyps by simp
    have "pmm_used s = {}"
      using pmm_init_accepts [of m p s] init run_init.IH pmm_inv_not_ready [of s]
      by (simp add: pmm_used_def)
    then show ?thesis using pmm_init_spec [OF _ init] run_init.IH by (simp add: pmm_used_def)
  next
    case False
    then show ?thesis using pmm_init_rejects [of m p s] run_init by simp
  qed
next
  case (run_alloc s H nonnull r s')
  show ?case
  proof (cases nonnull)
    case True
    then show ?thesis
      using run_alloc pmm_fa.alloc_Some [of s _ s'] pmm_fa.alloc_None [of s s'] by (cases r) auto
  next
    case False
    then show ?thesis using run_alloc by (auto simp: pmm_alloc_def)
  qed
next
  case (run_free s H a ok s')
  then show ?case
    using pmm_fa.free_used [of s a ok s'] pmm_fa.free_unused [of s a] by (cases "a \<in> pmm_used s") auto
qed


section \<open>Properties\<close>

text \<open>A boot memory with one usable descriptor of 16 pages at 1 MiB, for the witnesses.\<close>

definition demo_info :: BOOT_INFO where
  "demo_info = \<lparr>magic = BOOT_INFO_MAGIC, version = 2, info_size = 88, memory_map = 0x11000,
     memory_map_size = 48, descriptor_size = 48, descriptor_version = 1, reserved = 0,
     kernel_base = 0x100000, kernel_size = 0x2000, stack_base = 0x104000, stack_size = 0x1000,
     info_flags = 1\<rparr>"

definition demo_descriptor :: BOOT_MEMORY_DESCRIPTOR where
  "demo_descriptor = \<lparr>dtype = 7, padding = 0, physical_start = 0x100000, virtual_start = 0,
     number_of_pages = 16, attributes = 8\<rparr>"

definition demo_memory :: memory where
  "demo_memory = store_DESCRIPTOR 0x11000 demo_descriptor (store_BOOT_INFO 0x10000 demo_info (\<lambda>_. 0))"

lemma demo_load:
  "load_BOOT_INFO demo_memory 0x10000 = demo_info"
  "load_DESCRIPTOR demo_memory 0x11000 = demo_descriptor"
proof -
  have "load_BOOT_INFO demo_memory 0x10000 = load_BOOT_INFO (store_BOOT_INFO 0x10000 demo_info (\<lambda>_. 0)) 0x10000"
    unfolding demo_memory_def store_DESCRIPTOR_def load_BOOT_INFO_def by (simp add: c_simps)
  then show "load_BOOT_INFO demo_memory 0x10000 = demo_info" by simp
  show "load_DESCRIPTOR demo_memory 0x11000 = demo_descriptor" by (simp add: demo_memory_def)
qed

lemma demo_accepted: "fst (pmm_init demo_memory 0x10000 pmm_bss)"
proof -
  have "valid_boot_info demo_memory 0x10000"
    by (simp add: valid_boot_info_def demo_load demo_info_def valid_range_def le_max_minus_iff)
  moreover have "desc_count demo_info = 1" "descriptor demo_memory demo_info 0 = demo_descriptor"
    using demo_load(2) by (simp_all add: desc_count_def descriptor_def demo_info_def)
  then have "valid_map_ranges demo_memory demo_info"
    by (simp add: valid_map_ranges_iff valid_descriptor_def demo_descriptor_def)
  ultimately show ?thesis by (simp add: pmm_init_accepts demo_load pmm_bss_def)
qed

text \<open>The allocator after booting from that memory manages thirteen pages.\<close>

definition demo_pmm :: pmm where
  "demo_pmm = snd (pmm_init demo_memory 0x10000 pmm_bss)"

lemma demo_pmm_init: "pmm_init demo_memory 0x10000 pmm_bss = (True, demo_pmm)"
  using demo_accepted by (simp add: demo_pmm_def prod_eq_iff)

lemma demo_pmm_inv: "pmm_inv demo_pmm"
  using pmm_init_spec(4) [OF pmm_bss_inv demo_pmm_init] .

lemma demo_pages: "pages (eligible demo_pmm) = {0x102, 0x103} \<union> {0x105..<0x110}"
proof -
  have "desc_count demo_info = 1" "descriptor demo_memory demo_info 0 = demo_descriptor"
    using demo_load(2) by (simp_all add: desc_count_def descriptor_def demo_info_def)
  then have "usable_pages demo_memory demo_info = {0x100..<0x110}"
    by (auto simp: usable_pages_def conventional_def desc_range_def demo_descriptor_def bit_numeral_rec)
  moreover have "reserved_pages demo_info 0x10000 = {0x100..<0x102} \<union> {0x10} \<union> {0x11} \<union> {0x104}"
    by (simp add: reserved_pages_def touched_eq demo_info_def) auto
  ultimately show ?thesis
    unfolding pmm_init_spec(1) [OF pmm_bss_inv demo_pmm_init] demo_load by auto
qed

lemma demo_free_set: "free_set demo_pmm = {0x102, 0x103} \<union> {0x105..<0x110}"
  using pmm_init_spec(2) [OF pmm_bss_inv demo_pmm_init] by (simp add: free_set_def demo_pages)

lemma demo_available: "unat (pmm_available demo_pmm) = 13"
proof -
  have "card (free_set demo_pmm) = 13" unfolding demo_free_set by (subst card_Un_disjoint) auto
  then show ?thesis using demo_pmm_inv by (simp add: pmm_available_def pmm_inv_def)
qed

lemma demo_avail: "pmm_avail demo_pmm \<noteq> {}" "Min (pmm_avail demo_pmm) = 0x102000"
proof -
  note free = demo_free_set
  show "pmm_avail demo_pmm \<noteq> {}" by (simp add: pmm_avail_def free)
  have "frame 0x102 = 0x102000" by (simp add: frame_def)
  show "Min (pmm_avail demo_pmm) = 0x102000"
  proof (rule Min_eqI)
    show "finite (pmm_avail demo_pmm)" by (simp add: pmm_avail_def)
    show "0x102000 \<in> pmm_avail demo_pmm" unfolding pmm_avail_def free \<open>frame 0x102 = 0x102000\<close> [symmetric] by blast
    fix a assume "a \<in> pmm_avail demo_pmm"
    then obtain k where "k \<in> free_set demo_pmm" "a = frame k" by (auto simp: pmm_avail_def)
    then show "0x102000 \<le> a" using frame_less [of "0x102" k] \<open>frame 0x102 = 0x102000\<close> free by auto
  qed
qed

text \<open>
  C14: \<open>pmm_init\<close> succeeds exactly when the allocator is not yet initialised, the boot
  information is well formed, every descriptor is page aligned, non-empty and does not
  run past the address space, and no two descriptors overlap; a rejected call leaves
  the allocator as it was.
\<close>

theorem pmm_init_validates:
  "pmm_init m p s = (ok, s') \<Longrightarrow>
     (ok \<longleftrightarrow> \<not> ready s \<and> valid_boot_info m p \<and>
        (\<forall>i < desc_count (load_BOOT_INFO m p).
           valid_descriptor (descriptor m (load_BOOT_INFO m p) (of_nat i))) \<and>
        (\<forall>i < desc_count (load_BOOT_INFO m p). \<forall>j < i.
           desc_range (descriptor m (load_BOOT_INFO m p) (of_nat i))
           \<inter> desc_range (descriptor m (load_BOOT_INFO m p) (of_nat j)) = {}))
     \<and> (\<not> ok \<longrightarrow> s' = s)"
  using pmm_init_accepts [of m p s] pmm_init_rejects [of m p s] by (simp add: valid_map_ranges_iff)

theorem pmm_init_validates_witness:
  "pmm_init demo_memory 0 pmm_bss = (False, pmm_bss)"
proof -
  obtain ok s' where r: "pmm_init demo_memory 0 pmm_bss = (ok, s')" by (cases "pmm_init demo_memory 0 pmm_bss")
  moreover have "\<not> valid_boot_info demo_memory 0" by (simp add: valid_boot_info_def Let_def)
  ultimately show ?thesis using pmm_init_validates [OF r] by simp
qed

text \<open>
  C10: After a successful \<open>pmm_init\<close> the managed pages are exactly the conventional,
  non-runtime pages of the memory map between 1 MiB and 4 GiB that no byte of the kernel
  image, the boot information, the memory map or the stack lies in; none is allocated,
  and both counters are the number of these pages.
\<close>

theorem pmm_init_manages_usable:
  assumes "pmm_inv s" and "pmm_init m p s = (True, s')"
  shows "pages (eligible s') = usable_pages m (load_BOOT_INFO m p) - reserved_pages (load_BOOT_INFO m p) p
    \<and> pages (allocated s') = {}
    \<and> unat (pmm_total s') = card (pages (eligible s')) \<and> pmm_available s' = pmm_total s'
    \<and> pmm_inv s'"
  using pmm_init_spec [OF assms] by (simp_all add: pmm_total_def pmm_available_def pmm_inv_def)

theorem pmm_init_manages_usable_witness:
  "pages (eligible (snd (pmm_init demo_memory 0x10000 pmm_bss))) =
     usable_pages demo_memory demo_info - reserved_pages demo_info 0x10000"
proof -
  have "pmm_init demo_memory 0x10000 pmm_bss = (True, snd (pmm_init demo_memory 0x10000 pmm_bss))"
    using demo_accepted by (simp add: prod_eq_iff)
  from pmm_init_manages_usable [OF pmm_bss_inv this] show ?thesis by (simp add: demo_load)
qed

text \<open>
  C11: Allocation is lowest-first. Although the code scans from a cursor, a call with a
  non-null pointer returns the lowest free page address when a page is free and fails,
  changing nothing, exactly when none is; the page moves from the free to the allocated
  ones and the free count drops by one.
\<close>

theorem pmm_alloc_lowest_free:
  assumes "pmm_inv s" and "pmm_alloc True s = (r, s')"
  shows "r = (if pmm_avail s = {} then None else Some (Min (pmm_avail s)))
    \<and> pmm_used s' = pmm_used s \<union> set_option r \<and> pmm_avail s' = pmm_avail s - set_option r
    \<and> (r = None \<longrightarrow> s' = s) \<and> (r \<noteq> None \<longrightarrow> pmm_available s' = pmm_available s - 1) \<and> pmm_inv s'"
proof (cases r)
  case None
  then show ?thesis using pmm_fa.alloc_None [of s s'] assms by simp
next
  case (Some a)
  then have al: "pmm_alloc True s = (Some a, s')" using assms(2) by simp
  have "pmm_available s' = pmm_available s - 1"
    using al by (auto simp: pmm_alloc_eq [OF assms(1)] pmm_available_def split: if_splits)
  then show ?thesis
    using Some pmm_fa.alloc_Some [OF assms(1) al] pmm_fa.alloc_Min [OF assms(1) al] by auto
qed

theorem pmm_alloc_lowest_free_witness: "fst (pmm_alloc True demo_pmm) = Some 0x102000"
proof -
  obtain r s' where r: "pmm_alloc True demo_pmm = (r, s')" by (cases "pmm_alloc True demo_pmm")
  have "pmm_avail demo_pmm \<noteq> {}" "Min (pmm_avail demo_pmm) = 0x102000" using demo_avail by simp_all
  then show ?thesis using pmm_alloc_lowest_free [OF demo_pmm_inv r] r by simp
qed

text \<open>
  C12: \<open>pmm_free\<close> succeeds exactly on the addresses that are allocated: unaligned, unmanaged,
  never allocated and already freed addresses are refused with the allocator unchanged;
  success returns the page to the free ones.
\<close>

theorem pmm_free_exact:
  assumes "pmm_inv s" and "pmm_free a s = (ok, s')"
  shows "(ok \<longleftrightarrow> a \<in> pmm_used s) \<and> (ok \<longleftrightarrow> pmm_is_allocated a s) \<and> (\<not> ok \<longrightarrow> s' = s)
    \<and> (ok \<longrightarrow> pmm_used s' = pmm_used s - {a} \<and> pmm_avail s' = insert a (pmm_avail s)
         \<and> fst (pmm_free a s') = False)
    \<and> pmm_inv s'"
proof (cases "a \<in> pmm_used s")
  case True
  then show ?thesis
    using pmm_fa.free_used [OF assms(1) True assms(2)] pmm_fa.free_unused [of s' a] assms(1)
    by (auto simp: pmm_is_allocated_iff)
next
  case False
  then show ?thesis using pmm_fa.free_unused [OF assms(1) False] assms by (simp add: pmm_is_allocated_iff)
qed

theorem pmm_free_exact_witness: "pmm_free 0x100000 pmm_bss = (False, pmm_bss)"
proof -
  obtain ok s' where r: "pmm_free 0x100000 pmm_bss = (ok, s')" by (cases "pmm_free 0x100000 pmm_bss")
  have "\<not> pmm_is_allocated 0x100000 pmm_bss" by (simp add: pmm_is_allocated_def pmm_bss_def)
  then show ?thesis using pmm_free_exact [OF pmm_bss_inv r] r by auto
qed

text \<open>
  C13: In every run of the public interface from the zeroed BSS, the frames marked
  allocated are exactly those the callers hold, so an allocation never returns a frame
  that is already held, and every frame handed out is page aligned and between 1 MiB and
  4 GiB.
\<close>

theorem pmm_run_no_double_allocation:
  assumes "pmm_run s H" and "pmm_alloc nonnull s = (Some a, s')"
  shows "pmm_used s = H \<and> a \<notin> H \<and> frame_addr a \<and> pmm_used s' = insert a H"
proof -
  have run: "pmm_inv s" "pmm_used s = H" using pmm_run_inv [OF assms(1)] by auto
  have "nonnull" using assms(2) by (auto simp: pmm_alloc_def split: if_splits)
  then have al: "pmm_alloc True s = (Some a, s')" using assms(2) by simp
  show ?thesis
    using pmm_fa.alloc_fresh [OF run(1) al] pmm_fa.alloc_Some [OF run(1) al] run by simp
qed

theorem pmm_run_no_double_allocation_witness:
  "\<exists>s'. pmm_run demo_pmm {} \<and> pmm_alloc True demo_pmm = (Some 0x102000, s')
     \<and> frame_addr 0x102000 \<and> pmm_used s' = {0x102000}"
proof -
  have run: "pmm_run demo_pmm {}" using pmm_run.run_init [OF pmm_run.run_start demo_pmm_init] .
  obtain s' where al: "pmm_alloc True demo_pmm = (Some 0x102000, s')"
    using demo_avail pmm_fa.alloc_succeeds [OF demo_pmm_inv] pmm_fa.alloc_Min [OF demo_pmm_inv] by metis
  from pmm_run_no_double_allocation [OF run al] show ?thesis using run al by auto
qed

text \<open>
  C15: Exactly as many allocations succeed in a row as pages are free: \<open>n\<close> calls return
  \<open>n\<close> distinct frames if and only if \<open>n\<close> is at most \<open>pmm_available\<close>, and freeing these
  frames again in the order of allocation restores the allocated and the free frames.
\<close>

theorem pmm_exhaustion_and_reuse:
  assumes "pmm_inv s"
  shows "(case alloc_many (pmm_alloc True) n s of
       None \<Rightarrow> unat (pmm_available s) < n
     | Some (as, s') \<Rightarrow> n \<le> unat (pmm_available s) \<and> length as = n \<and> distinct as
         \<and> set as \<subseteq> pmm_avail s
         \<and> (\<exists>s''. free_many pmm_free as s' = (True, s'') \<and> pmm_used s'' = pmm_used s
               \<and> pmm_avail s'' = pmm_avail s \<and> pmm_available s'' = pmm_available s))"
proof (cases "n \<le> unat (pmm_available s)")
  case True
  then have n: "n \<le> card (pmm_avail s)" by (simp add: card_pmm_avail assms)
  obtain as s' s'' where r: "alloc_many (pmm_alloc True) n s = Some (as, s')"
    "free_many pmm_free as s' = (True, s'')" "pmm_used s'' = pmm_used s" "pmm_avail s'' = pmm_avail s"
    "pmm_inv s''"
    using pmm_fa.alloc_free_many [OF assms n] by blast
  have "pmm_available s'' = pmm_available s"
    using card_pmm_avail [OF assms] card_pmm_avail [OF r(5)] r(4) by (simp add: word_unat_eq_iff)
  then show ?thesis using r True pmm_fa.alloc_many_ok [OF assms n] by auto
next
  case False
  then show ?thesis
    using pmm_fa.alloc_many_exhausted [OF assms, of n] by (simp add: card_pmm_avail assms)
qed

theorem pmm_exhaustion_and_reuse_witness:
  "alloc_many (pmm_alloc True) 14 demo_pmm = None \<and> alloc_many (pmm_alloc True) 13 demo_pmm \<noteq> None"
proof (intro conjI)
  show "alloc_many (pmm_alloc True) 14 demo_pmm = None"
    using pmm_exhaustion_and_reuse [OF demo_pmm_inv, of 14]
    by (cases "alloc_many (pmm_alloc True) 14 demo_pmm") (auto simp: demo_available)
  show "alloc_many (pmm_alloc True) 13 demo_pmm \<noteq> None"
    using pmm_exhaustion_and_reuse [OF demo_pmm_inv, of 13]
    by (cases "alloc_many (pmm_alloc True) 13 demo_pmm") (auto simp: demo_available)
qed

end
