(* ===== verification/PageMem.thy ===== *)
theory PageMem
  imports Prelude
begin

text \<open>
  A page viewed as the array \<open>uint64_t[512]\<close> that page tables and the RAM check use:
  \<open>table[i]\<close> at byte address \<open>table + 8 * i\<close>. The locale \<open>page_words\<close> states the
  array laws for distinct page-aligned arrays; its clients are loops that fill a page.
\<close>

definition get_entry :: "memory \<Rightarrow> u64 \<Rightarrow> u64 \<Rightarrow> u64" where
  "get_entry m t i = load64 m (t + 8 * i)"

definition set_entry :: "u64 \<Rightarrow> u64 \<Rightarrow> u64 \<Rightarrow> memory \<Rightarrow> memory" where
  "set_entry t i v m = store64 (t + 8 * i) v m"

locale page_words =
  fixes get :: "'m \<Rightarrow> u64 \<Rightarrow> u64 \<Rightarrow> u64"
    and put :: "u64 \<Rightarrow> u64 \<Rightarrow> u64 \<Rightarrow> 'm \<Rightarrow> 'm"
  assumes get_put_same: "get (put t i v m) t i = v"
    and get_put_other: "page_aligned t \<Longrightarrow> page_aligned t' \<Longrightarrow> i < 512 \<Longrightarrow> i' < 512 \<Longrightarrow>
      t \<noteq> t' \<or> i \<noteq> i' \<Longrightarrow> get (put t i v m) t' i' = get m t' i'"
begin

lemma get_put:
  "page_aligned t \<Longrightarrow> page_aligned t' \<Longrightarrow> i < 512 \<Longrightarrow> i' < 512 \<Longrightarrow>
   get (put t i v m) t' i' = (if t = t' \<and> i = i' then v else get m t' i')"
  using get_put_same get_put_other by auto

lemma fill_other:
  assumes "page_aligned t" and "page_aligned t'" and "i' < 512" and "t \<noteq> t'"
  shows "get (for_up 0 512 (\<lambda>j. put t j (f j)) m) t' i' = get m t' i'"
proof -
  have "get (fold (\<lambda>k. put t (of_nat k) (f (of_nat k))) ks m) t' i' = get m t' i'"
    if "\<forall>k \<in> set ks. k < 512" for ks
    using that
  proof (induction ks arbitrary: m)
    case (Cons k ks)
    then have "(of_nat k :: u64) < 512" by (simp add: word_less_nat_alt unat_of_nat64)
    with Cons assms show ?case by (simp add: get_put_other)
  qed simp
  then show ?thesis by (simp add: for_up_fold)
qed

lemma fill_same:
  assumes "page_aligned t" and "i < 512"
  shows "get (for_up 0 512 (\<lambda>j. put t j (f j)) m) t i = f i"
proof -
  have "get (fold (\<lambda>k. put t (of_nat k) (f (of_nat k))) [0..<n] m) t i = f i"
    if "unat i < n" "n \<le> 512" for n
    using that
  proof (induction n)
    case (Suc n)
    have n: "(of_nat n :: u64) < 512" "unat (of_nat n :: u64) = n"
      using Suc.prems by (simp_all add: word_less_nat_alt unat_of_nat64)
    show ?case
    proof (cases "unat i = n")
      case True
      then have "of_nat n = i" by auto
      then show ?thesis by (simp add: get_put_same)
    next
      case False
      then have "get (fold (\<lambda>k. put t (of_nat k) (f (of_nat k))) [0..<n] m) t i = f i"
        using Suc by simp
      moreover have "of_nat n \<noteq> i" using False n by auto
      ultimately show ?thesis using n assms by (simp add: get_put_other)
    qed
  qed simp
  from this [of 512] assms(2) show ?thesis by (simp add: for_up_fold word_less_nat_alt)
qed

end

lemma unat_entry_addr:
  fixes t :: u64
  assumes "page_aligned t" and "i < 512"
  shows "unat (t + 8 * i) = unat t + 8 * unat i"
proof -
  obtain q where q: "unat t = 4096 * q" using assms(1) by (rule page_alignedE)
  have i: "unat i < 512" using assms(2) by (simp add: word_less_nat_alt)
  have "4096 * q < 18446744073709551616" using q unat_lt64 [of t] by simp
  then have "unat t + 8 * unat i < 2 ^ 64" using q i by simp
  moreover have "unat (8 * i) = 8 * unat i" using i by (simp add: unat_mult_no_wrap)
  ultimately show ?thesis by (simp add: unat_add_no_wrap)
qed

lemma entry_addr_inj:
  fixes t :: u64
  assumes "page_aligned t" and "page_aligned t'" and "i < 512" and "i' < 512"
  shows "t + 8 * i = t' + 8 * i' \<longleftrightarrow> t = t' \<and> i = i'"
proof -
  obtain q where q: "unat t = 4096 * q" using assms(1) by (rule page_alignedE)
  obtain q' where q': "unat t' = 4096 * q'" using assms(2) by (rule page_alignedE)
  have i: "unat i < 512" "unat i' < 512" using assms(3,4) by (simp_all add: word_less_nat_alt)
  have "q = q'" if "4096 * q + 8 * unat i = 4096 * q' + 8 * unat i'"
    using arg_cong [OF that, of "\<lambda>x. x div 4096"] i by simp
  then have "4096 * q + 8 * unat i = 4096 * q' + 8 * unat i' \<longleftrightarrow> q = q' \<and> unat i = unat i'"
    by auto
  then show ?thesis
    using q q' unat_entry_addr [OF assms(1,3)] unat_entry_addr [OF assms(2,4)]
    by (simp add: word_unat_eq_iff)
qed

lemma entry_addr_aligned8:
  assumes "page_aligned t" and "i < 512"
  shows "aligned8 (t + 8 * i)"
proof -
  obtain q where "unat t = 4096 * q" using assms(1) by (rule page_alignedE)
  then have "unat (t + 8 * i) = 8 * (512 * q + unat i)" by (simp add: unat_entry_addr [OF assms])
  then show ?thesis by (simp add: aligned8_def)
qed

interpretation pw: page_words get_entry set_entry
proof
  fix m :: memory and t t' i i' v :: u64
  show "get_entry (set_entry t i v m) t i = v" by (simp add: get_entry_def set_entry_def)
  assume "page_aligned t" "page_aligned t'" "i < 512" "i' < 512" "t \<noteq> t' \<or> i \<noteq> i'"
  then show "get_entry (set_entry t i v m) t' i' = get_entry m t' i'"
    unfolding get_entry_def set_entry_def
    by (intro load64_store64_other) (auto simp: entry_addr_aligned8 entry_addr_inj)
qed

end
