(* ===== verification/X86.thy ===== *)
theory X86
  imports Prelude
begin

text \<open>
  The processor as \<open>include/x86.h\<close> presents it: one definition per inline function. The
  machine state holds the registers the kernel reads and writes, the physical memory, the
  translation cache and the history of port accesses. What a port read returns is decided
  by \<open>device\<close>, an arbitrary function of the accesses made so far: the devices on the other
  side of the ports are not part of the sources.
\<close>

datatype io_event = In u16 u8 | Out u16 u8

record X86_CPUID_RESULT =
  eax :: u32
  ebx :: u32
  ecx :: u32
  edx :: u32

text \<open>
  \<open>tlb p\<close> is the leaf entry the processor has cached for the page at \<open>p\<close>. The newest
  port access comes first in \<open>io\<close>.
\<close>

record machine =
  rsp :: u64
  rflags :: u64
  cr0 :: u64
  cr3 :: u64
  cr4 :: u64
  msr :: "u32 \<Rightarrow> u64"
  cpuid :: "u32 \<Rightarrow> u32 \<Rightarrow> X86_CPUID_RESULT"
  ram :: memory
  tlb :: "u64 \<Rightarrow> u64 option"
  io :: "io_event list"
  device :: "io_event list \<Rightarrow> u16 \<Rightarrow> u8"

definition x86_read_rsp :: "machine \<Rightarrow> u64" where
  "x86_read_rsp m = rsp m"

definition x86_read_rflags :: "machine \<Rightarrow> u64" where
  "x86_read_rflags m = rflags m"

definition x86_disable_interrupts :: "machine \<Rightarrow> machine" where
  "x86_disable_interrupts m = m\<lparr>rflags := rflags m AND NOT 0x200\<rparr>"

definition x86_enable_interrupts :: "machine \<Rightarrow> machine" where
  "x86_enable_interrupts m = m\<lparr>rflags := rflags m OR 0x200\<rparr>"

definition x86_irq_save :: "machine \<Rightarrow> u64 \<times> machine" where
  "x86_irq_save m = (let flags = x86_read_rflags m in (flags, x86_disable_interrupts m))"

definition x86_irq_restore :: "u64 \<Rightarrow> machine \<Rightarrow> machine" where
  "x86_irq_restore flags m = (if flags AND 0x200 \<noteq> 0 then x86_enable_interrupts m else m)"

definition x86_outb :: "u16 \<Rightarrow> u8 \<Rightarrow> machine \<Rightarrow> machine" where
  "x86_outb port v m = m\<lparr>io := Out port v # io m\<rparr>"

definition x86_inb :: "u16 \<Rightarrow> machine \<Rightarrow> u8 \<times> machine" where
  "x86_inb port m = (let v = device m (io m) port in (v, m\<lparr>io := In port v # io m\<rparr>))"

definition x86_cpuid :: "u32 \<Rightarrow> u32 \<Rightarrow> machine \<Rightarrow> X86_CPUID_RESULT" where
  "x86_cpuid leaf subleaf m = cpuid m leaf subleaf"

text \<open>\<open>rdmsr\<close> and \<open>wrmsr\<close> pass the 64-bit value in two 32-bit halves.\<close>

definition x86_read_msr :: "u32 \<Rightarrow> machine \<Rightarrow> u64" where
  "x86_read_msr index m =
     (let low = ucast (msr m index) :: u32; high = ucast (drop_bit 32 (msr m index)) :: u32 in
      push_bit 32 (ucast high) OR ucast low)"

definition x86_write_msr :: "u32 \<Rightarrow> u64 \<Rightarrow> machine \<Rightarrow> machine" where
  "x86_write_msr index v m =
     (let low = ucast v :: u32; high = ucast (drop_bit 32 v) :: u32 in
      m\<lparr>msr := (msr m)(index := push_bit 32 (ucast high) OR ucast low)\<rparr>)"

definition x86_read_cr0 :: "machine \<Rightarrow> u64" where
  "x86_read_cr0 m = cr0 m"

definition x86_write_cr0 :: "u64 \<Rightarrow> machine \<Rightarrow> machine" where
  "x86_write_cr0 v m = m\<lparr>cr0 := v\<rparr>"

definition x86_read_cr3 :: "machine \<Rightarrow> u64" where
  "x86_read_cr3 m = cr3 m"

text \<open>
  Loading CR3 drops the cached translations, except the global ones (bit 8 of the entry)
  while CR4.PGE (bit 7) is set.
\<close>

definition x86_write_cr3 :: "u64 \<Rightarrow> machine \<Rightarrow> machine" where
  "x86_write_cr3 v m = m\<lparr>cr3 := v, tlb := (\<lambda>p. case tlb m p of None \<Rightarrow> None
     | Some e \<Rightarrow> if bit e 8 \<and> bit (cr4 m) 7 then Some e else None)\<rparr>"

definition x86_read_cr4 :: "machine \<Rightarrow> u64" where
  "x86_read_cr4 m = cr4 m"

text \<open>Changing CR4.PGE drops every cached translation.\<close>

definition x86_write_cr4 :: "u64 \<Rightarrow> machine \<Rightarrow> machine" where
  "x86_write_cr4 v m =
     m\<lparr>cr4 := v, tlb := (if bit v 7 \<noteq> bit (cr4 m) 7 then (\<lambda>_. None) else tlb m)\<rparr>"

definition x86_invalidate_page :: "u64 \<Rightarrow> machine \<Rightarrow> machine" where
  "x86_invalidate_page address m = m\<lparr>tlb := (tlb m)(address AND NOT 4095 := None)\<rparr>"

lemma msr_halves: "push_bit 32 (ucast (ucast (drop_bit 32 v) :: u32)) OR ucast (ucast v :: u32) = (v :: u64)"
  by (rule bit_word_eqI) (auto simp: bit_simps)

lemma x86_read_msr_eq [simp]: "x86_read_msr index m = msr m index"
  by (simp add: x86_read_msr_def msr_halves)

lemma x86_write_msr_eq [simp]: "x86_write_msr index v m = m\<lparr>msr := (msr m)(index := v)\<rparr>"
  by (simp add: x86_write_msr_def msr_halves)

text \<open>
  A critical section \<open>flags = irq_save(); ...; irq_restore(flags)\<close> runs with interrupts
  disabled and gives back the interrupt flag it found, whatever else its body does.
\<close>

lemma irq_save_disables: "\<not> bit (rflags (snd (x86_irq_save m))) 9"
  by (simp add: x86_irq_save_def x86_disable_interrupts_def bit_simps)

lemma bit9_iff: "(flags :: u64) AND 0x200 \<noteq> 0 \<longleftrightarrow> bit flags 9"
  using and_exp_eq_0_iff_not_bit [of flags 9] by simp

lemma irq_restore_flag:
  assumes "\<not> bit (rflags m') 9" and "flags = fst (x86_irq_save m)"
  shows "bit (rflags (x86_irq_restore flags m')) 9 \<longleftrightarrow> bit (rflags m) 9"
  using assms
  by (auto simp: x86_irq_save_def x86_read_rflags_def x86_irq_restore_def x86_enable_interrupts_def
      bit9_iff bit_simps)

end
