(* ===== verification/Paging.thy ===== *)
theory Paging
  imports Pmm PageMem X86 "HOL-Library.Monad_Syntax"
begin

text \<open>
  The page-table manager of \<open>kernel/paging.c\<close>, statement by statement. The record
  \<open>paging\<close> has the static variables of the file together with the machine and the page
  allocator it works on; tables live in the physical memory of the machine. The linker
  symbols of \<open>kernel/layout.h\<close> come from the linker script and are the parameter
  \<open>layout\<close>. A C function returning \<open>bool\<close> is a function to \<open>bool\<close> and the new state.
\<close>

abbreviation (input) ADDRESS_MASK :: u64 where
  "ADDRESS_MASK \<equiv> 0x000ffffffffff000"

abbreviation (input) FLAGS :: u64 where
  "FLAGS \<equiv> 3"

abbreviation (input) MAX_TABLES :: u64 where
  "MAX_TABLES \<equiv> 4096"

abbreviation (input) NX :: u64 where
  "NX \<equiv> 0x8000000000000000"

abbreviation (input) PAGING_DYNAMIC_BASE :: u64 where
  "PAGING_DYNAMIC_BASE \<equiv> 0xffff800000000000"

abbreviation (input) PAGING_DYNAMIC_SIZE :: u64 where
  "PAGING_DYNAMIC_SIZE \<equiv> 0x8000000000"

abbreviation (input) PAGING_WRITE :: u32 where
  "PAGING_WRITE \<equiv> 1"

abbreviation (input) PAGING_EXEC :: u32 where
  "PAGING_EXEC \<equiv> 2"

record layout =
  kernel_text_start :: u64
  kernel_text_end :: u64
  kernel_rodata_start :: u64
  kernel_rodata_end :: u64
  double_fault_guard_low :: u64
  double_fault_guard_high :: u64

record paging =
  mach :: machine
  pm :: pmm
  table_pages :: "u64 list"
  paging_table_count :: u64
  paging_root :: u64
  paging_previous_cr3 :: u64
  active :: bool

definition paging_bss :: "machine \<Rightarrow> pmm \<Rightarrow> paging" where
  "paging_bss m p = \<lparr>mach = m, pm = p, table_pages = replicate 4096 0, paging_table_count = 0,
     paging_root = 0, paging_previous_cr3 = 0, active = False\<rparr>"

text \<open>\<open>table[index]\<close> as a value and as the target of an assignment.\<close>

definition rd :: "paging \<Rightarrow> u64 \<Rightarrow> u64 \<Rightarrow> u64" where
  "rd s table index = get_entry (ram (mach s)) table index"

definition wr :: "u64 \<Rightarrow> u64 \<Rightarrow> u64 \<Rightarrow> paging \<Rightarrow> paging" where
  "wr table index v s = s\<lparr>mach := (mach s)\<lparr>ram := set_entry table index v (ram (mach s))\<rparr>\<rparr>"

definition invalidate :: "u64 \<Rightarrow> paging \<Rightarrow> paging" where
  "invalidate address s = s\<lparr>mach := x86_invalidate_page address (mach s)\<rparr>"

definition pt_index :: "u64 \<Rightarrow> nat \<Rightarrow> u64" where
  "pt_index address shift = drop_bit shift address AND 511"


section \<open>Building the boot map\<close>

definition zero_table :: "u64 \<Rightarrow> paging \<Rightarrow> paging" where
  "zero_table address s =
     s\<lparr>mach := (mach s)\<lparr>ram := for_up 0 512 (\<lambda>i. set_entry address i 0) (ram (mach s))\<rparr>\<rparr>"

definition new_table :: "paging \<Rightarrow> u64 \<times> paging" where
  "new_table s =
     (if paging_table_count s = MAX_TABLES then (0, s)
      else case pmm_alloc True (pm s) of
        (None, p) \<Rightarrow> (0, s\<lparr>pm := p\<rparr>)
      | (Some address, p) \<Rightarrow>
          (address, zero_table address (s\<lparr>pm := p,
             table_pages := (table_pages s)[unat (paging_table_count s) := address],
             paging_table_count := paging_table_count s + 1\<rparr>)))"

text \<open>
  The loop \<open>for (shift = 39; shift > 12; shift -= 9)\<close> of \<open>map_page\<close>; \<open>None\<close> is its
  \<open>return false\<close>, \<open>Some table\<close> the table at loop exit.
\<close>

fun map_page_tables :: "u64 \<Rightarrow> nat \<Rightarrow> u64 \<Rightarrow> paging \<Rightarrow> u64 option \<times> paging" where
  "map_page_tables address shift table s =
     (if shift > 12 then
        let index = pt_index address shift;
            (ok, s) = (if rd s table index AND 1 = 0 then
                let (child, s) = new_table s in
                if child = 0 then (False, s) else (True, wr table index (child OR FLAGS) s)
              else (True, s)) in
        if \<not> ok then (None, s)
        else map_page_tables address (shift - 9) (rd s table index AND ADDRESS_MASK) s
      else (Some table, s))"

definition page_flags :: "layout \<Rightarrow> u64 \<Rightarrow> u64" where
  "page_flags L address =
     (if address \<ge> kernel_text_start L \<and> address < kernel_text_end L then 1
      else if address \<ge> kernel_rodata_start L \<and> address < kernel_rodata_end L then 1 OR NX
      else FLAGS OR NX)"

definition map_page :: "layout \<Rightarrow> u64 \<Rightarrow> paging \<Rightarrow> bool \<times> paging" where
  "map_page L address s =
     (case map_page_tables address 39 (paging_root s) s of
        (None, s) \<Rightarrow> (False, s)
      | (Some table, s) \<Rightarrow>
          (True, wr table (pt_index address 12) (address OR page_flags L address) s))"

text \<open>
  \<open>for (page = begin; page < end; page += 4096)\<close> with a body that may return. Both loops of
  this kind have \<open>end <= PMM_LIMIT\<close> by the statements before them, so the counter does not
  wrap; the second conjunct of the condition makes this bound part of the recursion.
\<close>

function for_pages :: "u64 \<Rightarrow> u64 \<Rightarrow> (u64 \<Rightarrow> 's \<Rightarrow> 'r + 's) \<Rightarrow> 's \<Rightarrow> 'r + 's" where
  "for_pages page e body s =
     (if page < e \<and> e \<le> PMM_LIMIT then
        case body page s of Inl r \<Rightarrow> Inl r | Inr s' \<Rightarrow> for_pages (page + 4096) e body s'
      else Inr s)"
  by pat_completeness auto
termination
proof (relation "measure (\<lambda>(page, e, body, s). unat e - unat page)")
  fix page e :: u64 and body :: "u64 \<Rightarrow> 's \<Rightarrow> 'r + 's" and s s' :: 's
  assume "page < e \<and> e \<le> PMM_LIMIT"
  then have "unat page < unat e" "unat e \<le> 0x100000000"
    by (simp_all add: word_less_nat_alt word_le_nat_alt)
  moreover from this have "unat (page + 4096) = unat page + 4096" by (simp add: unat_add_no_wrap)
  ultimately show "((page + 4096, e, body, s'), page, e, body, s) \<in>
      measure (\<lambda>(page, e, body, s). unat e - unat page)" by simp
qed simp

declare for_pages.simps [simp del]

text \<open>The walk of \<open>mapped_range\<close> for one page; it stops at \<open>shift == 12\<close>.\<close>

fun identity_leaf :: "paging \<Rightarrow> u64 \<Rightarrow> nat \<Rightarrow> u64 \<Rightarrow> bool" where
  "identity_leaf s page shift table =
     (let entry = rd s table (pt_index page shift) in
      if entry AND 1 = 0 then False
      else if shift \<le> 12 then entry AND ADDRESS_MASK = page
      else identity_leaf s page (shift - 9) (entry AND ADDRESS_MASK))"

definition mapped_range :: "paging \<Rightarrow> u64 \<Rightarrow> u64 \<Rightarrow> bool" where
  "mapped_range s base sz =
     (if sz = 0 \<or> base < 0x100000 \<or> base \<ge> PMM_LIMIT \<or> sz > PMM_LIMIT - base then False
      else case for_pages (base AND NOT 4095) (base + sz) (\<lambda>page _.
          if identity_leaf s page 39 (paging_root s) then Inr () else Inl False) () of
        Inl r \<Rightarrow> r | Inr _ \<Rightarrow> True)"

definition supported_cpu_state :: "u64 \<Rightarrow> machine \<Rightarrow> bool" where
  "supported_cpu_state cr4_value m =
     (let flags = x86_read_rflags m in
      if cr4_value AND (push_bit 12 1 OR push_bit 17 1) \<noteq> 0 \<or> flags AND 0x200 \<noteq> 0 then False
      else if x86_read_msr 0x277 m AND 255 \<noteq> 6 then False
      else if eax (x86_cpuid 0x80000000 0 m) < 0x80000001 then False
      else if edx (x86_cpuid 0x80000001 0 m) AND push_bit 20 1 = 0 then False
      else True)"

text \<open>The body of the descriptor loop of \<open>map_boot_ram\<close>.\<close>

definition map_descriptor ::
  "layout \<Rightarrow> BOOT_MEMORY_DESCRIPTOR \<Rightarrow> paging \<Rightarrow> (bool \<times> paging) + paging" where
  "map_descriptor L d s =
     (if (dtype d \<noteq> 1 \<and> dtype d \<noteq> 2 \<and> dtype d \<noteq> 7) \<or> attributes d AND push_bit 63 1 \<noteq> 0 then Inr s
      else let begin = physical_start d; e = begin + number_of_pages d * 4096;
               begin = (if begin < 0x100000 then 0x100000 else begin);
               e = (if e > PMM_LIMIT then PMM_LIMIT else e) in
        if begin \<ge> e then Inr s
        else if attributes d AND 8 = 0 then Inl (False, s)
        else for_pages begin e (\<lambda>page s.
          case map_page L page s of (True, s) \<Rightarrow> Inr s | (False, s) \<Rightarrow> Inl (False, s)) s)"

text \<open>
  The loop \<open>for (offset = 0; offset < size; offset += descriptor_size)\<close> need not end for an
  arbitrary descriptor size, so not returning is \<open>None\<close>.
\<close>

partial_function (option) map_boot_ram_from ::
  "layout \<Rightarrow> u64 \<Rightarrow> u64 \<Rightarrow> paging \<Rightarrow> (bool \<times> paging) option" where
  "map_boot_ram_from L info offset s =
     (let b = load_BOOT_INFO (ram (mach s)) info in
      if offset < memory_map_size b then
        case map_descriptor L (load_DESCRIPTOR (ram (mach s)) (memory_map b + offset)) s of
          Inl r \<Rightarrow> Some r
        | Inr s' \<Rightarrow> map_boot_ram_from L info
            (offset + descriptor_size (load_BOOT_INFO (ram (mach s')) info)) s'
      else Some (True, s))"

definition map_boot_ram :: "layout \<Rightarrow> u64 \<Rightarrow> paging \<Rightarrow> (bool \<times> paging) option" where
  "map_boot_ram L info s = map_boot_ram_from L info 0 s"

definition required_regions_mapped :: "u64 \<Rightarrow> paging \<Rightarrow> bool" where
  "required_regions_mapped info s =
     (let b = load_BOOT_INFO (ram (mach s)) info in
      if \<not> mapped_range s (kernel_base b) (kernel_size b) then False
      else if \<not> mapped_range s (stack_base b) (stack_size b) then False
      else if \<not> mapped_range s info sizeof_BOOT_INFO then False
      else if \<not> mapped_range s (memory_map b) (memory_map_size b) then False
      else case for_ret 0 (paging_table_count s) (\<lambda>i _.
          if \<not> mapped_range s (table_pages s ! unat i) 4096 then Inl False else Inr ()) () of
        Inl r \<Rightarrow> r | Inr _ \<Rightarrow> True)"

text \<open>\<open>unmap_stack_guards\<close>: the walk to the last table, then the loop over \<open>guards\<close>.\<close>

fun guard_table :: "paging \<Rightarrow> u64 \<Rightarrow> nat \<Rightarrow> u64 \<Rightarrow> u64" where
  "guard_table s g shift table =
     (if shift > 12
      then guard_table s g (shift - 9) (rd s table (pt_index g shift) AND ADDRESS_MASK)
      else table)"

primrec unmap_guards :: "u64 list \<Rightarrow> paging \<Rightarrow> bool \<times> paging" where
  "unmap_guards [] s = (True, s)"
| "unmap_guards (g # gs) s =
     (if \<not> mapped_range s g 4096 then (False, s)
      else unmap_guards gs (wr (guard_table s g 39 (paging_root s)) (pt_index g 12) 0 s))"

definition unmap_stack_guards :: "layout \<Rightarrow> u64 \<Rightarrow> paging \<Rightarrow> bool \<times> paging" where
  "unmap_stack_guards L info s =
     (let b = load_BOOT_INFO (ram (mach s)) info in
      unmap_guards [stack_base b - 4096, stack_base b + stack_size b,
        double_fault_guard_low L, double_fault_guard_high L] s)"

definition activate_page_tables :: "u64 \<Rightarrow> paging \<Rightarrow> paging" where
  "activate_page_tables cr4_value s =
     (let m = mach s;
          previous = x86_read_cr3 m;
          m = x86_write_msr 0xc0000080 (x86_read_msr 0xc0000080 m OR push_bit 11 1) m;
          m = x86_write_cr0 (x86_read_cr0 m OR push_bit 16 1) m;
          no_global = cr4_value AND NOT 0x80;
          m = x86_write_cr4 no_global m;
          m = x86_write_cr3 (paging_root s) m;
          m = x86_write_cr4 cr4_value m in
      s\<lparr>mach := m, paging_previous_cr3 := previous, active := True\<rparr>)"

text \<open>\<open>while (paging_table_count) pmm_free(table_pages[--paging_table_count])\<close>\<close>

function free_tables :: "paging \<Rightarrow> paging" where
  "free_tables s =
     (if paging_table_count s \<noteq> 0 then
        let count = paging_table_count s - 1 in
        free_tables (s\<lparr>paging_table_count := count,
          pm := snd (pmm_free (table_pages s ! unat count) (pm s))\<rparr>)
      else s)"
  by pat_completeness auto
termination
  by (relation "measure (\<lambda>s. unat (paging_table_count s))")
    (auto simp: unat_gt_0 intro!: measure_unat)

declare free_tables.simps [simp del]

definition discard_page_tables :: "paging \<Rightarrow> paging" where
  "discard_page_tables s = (free_tables s)\<lparr>paging_root := 0\<rparr>"

definition paging_init :: "layout \<Rightarrow> u64 \<Rightarrow> paging \<Rightarrow> (bool \<times> paging) option" where
  "paging_init L info s =
     (if active s \<or> info = 0 \<or> pmm_total (pm s) = 0 then Some (False, s)
      else let cr4_value = x86_read_cr4 (mach s) in
        if \<not> supported_cpu_state cr4_value (mach s) then Some (False, s)
        else let (root, s) = new_table s; s = s\<lparr>paging_root := root\<rparr> in
          if root = 0 then Some (False, s)
          else do {
            (ok, s) \<leftarrow> map_boot_ram L info s;
            if \<not> ok then Some (False, discard_page_tables s)
            else if \<not> required_regions_mapped info s then Some (False, discard_page_tables s)
            else let (ok, s) = unmap_stack_guards L info s in
              if \<not> ok then Some (False, discard_page_tables s)
              else Some (True, activate_page_tables cr4_value s)
          })"


section \<open>The dynamic window\<close>

definition dynamic_address :: "u64 \<Rightarrow> paging \<Rightarrow> bool" where
  "dynamic_address address s =
     (let flags = x86_read_rflags (mach s) in
      active s \<and> flags AND 0x200 = 0 \<and> address AND 4095 = 0
      \<and> address \<ge> PAGING_DYNAMIC_BASE \<and> address - PAGING_DYNAMIC_BASE < PAGING_DYNAMIC_SIZE)"

definition release_table :: "u64 \<Rightarrow> paging \<Rightarrow> paging" where
  "release_table address s =
     (case for_ret 0 (paging_table_count s) (\<lambda>i s.
        if table_pages s ! unat i \<noteq> address then Inr s
        else let count = paging_table_count s - 1 in
          Inl (s\<lparr>paging_table_count := count,
            table_pages := (table_pages s)[unat i := table_pages s ! unat count],
            pm := snd (pmm_free address (pm s))\<rparr>)) s of
       Inl s' \<Rightarrow> s' | Inr s' \<Rightarrow> s')"

definition leaf_flags :: "u32 \<Rightarrow> u64" where
  "leaf_flags flags = 1 OR (if flags AND PAGING_WRITE \<noteq> 0 then 2 else 0)
     OR (if flags AND PAGING_EXEC \<noteq> 0 then 0 else NX)"

text \<open>\<open>path\<close>: \<open>Some (tables, indices)\<close> when the C function returns true.\<close>

function path_from ::
  "paging \<Rightarrow> u64 \<Rightarrow> nat \<Rightarrow> u64 list \<Rightarrow> u64 list \<Rightarrow> (u64 list \<times> u64 list) option" where
  "path_from s address level tables indices =
     (if level < 4 then
        let index = pt_index address (39 - level * 9);
            entry = rd s (tables ! level) index in
        if entry AND 1 = 0 then None
        else path_from s address (level + 1)
          (if level < 3 then tables @ [entry AND ADDRESS_MASK] else tables) (indices @ [index])
      else Some (tables, indices))"
  by pat_completeness auto
termination
  by (relation "measure (\<lambda>(s, address, level, tables, indices). 4 - level)") auto

declare path_from.simps [simp del]

definition path :: "u64 \<Rightarrow> paging \<Rightarrow> (u64 list \<times> u64 list) option" where
  "path address s = path_from s address 0 [paging_root s] []"

text \<open>
  \<open>paging_map\<close>: the pairs of \<open>links[]\<close> and \<open>created[]\<close> are a stack, newest first; a link
  is the table and index of the entry it points to.
\<close>

primrec undo_links :: "u64 \<Rightarrow> ((u64 \<times> u64) \<times> u64) list \<Rightarrow> paging \<Rightarrow> paging" where
  "undo_links address [] s = s"
| "undo_links address (lc # rest) s =
     (case lc of ((table, index), created) \<Rightarrow>
        undo_links address rest
          (release_table created (invalidate address (wr table index 0 s))))"

fun map_tables ::
  "u64 \<Rightarrow> nat \<Rightarrow> u64 \<Rightarrow> ((u64 \<times> u64) \<times> u64) list \<Rightarrow> paging \<Rightarrow> u64 option \<times> paging" where
  "map_tables address shift table made s =
     (if shift > 12 then
        let index = pt_index address shift in
        if rd s table index AND 1 = 0 then
          let (child, s) = new_table s in
          if child = 0 then (None, undo_links address made s)
          else let s = wr table index (child OR FLAGS) s in
            map_tables address (shift - 9) (rd s table index AND ADDRESS_MASK)
              (((table, index), child) # made) s
        else map_tables address (shift - 9) (rd s table index AND ADDRESS_MASK) made s
      else (Some table, s))"

definition paging_map :: "u64 \<Rightarrow> u64 \<Rightarrow> u32 \<Rightarrow> paging \<Rightarrow> bool \<times> paging" where
  "paging_map address physical flags s =
     (if \<not> dynamic_address address s \<or> flags AND NOT (PAGING_WRITE OR PAGING_EXEC) \<noteq> 0
         \<or> \<not> pmm_is_allocated physical (pm s) then (False, s)
      else case for_ret 0 (paging_table_count s) (\<lambda>i _.
          if table_pages s ! unat i = physical then Inl False else Inr ()) () of
        Inl r \<Rightarrow> (r, s)
      | Inr _ \<Rightarrow>
          (case map_tables address 39 (paging_root s) [] s of
             (None, s) \<Rightarrow> (False, s)
           | (Some table, s) \<Rightarrow>
               let index = pt_index address 12 in
               if rd s table index AND 1 \<noteq> 0 then (False, s)
               else (True, invalidate address (wr table index (physical OR leaf_flags flags) s))))"

text \<open>The release loop of \<open>paging_unmap\<close>, for \<open>level = 3, 2, 1\<close>.\<close>

primrec prune :: "u64 \<Rightarrow> u64 list \<Rightarrow> u64 list \<Rightarrow> nat \<Rightarrow> paging \<Rightarrow> paging" where
  "prune address tables indices 0 s = s"
| "prune address tables indices (Suc k) s =
     (case for_ret 0 512 (\<lambda>i _. if rd s (tables ! Suc k) i \<noteq> 0 then Inl True else Inr ()) () of
        Inl _ \<Rightarrow> s
      | Inr _ \<Rightarrow> prune address tables indices k
          (release_table (tables ! Suc k)
            (invalidate address (wr (tables ! k) (indices ! k) 0 s))))"

definition paging_unmap :: "u64 \<Rightarrow> paging \<Rightarrow> bool \<times> paging" where
  "paging_unmap address s =
     (if \<not> dynamic_address address s then (False, s)
      else case path address s of
        None \<Rightarrow> (False, s)
      | Some (tables, indices) \<Rightarrow>
          (True, prune address tables indices 3
             (invalidate address (wr (tables ! 3) (indices ! 3) 0 s))))"

definition paging_protect :: "u64 \<Rightarrow> u32 \<Rightarrow> paging \<Rightarrow> bool \<times> paging" where
  "paging_protect address flags s =
     (if \<not> dynamic_address address s \<or> flags AND NOT (PAGING_WRITE OR PAGING_EXEC) \<noteq> 0
      then (False, s)
      else case path address s of
        None \<Rightarrow> (False, s)
      | Some (tables, indices) \<Rightarrow>
          (True, invalidate address
             (wr (tables ! 3) (indices ! 3)
               ((rd s (tables ! 3) (indices ! 3) AND ADDRESS_MASK) OR leaf_flags flags) s)))"

text \<open>
  \<open>paging_query\<close> takes whether its out pointers are non-null and yields the values it
  writes, or \<open>None\<close> when it returns false and writes nothing.
\<close>

definition paging_query :: "u64 \<Rightarrow> bool \<Rightarrow> bool \<Rightarrow> paging \<Rightarrow> (u64 \<times> u32) option" where
  "paging_query address physical_nonnull flags_nonnull s =
     (if \<not> dynamic_address address s \<or> \<not> physical_nonnull \<or> \<not> flags_nonnull then None
      else case path address s of
        None \<Rightarrow> None
      | Some (tables, indices) \<Rightarrow>
          let entry = rd s (tables ! 3) (indices ! 3) in
          Some (entry AND ADDRESS_MASK,
            (if entry AND 2 \<noteq> 0 then PAGING_WRITE else 0)
              OR (if entry AND NX \<noteq> 0 then 0 else PAGING_EXEC)))"

declare map_page_tables.simps [simp del] identity_leaf.simps [simp del] guard_table.simps [simp del]
  map_tables.simps [simp del]

end
