(* ===== verification/PageTree.thy ===== *)
theory PageTree
  imports Paging
begin

text \<open>
  What the page tables in memory mean. A set of tables is described by a tree: a partial
  map from index paths (at most three indices from the root) to table addresses. The
  predicate \<open>page_tree\<close> says that memory holds exactly this tree; the lemmas say what
  linking a fresh table, unlinking an empty one and writing a leaf entry do to it.

  \<open>pte\<close> is the leaf entry reached by the four-level walk and \<open>translate\<close> the walk as the
  processor performs it, with the access rights of all four levels combined.
\<close>

type_synonym page_path = "u64 list"
type_synonym table_tree = "page_path \<rightharpoonup> u64"

abbreviation present :: "u64 \<Rightarrow> bool" where
  "present e \<equiv> e AND 1 \<noteq> 0"

definition next_table :: "memory \<Rightarrow> u64 \<Rightarrow> u64 \<Rightarrow> u64 option" where
  "next_table m t i = (let e = get_entry m t i in if present e then Some (e AND ADDRESS_MASK) else None)"

definition pte :: "memory \<Rightarrow> u64 \<Rightarrow> u64 \<Rightarrow> u64" where
  "pte m root v =
     (case next_table m root (pt_index v 39) of None \<Rightarrow> 0 | Some t1 \<Rightarrow>
      case next_table m t1 (pt_index v 30) of None \<Rightarrow> 0 | Some t2 \<Rightarrow>
      case next_table m t2 (pt_index v 21) of None \<Rightarrow> 0 | Some t3 \<Rightarrow>
      get_entry m t3 (pt_index v 12))"

record mapping =
  frame_of :: u64
  writable :: bool
  executable :: bool

text \<open>
  The processor's walk: the page frame, writable when every level has the R/W bit,
  executable when no level has the XD bit.
\<close>

fun hw_walk :: "memory \<Rightarrow> u64 \<Rightarrow> u64 list \<Rightarrow> bool \<Rightarrow> bool \<Rightarrow> mapping option" where
  "hw_walk m t [] w x = Some \<lparr>frame_of = t, writable = w, executable = x\<rparr>"
| "hw_walk m t (i # rest) w x =
     (let e = get_entry m t i in
      if present e then hw_walk m (e AND ADDRESS_MASK) rest (w \<and> bit e 1) (x \<and> \<not> bit e 63)
      else None)"

definition translate :: "memory \<Rightarrow> u64 \<Rightarrow> u64 \<Rightarrow> mapping option" where
  "translate m root v =
     hw_walk m root [pt_index v 39, pt_index v 30, pt_index v 21, pt_index v 12] True True"

definition decode :: "u64 \<Rightarrow> mapping option" where
  "decode e = (if present e
     then Some \<lparr>frame_of = e AND ADDRESS_MASK, writable = bit e 1, executable = \<not> bit e 63\<rparr>
     else None)"


section \<open>Entries and indices\<close>

lemma and_1_iff: "(e :: u64) AND 1 \<noteq> 0 \<longleftrightarrow> bit e 0"
  using and_exp_eq_0_iff_not_bit [of e 0] by simp

lemma pt_index_less [simp]: "pt_index v shift < 512"
proof -
  have "pt_index v shift \<le> 511" by (simp add: pt_index_def word_and_le1)
  then show ?thesis by (simp add: word_less_nat_alt word_le_nat_alt)
qed

lemma mask_bit_iff: "bit (ADDRESS_MASK :: u64) k \<longleftrightarrow> 12 \<le> k \<and> k < 52"
proof -
  have eq: "ADDRESS_MASK = (mask 52 AND NOT (mask 12) :: u64)" by (simp add: mask_eq_exp_minus_1)
  show ?thesis by (simp only: eq) (auto simp: bit_simps)
qed

lemma page_aligned_bit: "page_aligned c \<Longrightarrow> bit c k \<Longrightarrow> 12 \<le> k"
proof (rule ccontr)
  assume "page_aligned c" "bit c k" "\<not> 12 \<le> k"
  then have "take_bit 12 c = 0" by (simp add: page_aligned_def take_bit_eq_mod)
  with \<open>bit c k\<close> \<open>\<not> 12 \<le> k\<close> show False using bit_take_bit_iff [of 12 c k] by simp
qed

definition table_addr :: "u64 \<Rightarrow> bool" where
  "table_addr c \<longleftrightarrow> page_aligned c \<and> c \<noteq> 0 \<and> c < 0x10000000000000"

lemma table_addr_bit: "table_addr c \<Longrightarrow> bit c k \<Longrightarrow> 12 \<le> k \<and> k < 52"
proof -
  assume c: "table_addr c" "bit c k"
  then have "unat c < 2 ^ 52" by (simp add: table_addr_def word_less_nat_alt)
  then have "c = take_bit 52 c" by (simp add: take_bit_eq_mod word_unat_eq_iff unat_mod)
  then have "k < 52" using c(2) by (metis bit_take_bit_iff)
  then show ?thesis using page_aligned_bit [of c k] c by (simp add: table_addr_def)
qed

lemma bit3_iff: "bit (3 :: u64) k \<longleftrightarrow> k = 0 \<or> k = 1"
  using bit_mask_iff [of 2 k, where ?'a = u64] by (auto simp: mask_eq_exp_minus_1)

text \<open>A frame address combined with flag bits can be taken apart again.\<close>

lemma entry_address:
  assumes "table_addr c" and "fl AND ADDRESS_MASK = 0"
  shows "(c OR fl) AND ADDRESS_MASK = c"
proof -
  have "bit (c AND ADDRESS_MASK) k \<longleftrightarrow> bit c k" for k
    using table_addr_bit [OF assms(1), of k] mask_bit_iff [of k] by (auto simp only: bit_and_iff)
  then have "c AND ADDRESS_MASK = c" by (intro bit_word_eqI) blast
  then show ?thesis using assms(2) by (simp add: word_ao_dist)
qed

lemma entry_bit:
  assumes "table_addr c" and "k < 12 \<or> 52 \<le> k"
  shows "bit (c OR fl) k \<longleftrightarrow> bit fl k"
  using table_addr_bit [OF assms(1), of k] assms(2) by (auto simp: bit_simps)

lemma link_address [simp]: "table_addr c \<Longrightarrow> (c OR 3) AND ADDRESS_MASK = c"
  by (rule entry_address) simp_all

lemma link_present [simp]: "(c OR 3) AND 1 \<noteq> (0 :: u64)"
  by (simp add: and_1_iff bit_simps bit3_iff)

lemma link_writable [simp]: "bit (c OR 3 :: u64) (Suc 0)"
  by (simp add: bit_simps bit3_iff)

lemma link_executable [simp]: "table_addr c \<Longrightarrow> \<not> bit (c OR 3) 63"
  by (subst entry_bit) (simp_all add: bit3_iff)

lemma table_addr_page_aligned [simp]: "table_addr c \<Longrightarrow> page_aligned c"
  by (simp add: table_addr_def)


section \<open>Trees\<close>

definition tree_shape :: "u64 \<Rightarrow> u64 set \<Rightarrow> table_tree \<Rightarrow> bool" where
  "tree_shape root T f \<longleftrightarrow> f [] = Some root \<and> inj_on f (dom f) \<and> ran f = T
     \<and> (\<forall>p i. p @ [i] \<in> dom f \<longrightarrow> p \<in> dom f \<and> i < 512 \<and> length p < 3)
     \<and> (\<forall>t \<in> T. table_addr t)"

text \<open>
  An inner entry is empty or links the child with present and writable set; a leaf entry
  is empty or present.
\<close>

definition tree_mem :: "memory \<Rightarrow> table_tree \<Rightarrow> bool" where
  "tree_mem m f \<longleftrightarrow> (\<forall>p t i. f p = Some t \<longrightarrow> i < 512 \<longrightarrow>
     (if length p < 3 then get_entry m t i = (case f (p @ [i]) of None \<Rightarrow> 0 | Some c \<Rightarrow> c OR 3)
      else get_entry m t i = 0 \<or> present (get_entry m t i)))"

definition page_tree :: "memory \<Rightarrow> u64 \<Rightarrow> u64 set \<Rightarrow> table_tree \<Rightarrow> bool" where
  "page_tree m root T f \<longleftrightarrow> tree_shape root T f \<and> tree_mem m f"

definition inner_path :: "u64 \<Rightarrow> page_path" where
  "inner_path v = [pt_index v 39, pt_index v 30, pt_index v 21]"

definition leaf_at :: "memory \<Rightarrow> table_tree \<Rightarrow> page_path \<Rightarrow> u64 \<Rightarrow> u64" where
  "leaf_at m f q j = (case f q of None \<Rightarrow> 0 | Some t \<Rightarrow> get_entry m t j)"

definition leaf :: "memory \<Rightarrow> table_tree \<Rightarrow> u64 \<Rightarrow> u64" where
  "leaf m f v = leaf_at m f (inner_path v) (pt_index v 12)"

definition same_leaves :: "memory \<Rightarrow> table_tree \<Rightarrow> memory \<Rightarrow> table_tree \<Rightarrow> bool" where
  "same_leaves m f m' f' \<longleftrightarrow> (\<forall>q j. length q = 3 \<longrightarrow> j < 512 \<longrightarrow> leaf_at m' f' q j = leaf_at m f q j)"

lemma length_inner_path [simp]: "length (inner_path v) = 3"
  by (simp add: inner_path_def)

lemma same_leaves_refl [simp]: "same_leaves m f m f"
  by (simp add: same_leaves_def)

lemma same_leaves_trans: "same_leaves m f m1 f1 \<Longrightarrow> same_leaves m1 f1 m2 f2 \<Longrightarrow> same_leaves m f m2 f2"
  by (simp add: same_leaves_def)

lemma same_leaves_leaf: "same_leaves m f m' f' \<Longrightarrow> leaf m' f' v = leaf m f v"
  by (simp add: same_leaves_def leaf_def)

lemma page_tree_addr: "page_tree m root T f \<Longrightarrow> f p = Some t \<Longrightarrow> table_addr t \<and> t \<in> T"
  by (auto simp: page_tree_def tree_shape_def ran_def)

lemma page_tree_aligned: "page_tree m root T f \<Longrightarrow> f p = Some t \<Longrightarrow> page_aligned t"
  using page_tree_addr by fastforce

lemma page_tree_reach: "page_tree m root T f \<Longrightarrow> t \<in> T \<Longrightarrow> \<exists>p. f p = Some t"
  by (simp add: page_tree_def tree_shape_def ran_def) blast

lemma page_tree_parent:
  "page_tree m root T f \<Longrightarrow> f (p @ [i]) = Some c \<Longrightarrow> (\<exists>t. f p = Some t) \<and> i < 512 \<and> length p < 3"
  by (auto simp: page_tree_def tree_shape_def)

lemma page_tree_inj: "page_tree m root T f \<Longrightarrow> f p = Some t \<Longrightarrow> f q = Some t \<Longrightarrow> p = q"
  by (auto simp: page_tree_def tree_shape_def inj_on_def dom_def)

lemma page_tree_eq_iff:
  assumes "page_tree m root T f" and "f p = Some t" and "f q = Some u"
  shows "t = u \<longleftrightarrow> p = q"
  using page_tree_inj [OF assms(1,2), of q] assms(2,3) by fastforce

lemma page_tree_entry:
  "page_tree m root T f \<Longrightarrow> f p = Some t \<Longrightarrow> length p < 3 \<Longrightarrow> i < 512 \<Longrightarrow>
   get_entry m t i = (case f (p @ [i]) of None \<Rightarrow> 0 | Some c \<Rightarrow> c OR 3)"
  by (auto simp: page_tree_def tree_mem_def)

lemma page_tree_leaf_entry:
  "page_tree m root T f \<Longrightarrow> f p = Some t \<Longrightarrow> length p = 3 \<Longrightarrow> i < 512 \<Longrightarrow>
   get_entry m t i = 0 \<or> present (get_entry m t i)"
  by (auto simp: page_tree_def tree_mem_def)

lemma page_tree_root: "page_tree m root T f \<Longrightarrow> f [] = Some root"
  by (simp add: page_tree_def tree_shape_def)

lemma page_tree_length: "page_tree m root T f \<Longrightarrow> f p = Some t \<Longrightarrow> length p \<le> 3"
  by (cases p rule: rev_cases) (auto dest: page_tree_parent)

lemma page_tree_prefix:
  "page_tree m root T f \<Longrightarrow> f q \<noteq> None \<Longrightarrow> f (take n q) \<noteq> None"
proof (induction q rule: rev_induct)
  case (snoc x xs)
  then show ?case using page_tree_parent [OF snoc.prems(1), of xs x] by (cases "n \<le> length xs") auto
qed simp

lemma next_table_tree:
  assumes "page_tree m root T f" and "f p = Some t" and "length p < 3" and "i < 512"
  shows "next_table m t i = f (p @ [i])"
  using page_tree_entry [OF assms] page_tree_addr [OF assms(1), of "p @ [i]"]
  by (auto simp: next_table_def split: option.splits)

lemma pte_leaf:
  assumes "page_tree m root T f"
  shows "pte m root v = leaf m f v"
proof -
  note step = next_table_tree [OF assms]
  have "next_table m root (pt_index v 39) = f [pt_index v 39]"
    using step [of "[]"] page_tree_root [OF assms] by simp
  moreover have "next_table m t (pt_index v 30) = f [pt_index v 39, pt_index v 30]"
    if "f [pt_index v 39] = Some t" for t using step [OF that] by simp
  moreover have "next_table m t (pt_index v 21) = f (inner_path v)"
    if "f [pt_index v 39, pt_index v 30] = Some t" for t
    using step [OF that] by (simp add: inner_path_def)
  moreover have "f [pt_index v 39, pt_index v 30] \<noteq> None" if "f (inner_path v) = Some t" for t
    using page_tree_parent [OF assms, of "[pt_index v 39, pt_index v 30]"] that
    by (auto simp: inner_path_def)
  moreover have "f [pt_index v 39] \<noteq> None" if "f [pt_index v 39, pt_index v 30] = Some t" for t
    using page_tree_parent [OF assms, of "[pt_index v 39]"] that by auto
  ultimately show ?thesis
    by (auto simp: pte_def leaf_def leaf_at_def split: option.splits)
qed

text \<open>
  The inner levels of a tree restrict nothing, so the access rights the processor finds
  are those of the leaf entry.
\<close>

lemma hw_walk_inner:
  assumes tree: "page_tree m root T f" and "f p = Some t" and "length p < 3" and "i < 512"
  shows "hw_walk m t (i # q) w x = (case f (p @ [i]) of None \<Rightarrow> None | Some c \<Rightarrow> hw_walk m c q w x)"
  using page_tree_entry [OF assms] page_tree_addr [OF tree, of "p @ [i]"]
  by (auto split: option.splits)

lemma translate_pte:
  assumes tree: "page_tree m root T f"
  shows "translate m root v = decode (pte m root v)"
proof -
  note step = hw_walk_inner [OF tree]
  note tab = next_table_tree [OF tree]
  have 1: "hw_walk m root (pt_index v 39 # q) True True =
      (case f [pt_index v 39] of None \<Rightarrow> None | Some c \<Rightarrow> hw_walk m c q True True)" for q
    using step [of "[]" root] page_tree_root [OF tree] by simp
  have 2: "hw_walk m t (pt_index v 30 # q) True True = (case f [pt_index v 39, pt_index v 30] of
      None \<Rightarrow> None | Some c \<Rightarrow> hw_walk m c q True True)" if "f [pt_index v 39] = Some t" for t q
    using step [OF that] by simp
  have 3: "hw_walk m t (pt_index v 21 # q) True True = (case f (inner_path v) of
      None \<Rightarrow> None | Some c \<Rightarrow> hw_walk m c q True True)"
    if "f [pt_index v 39, pt_index v 30] = Some t" for t q
    using step [OF that] by (simp add: inner_path_def)
  have up: "f [pt_index v 39, pt_index v 30] \<noteq> None" if "f (inner_path v) = Some t" for t
    using page_tree_parent [OF tree, of "[pt_index v 39, pt_index v 30]"] that
    by (auto simp: inner_path_def)
  have up2: "f [pt_index v 39] \<noteq> None" if "f [pt_index v 39, pt_index v 30] = Some t" for t
    using page_tree_parent [OF tree, of "[pt_index v 39]"] that by auto
  show ?thesis
    unfolding translate_def pte_leaf [OF tree] leaf_def leaf_at_def
    using 1 2 3 up up2 by (auto simp: decode_def Let_def split: option.splits)
qed


section \<open>Changing a tree\<close>

definition agree :: "u64 set \<Rightarrow> memory \<Rightarrow> memory \<Rightarrow> bool" where
  "agree T m m' \<longleftrightarrow> (\<forall>t \<in> T. \<forall>i < 512. get_entry m' t i = get_entry m t i)"

lemma page_treeI:
  assumes "tree_shape root T f"
    and "\<And>p t i. f p = Some t \<Longrightarrow> length p < 3 \<Longrightarrow> i < 512 \<Longrightarrow>
      get_entry m t i = (case f (p @ [i]) of None \<Rightarrow> 0 | Some c \<Rightarrow> c OR 3)"
    and "\<And>p t i. f p = Some t \<Longrightarrow> length p = 3 \<Longrightarrow> i < 512 \<Longrightarrow>
      get_entry m t i = 0 \<or> present (get_entry m t i)"
  shows "page_tree m root T f"
proof -
  have "length p = 3" if "f p = Some t" "\<not> length p < 3" for p t
    using that assms(1) by (cases p rule: rev_cases) (fastforce simp: tree_shape_def dom_def)+
  then show ?thesis using assms unfolding page_tree_def tree_mem_def by auto
qed

lemma page_tree_shape: "page_tree m root T f \<Longrightarrow> tree_shape root T f"
  by (simp add: page_tree_def)

lemma tree_shapeI:
  assumes "f [] = Some root" and "ran f = T" and "inj_on f (dom f)"
    and "\<And>q j. q @ [j] \<in> dom f \<Longrightarrow> q \<in> dom f \<and> j < 512 \<and> length q < 3"
    and "\<And>t. t \<in> T \<Longrightarrow> table_addr t"
  shows "tree_shape root T f"
  using assms unfolding tree_shape_def by blast

lemma tree_shapeD:
  assumes "tree_shape root T f"
  shows "f [] = Some root" and "ran f = T" and "inj_on f (dom f)"
    and "\<And>t. t \<in> T \<Longrightarrow> table_addr t"
  using assms by (simp_all add: tree_shape_def)

lemma tree_shape_parent:
  "tree_shape root T f \<Longrightarrow> f (q @ [j]) \<noteq> None \<Longrightarrow> f q \<noteq> None \<and> j < 512 \<and> length q < 3"
  by (auto simp: tree_shape_def dom_def)

lemma page_tree_agree:
  assumes tree: "page_tree m root T f" and eq: "agree T m m'"
  shows "page_tree m' root T f"
proof (rule page_treeI [OF page_tree_shape [OF tree]])
  fix p t i assume t: "f p = Some t" and i: "i < (512 :: u64)"
  then have *: "get_entry m' t i = get_entry m t i"
    using eq page_tree_addr [OF tree t] by (simp add: agree_def)
  show "length p < 3 \<Longrightarrow> get_entry m' t i = (case f (p @ [i]) of None \<Rightarrow> 0 | Some c \<Rightarrow> c OR 3)"
    unfolding * by (rule page_tree_entry [OF tree t _ i])
  show "length p = 3 \<Longrightarrow> get_entry m' t i = 0 \<or> present (get_entry m' t i)"
    unfolding * by (rule page_tree_leaf_entry [OF tree t _ i])
qed

lemma leaf_agree: "page_tree m root T f \<Longrightarrow> agree T m m' \<Longrightarrow> same_leaves m f m' f"
  by (auto simp: same_leaves_def leaf_at_def agree_def dest: page_tree_addr split: option.splits)

lemma agree_set_entry:
  assumes "page_aligned c" and "\<forall>t \<in> T. page_aligned t" and "c \<notin> T" and "i < 512"
  shows "agree T m (set_entry c i v m)"
  using assms by (auto simp: agree_def pw.get_put)

lemma agree_fill:
  assumes "page_aligned c" and "\<forall>t \<in> T. page_aligned t" and "c \<notin> T"
  shows "agree T m (for_up 0 512 (\<lambda>i. set_entry c i (g i)) m)"
  using assms by (auto simp: agree_def intro: pw.fill_other)

lemma agree_trans: "agree T a b \<Longrightarrow> agree T b c \<Longrightarrow> agree T a c"
  by (simp add: agree_def)

text \<open>Linking a zeroed table that is not yet in the tree, under an empty entry.\<close>

lemma page_tree_link:
  assumes tree: "page_tree m root T f" and t: "f p = Some t" and p: "length p < 3"
    and i: "i < 512" and none: "f (p @ [i]) = None"
    and c: "table_addr c" "c \<notin> T" and zero: "\<forall>j < 512. get_entry m c j = 0"
  shows "page_tree (set_entry t i (c OR 3) m) root (insert c T) (f(p @ [i] \<mapsto> c))"
proof -
  let ?f = "f(p @ [i] \<mapsto> c)" and ?m = "set_entry t i (c OR 3) m"
  have shape: "tree_shape root T f" using tree by (rule page_tree_shape)
  have t_al: "page_aligned t" "t \<noteq> c" using page_tree_addr [OF tree t] c(2) by auto
  have below: "f ((p @ [i]) @ [j]) = None" for j
    using tree_shape_parent [OF shape, of "p @ [i]" j] none by blast
  have entry: "get_entry ?m u j = (if q @ [j] = p @ [i] then c OR 3 else get_entry m u j)"
    if "f q = Some u" "j < 512" for q u j
  proof -
    have "t = u \<and> i = j \<longleftrightarrow> q @ [j] = p @ [i]" using page_tree_eq_iff [OF tree t that(1)] by auto
    then show ?thesis
      using t_al page_tree_aligned [OF tree that(1)] i that(2) by (simp add: pw.get_put)
  qed
  have fresh: "get_entry ?m c j = 0" if "j < 512" for j
    using zero that t_al c(1) i by (simp add: pw.get_put)
  show ?thesis
  proof (rule page_treeI)
    have "ran ?f = insert c T" using shape none by (simp add: tree_shape_def ran_map_upd)
    moreover have "inj_on ?f (dom ?f)"
      using shape c(2) none by (auto simp: tree_shape_def inj_on_def dom_def ran_def split: if_splits)
    moreover have "q @ [j] \<in> dom ?f \<Longrightarrow> q \<in> dom ?f \<and> j < 512 \<and> length q < 3" for q j
      using tree_shape_parent [OF shape, of q j] t p i
      by (cases "q @ [j] = p @ [i]") (auto simp: dom_def)
    ultimately show "tree_shape root (insert c T) ?f" using shape c(1) by (simp add: tree_shape_def)
  next
    fix q u j assume u: "?f q = Some u" and q: "length q < 3" and j: "j < (512 :: u64)"
    show "get_entry ?m u j = (case ?f (q @ [j]) of None \<Rightarrow> 0 | Some c \<Rightarrow> c OR 3)"
    proof (cases "q = p @ [i]")
      case True
      then have "u = c" using u by simp
      then show ?thesis using fresh [OF j] below [of j] True by simp
    next
      case False
      then have fu: "f q = Some u" using u by simp
      show ?thesis using entry [OF fu j] page_tree_entry [OF tree fu q j] by simp
    qed
  next
    fix q u j assume u: "?f q = Some u" and q: "length q = 3" and j: "j < (512 :: u64)"
    show "get_entry ?m u j = 0 \<or> present (get_entry ?m u j)"
    proof (cases "q = p @ [i]")
      case True
      then have "u = c" using u by simp
      then show ?thesis using fresh [OF j] by simp
    next
      case False
      then have fu: "f q = Some u" using u by simp
      show ?thesis using entry [OF fu j] page_tree_leaf_entry [OF tree fu q j] by auto
    qed
  qed
qed

text \<open>Writing an entry of an inner table does not touch a leaf.\<close>

lemma set_inner_leaf:
  assumes tree: "page_tree m root T f" and t: "f p = Some t" and p: "length p < 3" and i: "i < 512"
    and q: "length q = 3" and j: "j < 512"
  shows "leaf_at (set_entry t i e m) f q j = leaf_at m f q j"
proof -
  have "get_entry (set_entry t i e m) u j = get_entry m u j" if u: "f q = Some u" for u
  proof -
    have "t \<noteq> u" using page_tree_eq_iff [OF tree t u] p q by auto
    then show ?thesis
      using page_tree_aligned [OF tree t] page_tree_aligned [OF tree u] i j by (simp add: pw.get_put)
  qed
  then show ?thesis by (auto simp: leaf_at_def split: option.splits)
qed

lemma leaf_link:
  assumes tree: "page_tree m root T f" and t: "f p = Some t" and p: "length p < 3"
    and i: "i < 512" and none: "f (p @ [i]) = None"
    and c: "table_addr c" "c \<notin> T" and zero: "\<forall>j < 512. get_entry m c j = 0"
  shows "same_leaves m f (set_entry t i (c OR 3) m) (f(p @ [i] \<mapsto> c))"
  unfolding same_leaves_def
proof (intro allI impI)
  fix q :: page_path and j :: u64 assume q: "length q = 3" and j: "j < 512"
  show "leaf_at (set_entry t i (c OR 3) m) (f(p @ [i] \<mapsto> c)) q j = leaf_at m f q j"
  proof (cases "q = p @ [i]")
    case True
    have "t \<noteq> c" using page_tree_addr [OF tree t] c(2) by auto
    then show ?thesis
      using True none zero page_tree_aligned [OF tree t] c(1) i j by (simp add: leaf_at_def pw.get_put)
  next
    case False
    then show ?thesis using set_inner_leaf [OF tree t p i q j] by (simp add: leaf_at_def)
  qed
qed

text \<open>Unlinking a table whose entries are all zero.\<close>

lemma empty_table_children:
  assumes tree: "page_tree m root T f" and c: "f q = Some c" and zero: "\<forall>j < 512. get_entry m c j = 0"
  shows "f (q @ [j]) = None"
proof (rule ccontr)
  assume "f (q @ [j]) \<noteq> None"
  then obtain d where d: "f (q @ [j]) = Some d" by auto
  then have "j < 512" "length q < 3" using page_tree_parent [OF tree d] by auto
  then have "get_entry m c j = d OR 3" using page_tree_entry [OF tree c] d by simp
  then show False using zero \<open>j < 512\<close> link_present [of d] by auto
qed

lemma page_tree_unlink:
  assumes tree: "page_tree m root T f" and t: "f p = Some t" and i: "i < 512"
    and c: "f (p @ [i]) = Some c" and zero: "\<forall>j < 512. get_entry m c j = 0"
  shows "page_tree (set_entry t i 0 m) root (T - {c}) (f(p @ [i] := None))"
proof -
  let ?f = "f(p @ [i] := None)" and ?m = "set_entry t i 0 m"
  have shape: "tree_shape root T f" using tree by (rule page_tree_shape)
  have nochild: "f ((p @ [i]) @ [j]) = None" for j by (rule empty_table_children [OF tree c zero])
  have entry: "get_entry ?m u j = (if q @ [j] = p @ [i] then 0 else get_entry m u j)"
    if "f q = Some u" "j < 512" for q u j
  proof -
    have "t = u \<and> i = j \<longleftrightarrow> q @ [j] = p @ [i]" using page_tree_eq_iff [OF tree t that(1)] by auto
    then show ?thesis
      using page_tree_aligned [OF tree t] page_tree_aligned [OF tree that(1)] i that(2)
      by (simp add: pw.get_put)
  qed
  show ?thesis
  proof (rule page_treeI)
    have T: "T = ran f" using tree_shapeD(2) [OF shape] by simp
    have root: "?f [] = Some root" using tree_shapeD(1) [OF shape] by simp
    have "q \<noteq> p @ [i] \<longleftrightarrow> u \<noteq> c" if "f q = Some u" for q u
      using page_tree_eq_iff [OF tree c that] by blast
    then have ran: "ran ?f = T - {c}" unfolding T ran_def fun_upd_apply
      by (intro set_eqI) (simp, metis option.distinct(1))
    note root
    moreover note ran
    moreover have "inj_on ?f (dom ?f)"
      using tree_shapeD(3) [OF shape] by (auto simp: inj_on_def dom_def)
    moreover have "q @ [j] \<in> dom ?f \<Longrightarrow> q \<in> dom ?f \<and> j < 512 \<and> length q < 3" for q j
    proof -
      assume "q @ [j] \<in> dom ?f"
      then have some: "f (q @ [j]) \<noteq> None" by (auto split: if_splits)
      then have "q \<noteq> p @ [i]" using nochild [of j] by blast
      then show ?thesis using tree_shape_parent [OF shape some] by (simp add: domIff)
    qed
    ultimately show "tree_shape root (T - {c}) ?f"
      by (rule tree_shapeI) (use tree_shapeD(4) [OF shape] in blast)+
  next
    fix q u j assume "?f q = Some u" and q: "length q < 3" and j: "j < (512 :: u64)"
    then have fu: "f q = Some u" by (simp split: if_splits)
    show "get_entry ?m u j = (case ?f (q @ [j]) of None \<Rightarrow> 0 | Some c \<Rightarrow> c OR 3)"
      using entry [OF fu j] page_tree_entry [OF tree fu q j] by simp
  next
    fix q u j assume "?f q = Some u" and q: "length q = 3" and j: "j < (512 :: u64)"
    then have fu: "f q = Some u" by (simp split: if_splits)
    show "get_entry ?m u j = 0 \<or> present (get_entry ?m u j)"
      using entry [OF fu j] page_tree_leaf_entry [OF tree fu q j] by auto
  qed
qed

lemma leaf_unlink:
  assumes tree: "page_tree m root T f" and t: "f p = Some t" and i: "i < 512"
    and c: "f (p @ [i]) = Some c" and zero: "\<forall>j < 512. get_entry m c j = 0"
  shows "same_leaves m f (set_entry t i 0 m) (f(p @ [i] := None))"
  unfolding same_leaves_def
proof (intro allI impI)
  fix q :: page_path and j :: u64 assume q: "length q = 3" and j: "j < 512"
  have p: "length p < 3" using page_tree_parent [OF tree c] by simp
  show "leaf_at (set_entry t i 0 m) (f(p @ [i] := None)) q j = leaf_at m f q j"
    using c zero j set_inner_leaf [OF tree t p i q j] by (cases "q = p @ [i]") (simp_all add: leaf_at_def)
qed

text \<open>Writing a leaf entry changes the translation of one page only.\<close>

definition same_page :: "u64 \<Rightarrow> u64 \<Rightarrow> bool" where
  "same_page v w \<longleftrightarrow> inner_path v = inner_path w \<and> pt_index v 12 = pt_index w 12"

lemma page_tree_set_leaf:
  assumes tree: "page_tree m root T f" and t: "f p = Some t" and p: "length p = 3"
    and i: "i < 512" and e: "e = 0 \<or> present e"
  shows "page_tree (set_entry t i e m) root T f"
proof -
  have al: "page_aligned t" using tree t by (rule page_tree_aligned)
  show ?thesis
  proof (rule page_treeI [OF page_tree_shape [OF tree]])
    fix q u j assume u: "f q = Some u" and q: "length q < 3" and j: "j < (512 :: u64)"
    have "t \<noteq> u" using page_tree_eq_iff [OF tree t u] q p by auto
    then have "get_entry (set_entry t i e m) u j = get_entry m u j"
      using al page_tree_aligned [OF tree u] i j by (simp add: pw.get_put)
    then show "get_entry (set_entry t i e m) u j = (case f (q @ [j]) of None \<Rightarrow> 0 | Some c \<Rightarrow> c OR 3)"
      using page_tree_entry [OF tree u q j] by simp
  next
    fix q u j assume u: "f q = Some u" and q: "length q = 3" and j: "j < (512 :: u64)"
    show "get_entry (set_entry t i e m) u j = 0 \<or> present (get_entry (set_entry t i e m) u j)"
      using al page_tree_aligned [OF tree u] page_tree_leaf_entry [OF tree u q j] i j e
      by (simp add: pw.get_put)
  qed
qed

lemma leaf_at_set_leaf:
  assumes tree: "page_tree m root T f" and t: "f p = Some t" and i: "i < 512" and j: "j < 512"
  shows "leaf_at (set_entry t i e m) f q j = (if q = p \<and> j = i then e else leaf_at m f q j)"
proof (cases "f q")
  case None
  then show ?thesis using t by (auto simp: leaf_at_def)
next
  case (Some u)
  have "t = u \<longleftrightarrow> p = q" by (rule page_tree_eq_iff [OF tree t Some])
  then show ?thesis
    using Some t page_tree_aligned [OF tree t] page_tree_aligned [OF tree Some] i j
    by (auto simp: leaf_at_def pw.get_put)
qed

lemma leaf_set_leaf:
  assumes "page_tree m root T f" and "f (inner_path v) = Some t"
  shows "leaf (set_entry t (pt_index v 12) e m) f w = (if same_page v w then e else leaf m f w)"
  using leaf_at_set_leaf [OF assms, of "pt_index v 12" "pt_index w 12" e "inner_path w"]
  by (auto simp: leaf_def same_page_def)

end
