(* ===== verification/PagingInv.thy ===== *)
theory PagingInv
  imports PageTree
begin

text \<open>
  The invariant of the page-table manager and what its building blocks do to it:
  \<open>new_table\<close>, \<open>release_table\<close>, linking and unlinking. \<open>tab_inv\<close> is about the list of
  owned tables and the page allocator; \<open>pt_inv\<close> adds that the owned tables are exactly the
  tree found in memory, so no table is shared, lost or used twice.
\<close>

definition table_list :: "paging \<Rightarrow> u64 list" where
  "table_list s = take (unat (paging_table_count s)) (table_pages s)"

abbreviation tables :: "paging \<Rightarrow> u64 set" where
  "tables s \<equiv> set (table_list s)"

definition tab_inv :: "paging \<Rightarrow> bool" where
  "tab_inv s \<longleftrightarrow> pmm_inv (pm s) \<and> length (table_pages s) = 4096
     \<and> unat (paging_table_count s) \<le> 4096 \<and> distinct (table_list s) \<and> tables s \<subseteq> pmm_used (pm s)"

definition pt_inv :: "paging \<Rightarrow> table_tree \<Rightarrow> bool" where
  "pt_inv s f \<longleftrightarrow> tab_inv s \<and> page_tree (ram (mach s)) (paging_root s) (tables s) f"

definition paging_inv :: "paging \<Rightarrow> bool" where
  "paging_inv s \<longleftrightarrow> (\<exists>f. pt_inv s f)"

text \<open>How many more tables can be made.\<close>

definition budget :: "paging \<Rightarrow> nat" where
  "budget s = min (4096 - card (tables s)) (card (pmm_avail (pm s)))"

text \<open>
  What the table operations leave alone: registers, devices, root and flags. Cached
  translations may be dropped, never added.
\<close>

definition same_ctl :: "paging \<Rightarrow> paging \<Rightarrow> bool" where
  "same_ctl s s' \<longleftrightarrow> rsp (mach s') = rsp (mach s) \<and> rflags (mach s') = rflags (mach s)
     \<and> cr0 (mach s') = cr0 (mach s) \<and> cr3 (mach s') = cr3 (mach s) \<and> cr4 (mach s') = cr4 (mach s)
     \<and> msr (mach s') = msr (mach s) \<and> cpuid (mach s') = cpuid (mach s)
     \<and> io (mach s') = io (mach s) \<and> device (mach s') = device (mach s)
     \<and> tlb (mach s') \<subseteq>\<^sub>m tlb (mach s) \<and> paging_root s' = paging_root s
     \<and> paging_previous_cr3 s' = paging_previous_cr3 s \<and> active s' = active s"

lemma same_ctl_refl [simp]: "same_ctl s s"
  by (simp add: same_ctl_def)

lemma same_ctl_trans: "same_ctl a b \<Longrightarrow> same_ctl b c \<Longrightarrow> same_ctl a c"
  unfolding same_ctl_def by (auto intro: map_le_trans)

text \<open>What no paging code changes: stack pointer, flags, local APIC base, and everything behind the ports.\<close>

definition same_io :: "machine \<Rightarrow> machine \<Rightarrow> bool" where
  "same_io m m' \<longleftrightarrow> rsp m' = rsp m \<and> rflags m' = rflags m \<and> cpuid m' = cpuid m \<and> msr m' 0x1b = msr m 0x1b
     \<and> io m' = io m \<and> device m' = device m"

lemma same_io_refl [simp]: "same_io m m"
  by (simp add: same_io_def)

lemma same_io_trans: "same_io a b \<Longrightarrow> same_io b c \<Longrightarrow> same_io a c"
  by (simp add: same_io_def)

lemma same_ctl_io: "same_ctl s s' \<Longrightarrow> same_io (mach s) (mach s')"
  by (simp add: same_ctl_def same_io_def)

lemma table_list_upd [simp]:
  "table_list (s\<lparr>mach := m\<rparr>) = table_list s" "table_list (s\<lparr>pm := p\<rparr>) = table_list s"
  "table_list (s\<lparr>paging_root := r\<rparr>) = table_list s" "table_list (s\<lparr>active := b\<rparr>) = table_list s"
  "table_list (s\<lparr>paging_previous_cr3 := c\<rparr>) = table_list s"
  by (simp_all add: table_list_def)

lemma tab_inv_upd [simp]:
  "tab_inv (s\<lparr>mach := m\<rparr>) = tab_inv s" "tab_inv (s\<lparr>paging_root := r\<rparr>) = tab_inv s"
  "tab_inv (s\<lparr>active := b\<rparr>) = tab_inv s" "tab_inv (s\<lparr>paging_previous_cr3 := c\<rparr>) = tab_inv s"
  by (simp_all add: tab_inv_def)

lemma card_tables: "tab_inv s \<Longrightarrow> card (tables s) = unat (paging_table_count s)"
  by (simp add: tab_inv_def distinct_card table_list_def)

lemma table_frames: "tab_inv s \<Longrightarrow> t \<in> tables s \<Longrightarrow> frame_addr t"
  using pmm_fa.frames [of "pm s" t] by (auto simp: tab_inv_def)

lemma frame_table_addr: "frame_addr t \<Longrightarrow> table_addr t"
  by (auto simp: frame_addr_def table_addr_def word_less_nat_alt word_le_nat_alt)

lemma tab_inv_addr: "tab_inv s \<Longrightarrow> t \<in> tables s \<Longrightarrow> table_addr t"
  using table_frames frame_table_addr by blast


section \<open>Writes\<close>

lemma wr_simps [simp]:
  "pm (wr t i v s) = pm s" "table_pages (wr t i v s) = table_pages s"
  "paging_table_count (wr t i v s) = paging_table_count s" "paging_root (wr t i v s) = paging_root s"
  "active (wr t i v s) = active s" "ram (mach (wr t i v s)) = set_entry t i v (ram (mach s))"
  "tlb (mach (wr t i v s)) = tlb (mach s)" "rflags (mach (wr t i v s)) = rflags (mach s)"
  "table_list (wr t i v s) = table_list s" "same_ctl s (wr t i v s)"
  by (simp_all add: wr_def table_list_def same_ctl_def)

lemma invalidate_simps [simp]:
  "pm (invalidate a s) = pm s" "table_pages (invalidate a s) = table_pages s"
  "paging_table_count (invalidate a s) = paging_table_count s"
  "paging_root (invalidate a s) = paging_root s"
  "active (invalidate a s) = active s" "ram (mach (invalidate a s)) = ram (mach s)"
  "rflags (mach (invalidate a s)) = rflags (mach s)"
  "table_list (invalidate a s) = table_list s" "same_ctl s (invalidate a s)"
  by (auto simp: invalidate_def table_list_def same_ctl_def x86_invalidate_page_def map_le_def)

lemma tab_inv_wr [simp]: "tab_inv (wr t i v s) = tab_inv s"
  by (simp add: tab_inv_def)

lemma tab_inv_invalidate [simp]: "tab_inv (invalidate a s) = tab_inv s"
  by (simp add: tab_inv_def)

lemma pt_inv_invalidate [simp]: "pt_inv (invalidate a s) f = pt_inv s f"
  by (simp add: pt_inv_def)

lemma rd_wr [simp]: "rd (wr t i v s) t i = v"
  by (simp add: rd_def pw.get_put_same)


section \<open>New tables\<close>

lemma new_table_fail:
  assumes "tab_inv s" and "fst (new_table s) = 0"
  shows "new_table s = (0, s) \<and> budget s = 0"
proof (cases "paging_table_count s = MAX_TABLES")
  case True
  then show ?thesis using assms(1) by (simp add: new_table_def budget_def card_tables)
next
  case False
  have inv: "pmm_inv (pm s)" using assms(1) by (simp add: tab_inv_def)
  obtain r p where r: "pmm_alloc True (pm s) = (r, p)" by (cases "pmm_alloc True (pm s)")
  show ?thesis
  proof (cases r)
    case None
    then show ?thesis using r False pmm_fa.alloc_None [OF inv] by (simp add: new_table_def budget_def)
  next
    case (Some a)
    then have "frame_addr a" using pmm_fa.alloc_fresh [OF inv] r by simp
    then have "a \<noteq> 0" by (auto simp: frame_addr_def word_le_nat_alt)
    then show ?thesis using assms(2) r Some False by (simp add: new_table_def)
  qed
qed

lemma new_table_ok:
  assumes inv: "tab_inv s" and new: "new_table s = (c, s')" and c: "c \<noteq> 0"
  shows "tab_inv s' \<and> table_addr c \<and> c \<notin> tables s \<and> c \<in> pmm_avail (pm s)
    \<and> tables s' = insert c (tables s) \<and> pmm_used (pm s') = insert c (pmm_used (pm s))
    \<and> pmm_avail (pm s') = pmm_avail (pm s) - {c} \<and> budget s = Suc (budget s') \<and> same_ctl s s'
    \<and> ram (mach s') = for_up 0 512 (\<lambda>i. set_entry c i 0) (ram (mach s))"
proof -
  define n where "n = unat (paging_table_count s)"
  have pinv: "pmm_inv (pm s)" using inv by (simp add: tab_inv_def)
  obtain p where al: "pmm_alloc True (pm s) = (Some c, p)" and lt: "paging_table_count s \<noteq> MAX_TABLES"
    and s': "s' = zero_table c (s\<lparr>pm := p, table_pages := (table_pages s)[n := c],
      paging_table_count := paging_table_count s + 1\<rparr>)"
    using new c unfolding n_def by (auto simp: new_table_def split: if_splits prod.splits option.splits)
  note al' = pmm_fa.alloc_Some [OF pinv al]
  note fresh = pmm_fa.alloc_fresh [OF pinv al]
  have n: "n < 4096"
    using inv lt by (simp add: tab_inv_def n_def word_unat_eq_iff le_neq_implies_less)
  then have n1: "unat (paging_table_count s + 1) = Suc n"
    unfolding n_def by (intro unat_succ [of _ MAX_TABLES]) (simp add: word_less_nat_alt)
  have list: "table_list s' = table_list s @ [c]"
    using inv n n1 by (simp add: s' zero_table_def table_list_def n_def tab_inv_def take_Suc_conv_app_nth)
  have notin: "c \<notin> tables s" using inv fresh by (auto simp: tab_inv_def)
  have tinv: "tab_inv s'"
    using inv al' list n n1 notin
    by (auto simp: tab_inv_def s' zero_table_def table_list_def n_def)
  moreover have "budget s = Suc (budget s')"
    using card_tables [OF inv] card_tables [OF tinv] n n1 pmm_fa.alloc_card [OF pinv al]
    by (simp add: budget_def s' zero_table_def n_def)
  ultimately show ?thesis
    using al' fresh notin frame_table_addr list
    by (auto simp: s' zero_table_def same_ctl_def)
qed

text \<open>Growing the tree by a fresh table under an empty entry.\<close>

lemma grow:
  assumes inv: "pt_inv s f" and t: "f p = Some t" and p: "length p < 3" and i: "i < 512"
    and none: "f (p @ [i]) = None" and new: "new_table s = (c, s1)" and c: "c \<noteq> 0"
  shows "pt_inv (wr t i (c OR 3) s1) (f(p @ [i] \<mapsto> c))
    \<and> same_leaves (ram (mach s)) f (ram (mach (wr t i (c OR 3) s1))) (f(p @ [i] \<mapsto> c))"
proof -
  let ?z = "for_up 0 512 (\<lambda>i. set_entry c i 0) (ram (mach s))"
  have tree: "page_tree (ram (mach s)) (paging_root s) (tables s) f" and tinv: "tab_inv s"
    using inv by (simp_all add: pt_inv_def)
  note nt = new_table_ok [OF tinv new c]
  have agree: "agree (tables s) (ram (mach s)) ?z"
    using nt tab_inv_addr [OF tinv] by (intro agree_fill) auto
  note tree1 = page_tree_agree [OF tree agree]
  have zero: "\<forall>j < 512. get_entry ?z c j = 0"
    using nt pw.fill_same [of c _ "\<lambda>_. 0"] by simp
  have "paging_root s1 = paging_root s" using nt by (simp add: same_ctl_def)
  then show ?thesis
    using page_tree_link [OF tree1 t p i none _ _ zero] leaf_link [OF tree1 t p i none _ _ zero]
      same_leaves_trans [OF leaf_agree [OF tree agree]] nt by (simp add: pt_inv_def)
qed


section \<open>Releasing tables\<close>

lemma release_table_ok:
  assumes inv: "tab_inv s" and c: "c \<in> tables s"
  shows "tab_inv (release_table c s) \<and> tables (release_table c s) = tables s - {c}
    \<and> pmm_used (pm (release_table c s)) = pmm_used (pm s) - {c}
    \<and> pmm_avail (pm (release_table c s)) = insert c (pmm_avail (pm s))
    \<and> mach (release_table c s) = mach s \<and> same_ctl s (release_table c s)"
proof -
  define n where "n = unat (paging_table_count s)"
  have pinv: "pmm_inv (pm s)" and n: "n \<le> 4096" and len: "length (table_pages s) = 4096"
    and used: "c \<in> pmm_used (pm s)" using inv c by (auto simp: tab_inv_def n_def)
  let ?find = "find (\<lambda>k. \<not> table_pages s ! unat (of_nat k :: u64) \<noteq> c) [0..<n]"
  have idx: "unat (of_nat k :: u64) = k" if "k < n" for k
    using that n by (simp add: unat_of_nat64)
  have "\<exists>k < n. table_pages s ! k = c"
    using c len n by (auto simp: table_list_def n_def in_set_conv_nth)
  then have "?find \<noteq> None" using idx unfolding find_None_iff by auto
  then obtain k where k: "?find = Some k" by blast
  then have kn: "k < n" and kc: "table_pages s ! k = c" using idx by (auto simp: find_Some_iff)
  define s' where "s' = s\<lparr>paging_table_count := paging_table_count s - 1,
    table_pages := (table_pages s)[k := table_pages s ! unat (paging_table_count s - 1)],
    pm := snd (pmm_free c (pm s))\<rparr>"
  have rel: "release_table c s = s'"
    using k idx [OF kn] unfolding release_table_def s'_def Let_def for_ret_find by (simp add: n_def)
  have n1: "unat (paging_table_count s - 1) = n - 1"
    using kn by (cases "paging_table_count s = 0") (simp_all add: n_def unat_minus_one)
  have sw: "distinct (take (n - 1) ((table_pages s)[k := table_pages s ! (n - 1)]))"
    "set (take (n - 1) ((table_pages s)[k := table_pages s ! (n - 1)])) = tables s - {c}"
  proof -
    have tl: "table_list s = take (Suc (n - 1)) (table_pages s)" using kn by (simp add: table_list_def n_def)
    have "distinct (take (Suc (n - 1)) (table_pages s))" "n - 1 < length (table_pages s)" "k \<le> n - 1"
      using inv kn n len tl by (auto simp: tab_inv_def)
    from swap_remove [OF this] tl kc show
      "distinct (take (n - 1) ((table_pages s)[k := table_pages s ! (n - 1)]))"
      "set (take (n - 1) ((table_pages s)[k := table_pages s ! (n - 1)])) = tables s - {c}" by simp_all
  qed
  obtain p where free: "pmm_free c (pm s) = (True, p)" "pmm_used p = pmm_used (pm s) - {c}"
    "pmm_avail p = insert c (pmm_avail (pm s))" "pmm_inv p"
    using pmm_fa.free_ok [OF pinv used] by blast
  have "tab_inv s'"
    using sw free n n1 len inv by (auto simp: tab_inv_def s'_def table_list_def)
  then show ?thesis
    unfolding rel using sw free n1 by (simp add: s'_def table_list_def same_ctl_def)
qed

text \<open>Shrinking the tree by an empty table.\<close>

lemma shrink:
  assumes inv: "pt_inv s f" and t: "f p = Some t" and i: "i < 512"
    and c: "f (p @ [i]) = Some c" and zero: "\<forall>j < 512. get_entry (ram (mach s)) c j = 0"
  shows "pt_inv (release_table c (invalidate a (wr t i 0 s))) (f(p @ [i] := None))
    \<and> same_leaves (ram (mach s)) f (ram (mach (release_table c (invalidate a (wr t i 0 s)))))
        (f(p @ [i] := None))"
proof -
  let ?s = "invalidate a (wr t i 0 s)"
  have tree: "page_tree (ram (mach s)) (paging_root s) (tables s) f" and tinv: "tab_inv s"
    using inv by (simp_all add: pt_inv_def)
  have "c \<in> tables ?s" using page_tree_addr [OF tree c] by simp
  then have "tab_inv (release_table c ?s)" "tables (release_table c ?s) = tables s - {c}"
    "mach (release_table c ?s) = mach ?s" "paging_root (release_table c ?s) = paging_root s"
    using release_table_ok [of ?s c] tinv by (simp_all add: same_ctl_def)
  then show ?thesis
    using page_tree_unlink [OF tree t i c zero] leaf_unlink [OF tree t i c zero]
    by (simp add: pt_inv_def)
qed


section \<open>Pages that belong to others\<close>

text \<open>
  Only page tables and free pages are written: the words of every other page stay, and no
  other page becomes a table or free.
\<close>

definition kept :: "paging \<Rightarrow> paging \<Rightarrow> bool" where
  "kept s s' \<longleftrightarrow> tables s' \<union> pmm_avail (pm s') \<subseteq> tables s \<union> pmm_avail (pm s)
     \<and> agree {t. page_aligned t \<and> t \<notin> tables s \<union> pmm_avail (pm s)} (ram (mach s)) (ram (mach s'))"

lemma kept_refl [simp]: "kept s s"
  by (simp add: kept_def agree_def)

lemma kept_trans: "kept a b \<Longrightarrow> kept b c \<Longrightarrow> kept a c"
  unfolding kept_def agree_def by (intro conjI; elim conjE) (auto simp: subset_iff)

lemma kept_invalidate [simp]: "kept s (invalidate a s)"
  by (simp add: kept_def agree_def)

lemma kept_wr: "t \<in> tables s \<Longrightarrow> page_aligned t \<Longrightarrow> i < 512 \<Longrightarrow> kept s (wr t i v s)"
  by (auto simp: kept_def agree_def pw.get_put)

lemma kept_new_table:
  assumes "tab_inv s" and "new_table s = (c, s')" and "c \<noteq> 0"
  shows "kept s s'"
proof -
  note nt = new_table_ok [OF assms]
  then have "agree {t. page_aligned t \<and> t \<notin> tables s \<union> pmm_avail (pm s)} (ram (mach s)) (ram (mach s'))"
    using agree_fill [of c "{t. page_aligned t \<and> t \<notin> tables s \<union> pmm_avail (pm s)}" "ram (mach s)" "\<lambda>_. 0"]
    by auto
  then show ?thesis using nt by (auto simp: kept_def)
qed

lemma kept_release: "tab_inv s \<Longrightarrow> c \<in> tables s \<Longrightarrow> kept s (release_table c s)"
  using release_table_ok [of s c] by (auto simp: kept_def agree_def)

end
