(* ===== verification/PagingDyn.thy ===== *)
theory PagingDyn
  imports PagingInv
begin

text \<open>
  The dynamic window: \<open>paging_map\<close>, \<open>paging_unmap\<close>, \<open>paging_protect\<close> and
  \<open>paging_query\<close> against the tree of tables. \<open>grown\<close> and \<open>shrunk\<close> describe what adding and
  releasing tables does to the allocator and that no translation changes by it.
\<close>

definition grown :: "paging \<Rightarrow> table_tree \<Rightarrow> paging \<Rightarrow> table_tree \<Rightarrow> bool" where
  "grown s f s' f' \<longleftrightarrow> pt_inv s' f' \<and> same_leaves (ram (mach s)) f (ram (mach s')) f' \<and> same_ctl s s'
     \<and> kept s s' \<and> f \<subseteq>\<^sub>m f' \<and> tables s \<subseteq> tables s' \<and> tables s' - tables s \<subseteq> pmm_avail (pm s)
     \<and> pmm_used (pm s') = pmm_used (pm s) \<union> (tables s' - tables s)
     \<and> pmm_avail (pm s') = pmm_avail (pm s) - (tables s' - tables s)"

definition shrunk :: "paging \<Rightarrow> table_tree \<Rightarrow> u64 set \<Rightarrow> paging \<Rightarrow> table_tree \<Rightarrow> bool" where
  "shrunk s f D s' f' \<longleftrightarrow> pt_inv s' f' \<and> same_leaves (ram (mach s)) f (ram (mach s')) f' \<and> same_ctl s s'
     \<and> kept s s' \<and> f' \<subseteq>\<^sub>m f \<and> D \<subseteq> tables s \<and> tables s' = tables s - D
     \<and> pmm_used (pm s') = pmm_used (pm s) - D
     \<and> pmm_avail (pm s') = pmm_avail (pm s) \<union> D"

lemma pt_inv_tree: "pt_inv s f \<Longrightarrow> page_tree (ram (mach s)) (paging_root s) (tables s) f"
  by (simp add: pt_inv_def)

lemma pt_inv_tab: "pt_inv s f \<Longrightarrow> tab_inv s"
  by (simp add: pt_inv_def)

lemma tables_not_avail: "tab_inv s \<Longrightarrow> tables s \<inter> pmm_avail (pm s) = {}"
  using pmm_fa.disjoint [of "pm s"] by (auto simp: tab_inv_def)

lemma grown_refl: "pt_inv s f \<Longrightarrow> grown s f s f"
  by (auto simp: grown_def)

lemma grown_trans: "grown s f s1 f1 \<Longrightarrow> grown s1 f1 s2 f2 \<Longrightarrow> grown s f s2 f2"
  unfolding grown_def
  by (intro conjI; elim conjE)
    (auto intro: same_leaves_trans same_ctl_trans kept_trans map_le_trans)

lemma shrunk_refl: "pt_inv s f \<Longrightarrow> shrunk s f {} s f"
  by (auto simp: shrunk_def)

lemma shrunk_trans: "shrunk s f D s1 f1 \<Longrightarrow> shrunk s1 f1 E s2 f2 \<Longrightarrow> shrunk s f (D \<union> E) s2 f2"
  unfolding shrunk_def
  by (intro conjI; elim conjE)
    (auto intro: same_leaves_trans same_ctl_trans kept_trans map_le_trans)

lemma grown_step:
  assumes inv: "pt_inv s f" and t: "f p = Some t" and p: "length p < 3" and i: "i < 512"
    and none: "f (p @ [i]) = None" and new: "new_table s = (c, s1)" and c: "c \<noteq> 0"
  shows "grown s f (wr t i (c OR 3) s1) (f(p @ [i] \<mapsto> c))"
proof -
  note nt = new_table_ok [OF pt_inv_tab [OF inv] new c]
  have "kept s1 (wr t i (c OR 3) s1)"
    using page_tree_addr [OF pt_inv_tree [OF inv] t] nt i by (intro kept_wr) auto
  then have "kept s (wr t i (c OR 3) s1)" using kept_trans kept_new_table [OF pt_inv_tab [OF inv] new c] by blast
  moreover have "f \<subseteq>\<^sub>m f(p @ [i] \<mapsto> c)" using none by (auto simp: map_le_def)
  ultimately show ?thesis
    using grow [OF assms] nt
    by (auto simp: grown_def intro: same_ctl_trans)
qed

lemma shrunk_step:
  assumes inv: "pt_inv s f" and t: "f p = Some t" and i: "i < 512"
    and c: "f (p @ [i]) = Some c" and zero: "\<forall>j < 512. get_entry (ram (mach s)) c j = 0"
  shows "shrunk s f {c} (release_table c (invalidate a (wr t i 0 s))) (f(p @ [i] := None))"
proof -
  have "c \<in> tables s" using page_tree_addr [OF pt_inv_tree [OF inv] c] by simp
  then have rel: "c \<in> tables (invalidate a (wr t i 0 s))" "tab_inv (invalidate a (wr t i 0 s))"
    using pt_inv_tab [OF inv] by simp_all
  have "f(p @ [i] := None) \<subseteq>\<^sub>m f" by (auto simp: map_le_def)
  moreover have "same_ctl s (invalidate a (wr t i 0 s))"
    by (rule same_ctl_trans [of _ "wr t i 0 s"]) simp_all
  then have "same_ctl s (release_table c (invalidate a (wr t i 0 s)))"
    by (rule same_ctl_trans) (use release_table_ok [OF rel(2,1)] in simp)
  moreover have "kept s (wr t i 0 s)"
    using page_tree_addr [OF pt_inv_tree [OF inv] t] i by (intro kept_wr) auto
  then have "kept s (release_table c (invalidate a (wr t i 0 s)))"
    using kept_trans kept_invalidate kept_release [OF rel(2,1)] by blast
  ultimately show ?thesis
    using shrink [OF assms, of a] release_table_ok [OF rel(2,1)] \<open>c \<in> tables s\<close>
    by (auto simp: shrunk_def)
qed

text \<open>Taking back what was added leaves the allocator and the translations as they were.\<close>

lemma grown_shrunk:
  assumes "pt_inv s f" and "grown s f s1 f1" and "shrunk s1 f1 (tables s1 - tables s) s2 f2"
  shows "tables s2 = tables s" and "pmm_used (pm s2) = pmm_used (pm s)"
    and "pmm_avail (pm s2) = pmm_avail (pm s)"
    and "same_leaves (ram (mach s)) f (ram (mach s2)) f2" and "same_ctl s s2"
  using assms pmm_fa.disjoint [of "pm s"] pt_inv_tab [OF assms(1)]
  by (auto simp: grown_def shrunk_def tab_inv_def intro: same_leaves_trans same_ctl_trans)


section \<open>One level of the walk\<close>

lemma rd_entry:
  assumes "pt_inv s f" and "f p = Some t" and "length p < 3" and "i < 512"
  shows "rd s t i AND 1 = 0 \<longleftrightarrow> f (p @ [i]) = None"
    and "f (p @ [i]) = Some c \<Longrightarrow> rd s t i AND ADDRESS_MASK = c"
proof -
  note e = page_tree_entry [OF pt_inv_tree [OF assms(1)] assms(2-4)]
  show "rd s t i AND 1 = 0 \<longleftrightarrow> f (p @ [i]) = None"
    using e link_present by (auto simp: rd_def split: option.splits)
  show "rd s t i AND ADDRESS_MASK = c" if "f (p @ [i]) = Some c"
    using e that page_tree_addr [OF pt_inv_tree [OF assms(1)] that] by (simp add: rd_def)
qed

lemma level_index: "k < 3 \<Longrightarrow> inner_path v ! k = pt_index v (39 - 9 * k)"
  by (cases k rule: nat.exhaust) (auto simp: inner_path_def less_Suc_eq numeral_3_eq_3)

lemma level_take: "k < 3 \<Longrightarrow> take (Suc k) (inner_path v) = take k (inner_path v) @ [inner_path v ! k]"
  by (simp add: take_Suc_conv_app_nth)

lemma level_less [simp]: "k < 3 \<Longrightarrow> inner_path v ! k < 512"
  by (simp add: level_index)

text \<open>The tables missing on the way to a page, below level \<open>k\<close>.\<close>

definition missing :: "table_tree \<Rightarrow> u64 \<Rightarrow> nat \<Rightarrow> nat" where
  "missing f v k = card {j. k < j \<and> j \<le> 3 \<and> f (take j (inner_path v)) = None}"

lemma missing_3 [simp]: "missing f v 3 = 0"
  by (simp add: missing_def)

lemma missing_step:
  assumes "k < 3"
  shows "missing f v k = (if f (take (Suc k) (inner_path v)) = None then 1 else 0) + missing f v (Suc k)"
proof -
  let ?A = "{j. Suc k < j \<and> j \<le> 3 \<and> f (take j (inner_path v)) = None}"
  have "{j. k < j \<and> j \<le> 3 \<and> f (take j (inner_path v)) = None} =
      (if f (take (Suc k) (inner_path v)) = None then insert (Suc k) ?A else ?A)"
    using assms by (auto simp: less_Suc_eq intro: Suc_lessI)
  moreover have "finite ?A" by (rule finite_subset [of _ "{..3}"]) auto
  ultimately show ?thesis by (simp add: missing_def)
qed

lemma missing_upd: "missing (f(take k (inner_path v) \<mapsto> c)) v k = missing f v k" if "k \<le> 3"
proof -
  have "take j (inner_path v) \<noteq> take k (inner_path v)" if "k < j" "j \<le> 3" for j
    using that by (metis length_inner_path length_take min.absorb2 nless_le order.trans)
  then show ?thesis unfolding missing_def by (metis (no_types, lifting) fun_upd_other)
qed

lemma map_tables_done: "map_tables v 12 t made s = (Some t, s)"
  by (simp add: map_tables.simps)

lemma map_tables_step:
  assumes inv: "pt_inv s f" and k: "k < 3" and t: "f (take k (inner_path v)) = Some t"
  shows "map_tables v (39 - 9 * k) t made s =
    (case f (take (Suc k) (inner_path v)) of
       Some u \<Rightarrow> map_tables v (39 - 9 * Suc k) u made s
     | None \<Rightarrow> (case new_table s of (c, s1) \<Rightarrow>
         if c = 0 then (None, undo_links v made s1)
         else map_tables v (39 - 9 * Suc k) c (((t, inner_path v ! k), c) # made)
           (wr t (inner_path v ! k) (c OR 3) s1)))"
proof -
  have len: "length (take k (inner_path v)) < 3" using k by simp
  note e = rd_entry [OF inv t len level_less [OF k, of v]]
  note idx = level_index [OF k, of v, symmetric]
  have shift: "39 - 9 * k > 12" "39 - 9 * k - 9 = 39 - 9 * Suc k" using k by simp_all
  obtain c s1 where new: "new_table s = (c, s1)" by (cases "new_table s")
  have "table_addr c" if "c \<noteq> 0" using new_table_ok [OF pt_inv_tab [OF inv] new that] by simp
  then show ?thesis
    using e new level_take [OF k, of v]
    by (subst map_tables.simps)
      (auto simp: shift Let_def idx simp del: diff_diff_left split: option.splits)
qed


section \<open>Mapping and its rollback\<close>

text \<open>
  The stack of links made so far can be taken back: the newest child is empty and the rest
  can be taken back once it is unlinked.
\<close>

fun chain :: "memory \<Rightarrow> table_tree \<Rightarrow> ((u64 \<times> u64) \<times> u64) list \<Rightarrow> bool" where
  "chain m f [] = True"
| "chain m f (((t, i), c) # rest) = (\<exists>p. f p = Some t \<and> i < 512 \<and> f (p @ [i]) = Some c
     \<and> (\<forall>j < 512. get_entry m c j = 0) \<and> chain (set_entry t i 0 m) (f(p @ [i] := None)) rest)"

lemma chain_agree:
  "page_tree m root T f \<Longrightarrow> agree T m m' \<Longrightarrow> chain m f made \<Longrightarrow> chain m' f made"
proof (induction made arbitrary: m m' T f)
  case (Cons lc rest)
  obtain t i c where lc: "lc = ((t, i), c)" by (metis surj_pair)
  obtain p where p: "f p = Some t" "i < 512" "f (p @ [i]) = Some c"
    and zero: "\<forall>j < 512. get_entry m c j = 0"
    and rest: "chain (set_entry t i 0 m) (f(p @ [i] := None)) rest"
    using Cons.prems(3) lc by auto
  note tree' = page_tree_unlink [OF Cons.prems(1) p zero]
  have al: "page_aligned u" if "u \<in> T" for u
    using that Cons.prems(1) by (auto simp: page_tree_def tree_shape_def)
  have "t \<in> T" using page_tree_addr [OF Cons.prems(1) p(1)] by simp
  then have "agree (T - {c}) (set_entry t i 0 m) (set_entry t i 0 m')"
    using Cons.prems(2) al p(2) by (auto simp: agree_def pw.get_put)
  from Cons.IH [OF tree' this rest] have "chain (set_entry t i 0 m') (f(p @ [i] := None)) rest" .
  moreover have "\<forall>j < 512. get_entry m' c j = 0"
    using zero Cons.prems(2) page_tree_addr [OF Cons.prems(1) p(3)] by (simp add: agree_def)
  ultimately show ?case using lc p by auto
qed simp

lemma undo_links_ok:
  "pt_inv s f \<Longrightarrow> chain (ram (mach s)) f made \<Longrightarrow>
   \<exists>f'. shrunk s f (snd ` set made) (undo_links v made s) f'"
proof (induction made arbitrary: s f)
  case Nil
  then show ?case using shrunk_refl by auto
next
  case (Cons lc rest)
  obtain t i c where lc: "lc = ((t, i), c)" by (metis surj_pair)
  obtain p where p: "f p = Some t" "i < 512" "f (p @ [i]) = Some c"
    and zero: "\<forall>j < 512. get_entry (ram (mach s)) c j = 0"
    and rest: "chain (set_entry t i 0 (ram (mach s))) (f(p @ [i] := None)) rest"
    using Cons.prems(2) lc by auto
  let ?s = "release_table c (invalidate v (wr t i 0 s))"
  note step = shrunk_step [OF Cons.prems(1) p zero, of v]
  have "c \<in> tables (invalidate v (wr t i 0 s))" "tab_inv (invalidate v (wr t i 0 s))"
    using page_tree_addr [OF pt_inv_tree [OF Cons.prems(1)] p(3)] pt_inv_tab [OF Cons.prems(1)]
    by simp_all
  then have "ram (mach ?s) = set_entry t i 0 (ram (mach s))"
    using release_table_ok by simp
  with rest have ch: "chain (ram (mach ?s)) (f(p @ [i] := None)) rest" by (simp only:)
  have inv: "pt_inv ?s (f(p @ [i] := None))" using step by (simp only: shrunk_def)
  obtain f' where "shrunk ?s (f(p @ [i] := None)) (snd ` set rest) (undo_links v rest ?s) f'"
    using Cons.IH [OF inv ch] by blast
  from shrunk_trans [OF step this] show ?case using lc by auto
qed

lemma chain_grow:
  assumes inv: "pt_inv s f" and t: "f p = Some t" and p: "length p < 3" and i: "i < 512"
    and none: "f (p @ [i]) = None" and new: "new_table s = (c, s1)" and c: "c \<noteq> 0"
    and made: "chain (ram (mach s)) f made"
  shows "chain (ram (mach (wr t i (c OR 3) s1))) (f(p @ [i] \<mapsto> c)) (((t, i), c) # made)"
proof -
  note nt = new_table_ok [OF pt_inv_tab [OF inv] new c]
  note tree = pt_inv_tree [OF inv]
  let ?m = "set_entry t i (c OR 3) (ram (mach s1))"
  have tc: "page_aligned t" "page_aligned c" "t \<noteq> c"
    using page_tree_addr [OF tree t] nt by auto
  have "get_entry ?m c j = 0" if "j < 512" for j
    using nt pw.fill_same [of c j "\<lambda>_. 0" "ram (mach s)"] that tc i by (simp add: pw.get_put)
  moreover have "chain (set_entry t i 0 ?m) f made"
  proof (rule chain_agree [OF tree _ made])
    have e: "get_entry (ram (mach s)) t i = 0" using page_tree_entry [OF tree t p i] none by simp
    have other: "get_entry (ram (mach s1)) u j = get_entry (ram (mach s)) u j"
      if "u \<in> tables s" "j < 512" for u j
      using nt pw.fill_other [of c u j "\<lambda>_. 0"] tc that tab_inv_addr [OF pt_inv_tab [OF inv], of u] by auto
    show "agree (tables s) (ram (mach s)) (set_entry t i 0 ?m)"
      unfolding agree_def
      using e other tc i tab_inv_addr [OF pt_inv_tab [OF inv]] by (auto simp: pw.get_put)
  qed
  moreover have "(f(p @ [i] \<mapsto> c))(p @ [i] := None) = f" using none by (simp add: fun_upd_idem)
  moreover have "(f(p @ [i] \<mapsto> c)) p = Some t" using t by simp
  ultimately show ?thesis using i by (auto intro!: exI [of _ p])
qed

definition on_path :: "u64 \<Rightarrow> page_path \<Rightarrow> bool" where
  "on_path v p \<longleftrightarrow> (\<exists>j \<le> 3. p = take j (inner_path v))"

text \<open>
  The table loop of \<open>paging_map\<close>: it finds or makes the tables down to the leaf table
  when the missing ones can be made, and otherwise takes back everything it made.
\<close>

definition tables_made :: "u64 \<Rightarrow> nat \<Rightarrow> paging \<Rightarrow> table_tree \<Rightarrow> u64 \<Rightarrow> paging \<Rightarrow> bool" where
  "tables_made v n s f u s' \<longleftrightarrow> n \<le> budget s \<and> (\<exists>f'. grown s f s' f' \<and> f' (inner_path v) = Some u
     \<and> card (tables s' - tables s) = n \<and> (\<forall>p. f p = None \<longrightarrow> f' p \<noteq> None \<longrightarrow> on_path v p))"

lemma grown_shrunk_new:
  assumes "pt_inv s f" and "grown s f s1 f1" and "tables s1 = insert c (tables s) \<and> c \<notin> tables s"
    and "shrunk s1 f1 (insert c D) s2 f2" and "D \<subseteq> tables s"
  shows "shrunk s f D s2 f2"
proof -
  have tree: "page_tree (ram (mach s)) (paging_root s) (tables s) f"
    and tree1: "page_tree (ram (mach s1)) (paging_root s1) (tables s1) f1"
    and tree2: "page_tree (ram (mach s2)) (paging_root s2) (tables s2) f2"
    using assms(1,2,4) unfolding pt_inv_def grown_def shrunk_def by blast+
  have sub: "f \<subseteq>\<^sub>m f1" "f2 \<subseteq>\<^sub>m f1" using assms(2,4) by (simp_all add: grown_def shrunk_def)
  have "f2 \<subseteq>\<^sub>m f" unfolding map_le_def
  proof
    fix p assume "p \<in> dom f2"
    then obtain t where t: "f2 p = Some t" by blast
    then have t1: "f1 p = Some t" using sub(2) by (force simp: map_le_def)
    have "t \<in> tables s"
      using page_tree_addr [OF tree2 t] assms(3,4) by (auto simp: shrunk_def)
    then obtain q where q: "f q = Some t" using page_tree_reach [OF tree] by blast
    then have "f1 q = Some t" using sub(1) by (force simp: map_le_def)
    then have "p = q" using page_tree_eq_iff [OF tree1 t1] by blast
    then show "f2 p = f p" using q t by simp
  qed
  moreover have "c \<in> pmm_avail (pm s)" "D \<inter> pmm_avail (pm s) = {}"
    using assms(2,3,5) tables_not_avail [OF pt_inv_tab [OF assms(1)]] by (auto simp: grown_def)
  moreover have "c \<notin> pmm_used (pm s)"
    using \<open>c \<in> pmm_avail (pm s)\<close> pmm_fa.disjoint [of "pm s"] assms(1) by (auto simp: pt_inv_def tab_inv_def)
  moreover have "same_leaves (ram (mach s)) f (ram (mach s2)) f2" "same_ctl s s2" "kept s s2"
    using assms(2,4) by (auto simp: grown_def shrunk_def intro: same_leaves_trans same_ctl_trans kept_trans)
  ultimately show ?thesis
    using assms(2-5) unfolding grown_def shrunk_def by auto
qed

lemma tables_made_grown:
  assumes "pt_inv s f" and "grown s f s1 (f(take k (inner_path v) \<mapsto> c))"
    and "tables s1 = insert c (tables s)" and "c \<notin> tables s" and "k \<le> 3"
    and "budget s = Suc (budget s1)"
    and "tables_made v n s1 (f(take k (inner_path v) \<mapsto> c)) u s'"
  shows "tables_made v (Suc n) s f u s'"
proof -
  let ?f1 = "f(take k (inner_path v) \<mapsto> c)"
  obtain f' where f': "grown s1 ?f1 s' f'" "f' (inner_path v) = Some u"
    and card: "card (tables s' - tables s1) = n" and n: "n \<le> budget s1"
    and new: "\<forall>p. ?f1 p = None \<longrightarrow> f' p \<noteq> None \<longrightarrow> on_path v p"
    using assms(7) unfolding tables_made_def by blast
  have "tables s' - tables s = insert c (tables s' - tables s1)"
    using assms(3,4) f'(1) by (auto simp: grown_def)
  then have "card (tables s' - tables s) = Suc n" using card assms(3) by simp
  moreover have "on_path v p" if "f p = None" "f' p \<noteq> None" for p
    using new that assms(5) by (cases "p = take k (inner_path v)") (auto simp: on_path_def)
  ultimately show ?thesis
    using grown_trans [OF assms(2) f'(1)] f'(2) n assms(6) unfolding tables_made_def by auto
qed

lemma map_tables_ok:
  assumes "pt_inv s f" and "chain (ram (mach s)) f made" and "k \<le> 3"
    and "f (take k (inner_path v)) = Some t"
  shows "case map_tables v (39 - 9 * k) t made s of
      (Some u, s') \<Rightarrow> tables_made v (missing f v k) s f u s'
    | (None, s') \<Rightarrow> budget s < missing f v k \<and> (\<exists>f'. shrunk s f (snd ` set made) s' f')"
  using assms
proof (induction "3 - k" arbitrary: k s f t made)
  case 0
  then have "k = 3" by simp
  with 0 show ?case
    using grown_refl [OF 0(2)] by (auto simp: map_tables_done tables_made_def)
next
  case (Suc d)
  then have k: "k < 3" and d: "d = 3 - Suc k" by simp_all
  let ?i = "inner_path v ! k" and ?p = "take k (inner_path v)" and ?q = "take (Suc k) (inner_path v)"
  have q: "?q = ?p @ [?i]" by (rule level_take [OF k])
  have len: "length ?p < 3" using k by simp
  note unfold = map_tables_step [OF Suc.prems(1) k Suc.prems(4)]
  show ?case
  proof (cases "f ?q")
    case (Some u)
    have "map_tables v (39 - 9 * k) t made s = map_tables v (39 - 9 * Suc k) u made s"
      using unfold Some by simp
    moreover have "missing f v k = missing f v (Suc k)" using missing_step [OF k, of f v] Some by simp
    ultimately show ?thesis
      using Suc.hyps(1) [OF d Suc.prems(1,2) _ Some] k by (simp only: Suc_le_eq)
  next
    case None
    obtain c s1 where new: "new_table s = (c, s1)" by (cases "new_table s")
    show ?thesis
    proof (cases "c = 0")
      case True
      then have "s1 = s" "budget s = 0" using new_table_fail [of s] Suc.prems(1) new by (auto simp: pt_inv_def)
      moreover have "0 < missing f v k" using None missing_step [OF k, of f v] by simp
      ultimately show ?thesis
        using True new None unfold undo_links_ok [OF Suc.prems(1,2)] by simp
    next
      case False
      let ?s2 = "wr t ?i (c OR 3) s1" and ?f2 = "f(?q \<mapsto> c)"
      have none: "f (?p @ [?i]) = None" using None q by simp
      note args = Suc.prems(1,4) len level_less [OF k, of v] none new False
      note nt = new_table_ok [OF pt_inv_tab [OF Suc.prems(1)] new False]
      have gr: "grown s f ?s2 ?f2" unfolding q by (rule grown_step [OF args])
      have ch: "chain (ram (mach ?s2)) ?f2 (((t, ?i), c) # made)"
        unfolding q by (rule chain_grow [OF args Suc.prems(2)])
      have miss: "missing f v k = Suc (missing ?f2 v (Suc k))"
        using None missing_step [OF k, of f v] missing_upd [of "Suc k" f v c] k by simp
      have bud: "budget s = Suc (budget ?s2)" using nt by (simp add: budget_def)
      have inv2: "pt_inv ?s2 ?f2" using gr by (simp add: grown_def)
      have path2: "?f2 ?q = Some c" by simp
      obtain r s' where r: "map_tables v (39 - 9 * Suc k) c (((t, ?i), c) # made) ?s2 = (r, s')"
        by (cases "map_tables v (39 - 9 * Suc k) c (((t, ?i), c) # made) ?s2")
      have res: "map_tables v (39 - 9 * k) t made s = (r, s')"
        unfolding unfold using None new False r by simp
      have IH: "case (r, s') of
          (Some u, s') \<Rightarrow> tables_made v (missing ?f2 v (Suc k)) ?s2 ?f2 u s'
        | (None, s') \<Rightarrow> budget ?s2 < missing ?f2 v (Suc k)
            \<and> (\<exists>f'. shrunk ?s2 ?f2 (snd ` set (((t, ?i), c) # made)) s' f')"
        using Suc.hyps(1) [OF d inv2 ch _ path2] k unfolding r by simp
      show ?thesis
      proof (cases r)
        case None
        then obtain f' where f': "shrunk ?s2 ?f2 (insert c (snd ` set made)) s' f'"
          and "budget ?s2 < missing ?f2 v (Suc k)" using IH by auto
        moreover have "shrunk s f (snd ` set made) s' f'"
        proof (rule grown_shrunk_new [OF Suc.prems(1) gr _ f'])
          show "tables ?s2 = insert c (tables s) \<and> c \<notin> tables s" using nt by simp
          show "snd ` set made \<subseteq> tables s"
            using undo_links_ok [OF Suc.prems(1,2), of v] unfolding shrunk_def by blast
        qed
        ultimately show ?thesis using res None miss bud by auto
      next
        case (Some u)
        then have "tables_made v (missing ?f2 v (Suc k)) ?s2 ?f2 u s'" using IH by simp
        then have "tables_made v (missing f v k) s f u s'"
          using tables_made_grown [OF Suc.prems(1) gr] nt miss bud k by simp
        then show ?thesis using res Some by simp
      qed
    qed
  qed
qed


section \<open>The existing path\<close>

definition path_table :: "table_tree \<Rightarrow> u64 \<Rightarrow> nat \<Rightarrow> u64" where
  "path_table f v k = the (f (take k (inner_path v)))"

lemma path_prefix:
  assumes "page_tree m root T f" and "f (take k (inner_path v)) = Some t" and "j \<le> k" and "k \<le> 3"
  shows "f (take j (inner_path v)) = Some (path_table f v j)"
  using assms(2-4)
proof (induction "k - j" arbitrary: j)
  case 0
  then show ?case by (simp add: path_table_def)
next
  case (Suc d)
  then have "f (take (Suc j) (inner_path v)) = Some (path_table f v (Suc j))" by simp
  moreover have "take (Suc j) (inner_path v) = take j (inner_path v) @ [inner_path v ! j]"
    using Suc.hyps(2) Suc.prems by (intro level_take) simp
  ultimately show ?case using page_tree_parent [OF assms(1)] by (auto simp: path_table_def)
qed

lemma path_from_step:
  assumes inv: "pt_inv s f" and k: "k < 3" and t: "f (take k (inner_path v)) \<noteq> None"
  shows "path_from s v k (map (path_table f v) [0..<Suc k]) (take k (inner_path v)) =
    (if f (take (Suc k) (inner_path v)) = None then None
     else path_from s v (Suc k) (map (path_table f v) [0..<Suc (Suc k)]) (take (Suc k) (inner_path v)))"
proof -
  have "f (take k (inner_path v)) = Some (path_table f v k)" using t by (auto simp: path_table_def)
  note e = rd_entry [OF inv this _ level_less [OF k], of v]
  have "f (take (Suc k) (inner_path v)) = Some (path_table f v (Suc k))"
    if "f (take (Suc k) (inner_path v)) \<noteq> None" using that by (auto simp: path_table_def)
  moreover have "map (path_table f v) [0..<Suc k] ! k = path_table f v k"
    by (simp add: nth_append)
  ultimately show ?thesis
    using e k by (subst path_from.simps) (auto simp: Let_def level_take level_index mult.commute)
qed

lemma path_ok:
  assumes inv: "pt_inv s f"
  shows "path v s = (if present (leaf (ram (mach s)) f v)
    then Some (map (path_table f v) [0..<4], inner_path v @ [pt_index v 12]) else None)"
proof -
  note tree = pt_inv_tree [OF inv]
  have root: "f (take 0 (inner_path v)) \<noteq> None" using page_tree_root [OF tree] by simp
  have start: "[paging_root s] = map (path_table f v) [0..<Suc 0]"
    using page_tree_root [OF tree] by (simp add: path_table_def)
  have up: "f (take (Suc k) (inner_path v)) \<noteq> None \<Longrightarrow> f (take k (inner_path v)) \<noteq> None" if "k < 3" for k
    using path_prefix [OF tree, of "Suc k" v _ k] that by auto
  have "path v s = (if f (inner_path v) = None then None
    else path_from s v 3 (map (path_table f v) [0..<4]) (inner_path v))"
    unfolding path_def start
    using path_from_step [OF inv, of 0 v] path_from_step [OF inv, of 1 v] path_from_step [OF inv, of 2 v]
      root up [of 1] up [of 2] by (auto simp: numeral_eq_Suc)
  moreover have "path_from s v 3 (map (path_table f v) [0..<4]) (inner_path v) =
      (if present (get_entry (ram (mach s)) t (pt_index v 12))
       then Some (map (path_table f v) [0..<4], inner_path v @ [pt_index v 12]) else None)"
    if "f (inner_path v) = Some t" for t
  proof -
    have "map (path_table f v) [0..<4] ! 3 = t" using that by (simp add: path_table_def)
    then show ?thesis
      by (subst path_from.simps) (simp add: Let_def rd_def path_from.simps [of _ _ 4] del: upt_Suc)
  qed
  ultimately show ?thesis by (auto simp: leaf_def leaf_at_def split: option.splits)
qed


section \<open>Releasing empty tables\<close>

definition table_empty :: "memory \<Rightarrow> u64 \<Rightarrow> bool" where
  "table_empty m t \<longleftrightarrow> (\<forall>j < 512. get_entry m t j = 0)"

lemma empty_scan:
  "for_ret 0 512 (\<lambda>i _. if rd s t i \<noteq> 0 then Inl True else Inr ()) () =
     (if table_empty (ram (mach s)) t then Inr () else Inl True)"
proof -
  have "(\<exists>k < unat (512 :: u64). rd s t (of_nat k) \<noteq> 0) \<longleftrightarrow> \<not> table_empty (ram (mach s)) t"
  proof
    assume "\<exists>k < unat (512 :: u64). rd s t (of_nat k) \<noteq> 0"
    then obtain k where "k < 512" "rd s t (of_nat k) \<noteq> 0" by auto
    moreover from this have "(of_nat k :: u64) < 512" by (simp add: word_less_nat_alt unat_of_nat64)
    ultimately show "\<not> table_empty (ram (mach s)) t" by (auto simp: table_empty_def rd_def)
  next
    assume "\<not> table_empty (ram (mach s)) t"
    then obtain j where "j < 512" "rd s t j \<noteq> 0" by (auto simp: table_empty_def rd_def)
    then show "\<exists>k < unat (512 :: u64). rd s t (of_nat k) \<noteq> 0"
      by (intro exI [of _ "unat j"]) (simp add: word_less_nat_alt)
  qed
  then show ?thesis by (simp add: for_ret_search_unit)
qed

text \<open>
  The release loop removes the tables of the path from the bottom as long as they are
  empty; the lowest table that stays is not empty, unless it is the root.
\<close>

lemma prune_ok:
  assumes "pt_inv s f" and "k \<le> 3" and "f (take k (inner_path v)) \<noteq> None"
    and "\<forall>j \<le> k. ts ! j = path_table f v j" and "\<forall>j < k. is ! j = inner_path v ! j"
  shows "\<exists>f' D n. shrunk s f D (prune v ts is k s) f' \<and> n \<le> k
    \<and> f' = (\<lambda>p. if \<exists>j. n < j \<and> j \<le> k \<and> p = take j (inner_path v) then None else f p)
    \<and> (n = 0 \<or> \<not> table_empty (ram (mach (prune v ts is k s))) (path_table f v n))"
  using assms
proof (induction k arbitrary: s f)
  case 0
  then show ?case using shrunk_refl by (intro exI [of _ f] exI [of _ "{}"] exI [of _ 0]) auto
next
  case (Suc k)
  let ?c = "ts ! Suc k" and ?t = "ts ! k" and ?i = "is ! k" and ?p = "take k (inner_path v)"
  note tree = pt_inv_tree [OF Suc.prems(1)]
  have k: "k < 3" using Suc.prems(2) by simp
  have q: "take (Suc k) (inner_path v) = ?p @ [?i]" using level_take [OF k] Suc.prems(5) by simp
  have c: "f (?p @ [?i]) = Some ?c" using Suc.prems(3,4) q by (auto simp: path_table_def)
  have t: "f ?p = Some ?t"
    using path_prefix [OF tree, of "Suc k" v ?c k] c q Suc.prems(2,4) by simp
  have i: "?i < 512" using Suc.prems(5) k by simp
  show ?case
  proof (cases "table_empty (ram (mach s)) ?c")
    case False
    then have "prune v ts is (Suc k) s = s" by (simp add: empty_scan)
    moreover have "(\<lambda>p. if \<exists>j. Suc k < j \<and> j \<le> Suc k \<and> p = take j (inner_path v) then None else f p) = f"
      by (intro ext) auto
    ultimately show ?thesis
      using shrunk_refl [OF Suc.prems(1)] False Suc.prems(4)
      by (intro exI [of _ f] exI [of _ "{}"] exI [of _ "Suc k"]) auto
  next
    case True
    let ?s = "release_table ?c (invalidate v (wr ?t ?i 0 s))" and ?f = "f(?p @ [?i] := None)"
    have st: "shrunk s f {?c} ?s ?f"
      using True by (intro shrunk_step [OF Suc.prems(1) t i c]) (simp add: table_empty_def)
    have eq: "prune v ts is (Suc k) s = prune v ts is k ?s" using True by (simp add: empty_scan)
    have same: "?f (take j (inner_path v)) = f (take j (inner_path v))" if "j \<le> k" for j
    proof -
      have "length (take j (inner_path v)) \<noteq> length (take (Suc k) (inner_path v))" using that k by simp
      then have "take j (inner_path v) \<noteq> ?p @ [?i]" unfolding q [symmetric] by metis
      then show ?thesis by simp
    qed
    have 1: "pt_inv ?s ?f" using st by (simp only: shrunk_def)
    have 2: "k \<le> 3" using k by simp
    have 3: "?f ?p \<noteq> None" using same [of k] t by simp
    have 4: "\<forall>j \<le> k. ts ! j = path_table ?f v j" using same Suc.prems(4) by (simp add: path_table_def)
    have 5: "\<forall>j < k. is ! j = inner_path v ! j" using Suc.prems(5) by simp
    obtain f' D n where n: "shrunk ?s ?f D (prune v ts is k ?s) f'" "n \<le> k"
      and f': "f' = (\<lambda>p. if \<exists>j. n < j \<and> j \<le> k \<and> p = take j (inner_path v) then None else ?f p)"
      and e: "n = 0 \<or> \<not> table_empty (ram (mach (prune v ts is k ?s))) (path_table ?f v n)"
      using Suc.IH [OF 1 2 3 4 5] by blast
    have "f' = (\<lambda>p. if \<exists>j. n < j \<and> j \<le> Suc k \<and> p = take j (inner_path v) then None else f p)"
    proof
      fix p
      have "n < Suc k" using n(2) by simp
      then have "(\<exists>j. n < j \<and> j \<le> Suc k \<and> p = take j (inner_path v)) \<longleftrightarrow>
          p = ?p @ [?i] \<or> (\<exists>j. n < j \<and> j \<le> k \<and> p = take j (inner_path v))"
        unfolding q [symmetric] le_Suc_eq by blast
      then show "f' p = (if \<exists>j. n < j \<and> j \<le> Suc k \<and> p = take j (inner_path v) then None else f p)"
        unfolding f' by auto
    qed
    moreover have "path_table ?f v n = path_table f v n" using same [OF n(2)] by (simp add: path_table_def)
    ultimately show ?thesis
      unfolding eq using shrunk_trans [OF st n(1)] n(2) e
      by (intro exI [of _ f'] exI [of _ "{?c} \<union> D"] exI [of _ n]) auto
  qed
qed

end
