(* ===== verification/PagingSpec.thy ===== *)
theory PagingSpec
  imports PagingDyn
begin

text \<open>
  The operations of the dynamic window against an abstract address space, a partial map
  from pages to a frame with access rights. The locale \<open>address_space\<close> states what the
  four operations promise; its interpretation on \<open>paging_map\<close>, \<open>paging_unmap\<close>,
  \<open>paging_protect\<close> and \<open>paging_query\<close> discharges it for the code.
\<close>

section \<open>Virtual pages\<close>

definition canonical :: "u64 \<Rightarrow> bool" where
  "canonical v \<longleftrightarrow> v < 0x800000000000 \<or> v \<ge> 0xffff800000000000"

definition vpage :: "u64 \<Rightarrow> bool" where
  "vpage v \<longleftrightarrow> page_aligned v \<and> canonical v"

lemma bit_less_exp: "v < 0x800000000000 \<Longrightarrow> \<not> bit (v :: u64) k" if "47 \<le> k"
proof -
  assume "v < 0x800000000000"
  then have "unat v < 2 ^ 47" by (simp add: word_less_nat_alt)
  then have "v = take_bit 47 v" by (simp add: take_bit_eq_mod word_unat_eq_iff unat_mod)
  then show ?thesis using that by (metis bit_take_bit_iff not_less)
qed

lemma bit_high: "v \<ge> 0xffff800000000000 \<Longrightarrow> bit (v :: u64) k" if "47 \<le> k" "k < 64"
proof -
  assume v: "v \<ge> 0xffff800000000000"
  have "NOT v = - 1 - v" by (simp add: not_eq_complement)
  moreover have "unat (- 1 - v) = 2 ^ 64 - 1 - unat v"
    using unat_sub [of v "- 1"] unat_UINT64_MAX by simp
  moreover have "0xffff800000000000 \<le> unat v" using v by (simp add: word_le_nat_alt)
  ultimately have "unat (NOT v) < 0x800000000000" by simp
  then have "\<not> bit (NOT v) k" using bit_less_exp [OF that(1), of "NOT v"] by (simp add: word_less_nat_alt)
  then show ?thesis using that by (simp add: bit_not_iff)
qed

lemma canonical_bit: "canonical v \<Longrightarrow> 47 \<le> k \<Longrightarrow> k < 64 \<Longrightarrow> bit v k \<longleftrightarrow> bit v 47"
  using bit_less_exp [of 47 v] bit_less_exp [of k v] bit_high [of 47 v] bit_high [of k v]
  by (auto simp: canonical_def)

lemma bit_511: "bit (511 :: u64) j \<longleftrightarrow> j < 9"
  using bit_mask_iff [of 9 j, where ?'a = u64] by (auto simp: mask_eq_exp_minus_1)

lemma bit_pt_index: "bit (pt_index v shift) j \<longleftrightarrow> j < 9 \<and> bit v (shift + j)"
  unfolding pt_index_def bit_and_iff bit_drop_bit_eq comp_def using bit_511 [of j] by blast

lemma same_page_iff:
  assumes "vpage v" and "vpage w"
  shows "same_page v w \<longleftrightarrow> v = w"
proof
  assume same: "same_page v w"
  have idx: "bit v (shift + j) \<longleftrightarrow> bit w (shift + j)" if "j < 9" "shift \<in> {12, 21, 30, 39}" for shift j
    using bit_pt_index [of v shift j] bit_pt_index [of w shift j] that same
    by (auto simp: same_page_def inner_path_def)
  have mid: "bit v k \<longleftrightarrow> bit w k" if "12 \<le> k" "k < 48" for k
  proof -
    have "k - 12 < 9 \<or> (21 \<le> k \<and> k - 21 < 9) \<or> (30 \<le> k \<and> k - 30 < 9) \<or> (39 \<le> k \<and> k - 39 < 9)"
      using that by linarith
    then show ?thesis
      using idx [of "k - 12" 12] idx [of "k - 21" 21] idx [of "k - 30" 30] idx [of "k - 39" 39] that
      by auto
  qed
  show "v = w"
  proof (rule bit_word_eqI)
    fix k assume k: "k < LENGTH(64)"
    consider "k < 12" | "12 \<le> k" "k < 48" | "48 \<le> k" by linarith
    then show "bit v k \<longleftrightarrow> bit w k"
    proof cases
      case 1
      then show ?thesis
        using page_aligned_bit [of v k] page_aligned_bit [of w k] assms unfolding vpage_def by linarith
    next
      case 2
      then show ?thesis by (rule mid)
    next
      case 3
      then have "47 \<le> k" "k < 64" using k by simp_all
      then show ?thesis
        using canonical_bit [of v k] canonical_bit [of w k] mid [of 47] assms unfolding vpage_def by simp
    qed
  qed
qed (simp add: same_page_def)

lemma and_4095_iff: "(v :: u64) AND 4095 = 0 \<longleftrightarrow> page_aligned v"
proof -
  have "v AND 4095 = take_bit 12 v" by (simp add: take_bit_eq_mask mask_eq_exp_minus_1)
  then show ?thesis by (simp add: page_aligned_def take_bit_eq_mod)
qed

lemma page_base: "page_aligned v \<Longrightarrow> v AND NOT 4095 = v"
  using page_aligned_bit [of v]
  by (intro bit_word_eqI)
    (metis (no_types, lifting) and_4095_iff and_zero_eq bit.conj_cancel_right bit.conj_disj_distrib
      bit.disj_cancel_right or.right_neutral and.right_neutral)

lemma dynamic_vpage: "dynamic_address v s \<Longrightarrow> vpage v"
  by (simp add: dynamic_address_def vpage_def canonical_def and_4095_iff)

lemma dynamic_root_index:
  assumes "dynamic_address v s"
  shows "pt_index v 39 = 256"
proof -
  have v: "v \<ge> PAGING_DYNAMIC_BASE" "v - PAGING_DYNAMIC_BASE < PAGING_DYNAMIC_SIZE"
    using assms by (simp_all add: dynamic_address_def)
  then have "unat (v - PAGING_DYNAMIC_BASE) = unat v - 0xffff800000000000"
    by (simp add: unat_sub)
  then have "unat v - 0xffff800000000000 < 0x8000000000" "0xffff800000000000 \<le> unat v"
    using v by (simp_all add: word_less_nat_alt word_le_nat_alt)
  then have "unat v div 2 ^ 39 = 0x1ffff00" by simp
  moreover have "unat (drop_bit 39 v) = unat v div 2 ^ 39"
    by (simp add: drop_bit_eq_div unat_div)
  ultimately have "drop_bit 39 v = 0x1ffff00" by (simp add: word_unat_eq_iff)
  then show ?thesis by (simp add: pt_index_def)
qed

lemma same_page_refl [simp]: "same_page v v"
  by (simp add: same_page_def)


section \<open>Leaf entries\<close>

definition valid_flags :: "u32 \<Rightarrow> bool" where
  "valid_flags flags \<longleftrightarrow> flags AND NOT (PAGING_WRITE OR PAGING_EXEC) = 0"

definition make_mapping :: "u64 \<Rightarrow> u32 \<Rightarrow> mapping" where
  "make_mapping physical flags =
     \<lparr>frame_of = physical, writable = flags AND PAGING_WRITE \<noteq> 0, executable = flags AND PAGING_EXEC \<noteq> 0\<rparr>"

definition flags_of :: "mapping \<Rightarrow> u32" where
  "flags_of mp = (if writable mp then PAGING_WRITE else 0) OR (if executable mp then PAGING_EXEC else 0)"

lemma bit_NX: "bit (NX :: u64) k \<longleftrightarrow> k = 63"
  using bit_exp_iff [of 63 k, where ?'a = u64] by auto

lemma leaf_flags_bits:
  "bit (leaf_flags flags) 0" "bit (leaf_flags flags) (Suc 0) \<longleftrightarrow> flags AND PAGING_WRITE \<noteq> 0"
  "bit (leaf_flags flags) 63 \<longleftrightarrow> flags AND PAGING_EXEC = 0" "leaf_flags flags AND ADDRESS_MASK = 0"
  by (simp_all add: leaf_flags_def)

lemma leaf_entry_present: "present (c OR leaf_flags flags)"
  using leaf_flags_bits(1) by (simp add: and_1_iff bit_or_iff)

lemma leaf_entry_nonzero: "c OR leaf_flags flags \<noteq> 0"
  using leaf_entry_present [of c flags] by auto

lemma decode_leaf: "table_addr c \<Longrightarrow> decode (c OR leaf_flags flags) = Some (make_mapping c flags)"
  using leaf_entry_present [of c flags] entry_bit [of c "Suc 0" "leaf_flags flags"]
    entry_bit [of c 63 "leaf_flags flags"] entry_address [of c "leaf_flags flags"]
  by (simp add: decode_def make_mapping_def leaf_flags_bits)

lemma unat_numeral_4: "unat (4 :: u32) = 4"
  by simp

lemma valid_flags_cases:
  assumes "valid_flags flags"
  shows "flags = 0 \<or> flags = 1 \<or> flags = 2 \<or> flags = 3"
proof -
  have "flags AND NOT (mask 2) = 0" using assms by (simp add: valid_flags_def mask_eq_exp_minus_1)
  then have "\<not> bit (flags AND NOT (mask 2)) k" for k by (simp only: bit_0_eq) simp
  then have "flags = take_bit 2 flags"
    by (intro bit_word_eqI) (auto simp: bit_and_iff bit_not_iff bit_mask_iff bit_take_bit_iff)
  also have "\<dots> = flags mod 4" by (simp add: take_bit_eq_mod)
  finally have "unat flags = unat flags mod 4" by (metis unat_mod unat_numeral_4)
  then have "unat flags < 4" by (metis mod_less_divisor zero_less_numeral)
  then have "unat flags = 0 \<or> unat flags = 1 \<or> unat flags = 2 \<or> unat flags = 3" by linarith
  then show ?thesis by (simp add: word_unat_eq_iff)
qed

lemma flags_of_make: "valid_flags flags \<Longrightarrow> flags_of (make_mapping c flags) = flags"
  using valid_flags_cases [of flags] by (auto simp: flags_of_def make_mapping_def)


section \<open>What the operations do to the tree\<close>

text \<open>No table under the window's root entry is empty.\<close>

definition compact :: "memory \<Rightarrow> table_tree \<Rightarrow> bool" where
  "compact m f \<longleftrightarrow> (\<forall>p t. f p = Some t \<longrightarrow> p \<noteq> [] \<longrightarrow> hd p = 256 \<longrightarrow>
     (\<exists>i < 512. if length p < 3 then f (p @ [i]) \<noteq> None else leaf_at m f p i \<noteq> 0))"

definition map_guard :: "u64 \<Rightarrow> u64 \<Rightarrow> u32 \<Rightarrow> paging \<Rightarrow> bool" where
  "map_guard v physical flags s \<longleftrightarrow> dynamic_address v s \<and> valid_flags flags
     \<and> physical \<in> pmm_used (pm s) \<and> physical \<notin> tables s"

lemma table_search:
  assumes "tab_inv s"
  shows "for_ret 0 (paging_table_count s) (\<lambda>i _. if table_pages s ! unat i = a then Inl r else Inr ()) () =
    (if a \<in> tables s then Inl r else Inr ())"
proof -
  have n: "unat (paging_table_count s) \<le> 4096" "length (table_pages s) = 4096"
    using assms by (simp_all add: tab_inv_def)
  then have "(\<exists>k < unat (paging_table_count s). table_pages s ! unat (of_nat k :: u64) = a) \<longleftrightarrow>
      (\<exists>k < unat (paging_table_count s). table_pages s ! k = a)"
    by (intro ex_cong1) (auto simp: unat_of_nat64)
  also have "\<dots> \<longleftrightarrow> a \<in> tables s" using n by (auto simp: table_list_def in_set_conv_nth)
  finally show ?thesis by (simp add: for_ret_search_unit)
qed

lemma paging_map_eq:
  assumes "tab_inv s"
  shows "paging_map v physical flags s =
    (if \<not> map_guard v physical flags s then (False, s)
     else case map_tables v 39 (paging_root s) [] s of
         (None, s) \<Rightarrow> (False, s)
       | (Some table, s) \<Rightarrow>
           if present (rd s table (pt_index v 12)) then (False, s)
           else (True, invalidate v (wr table (pt_index v 12) (physical OR leaf_flags flags) s)))"
  using assms pmm_is_allocated_iff [of "pm s" physical] unfolding paging_map_def Let_def
  by (auto simp: map_guard_def valid_flags_def table_search tab_inv_def)

lemma tree_le_eq:
  assumes "page_tree m root T f" and "page_tree m' root' T f'" and "f' \<subseteq>\<^sub>m f"
  shows "f' = f"
proof
  fix p
  show "f' p = f p"
  proof (cases "f p")
    case None
    then show ?thesis using assms(3) by (metis domIff map_le_def)
  next
    case (Some t)
    then obtain q where q: "f' q = Some t"
      using page_tree_addr [OF assms(1) Some] page_tree_reach [OF assms(2)] by blast
    then have "f q = Some t" using assms(3) unfolding map_le_def by (metis domI)
    then have "p = q" using page_tree_eq_iff [OF assms(1) Some] by blast
    then show ?thesis using q Some by simp
  qed
qed

lemma missing_0_iff:
  assumes "page_tree m root T f"
  shows "missing f v 0 = 0 \<longleftrightarrow> f (inner_path v) \<noteq> None"
proof -
  have "finite {j. 0 < j \<and> j \<le> 3 \<and> f (take j (inner_path v)) = None}"
    by (rule finite_subset [of _ "{..3}"]) auto
  then have "missing f v 0 = 0 \<longleftrightarrow> (\<forall>j. 0 < j \<longrightarrow> j \<le> 3 \<longrightarrow> f (take j (inner_path v)) \<noteq> None)"
    by (auto simp: missing_def)
  also have "\<dots> \<longleftrightarrow> f (inner_path v) \<noteq> None"
    using path_prefix [OF assms, of 3 v] by (auto dest: spec [of _ 3])
  finally show ?thesis .
qed

lemma unchanged_tree:
  assumes "pt_inv s f" and "grown s f s' f'" and "card (tables s' - tables s) = 0"
  shows "f' = f" and "tables s' = tables s"
    and "pmm_used (pm s') = pmm_used (pm s)" and "pmm_avail (pm s') = pmm_avail (pm s)"
proof -
  have t: "tables s' - tables s = {}" using assms(3) by simp
  then show tables: "tables s' = tables s" using assms(2) by (auto simp: grown_def)
  show "pmm_used (pm s') = pmm_used (pm s)" and "pmm_avail (pm s') = pmm_avail (pm s)"
    using assms(2) t by (auto simp: grown_def)
  have "f = f'"
    using assms tables by (intro tree_le_eq [of "ram (mach s')" "paging_root s'" "tables s" f'])
      (auto simp: grown_def pt_inv_def)
  then show "f' = f" by simp
qed

text \<open>
  \<open>paging_map\<close> succeeds exactly when the request is well formed, the page is free and the
  missing tables can be made. On failure everything is as before.
\<close>

definition map_possible :: "u64 \<Rightarrow> u64 \<Rightarrow> u32 \<Rightarrow> paging \<Rightarrow> table_tree \<Rightarrow> bool" where
  "map_possible v physical flags s f \<longleftrightarrow> map_guard v physical flags s
     \<and> leaf (ram (mach s)) f v = 0 \<and> missing f v 0 \<le> budget s"

lemma paging_map_fails:
  assumes inv: "pt_inv s f" and no: "\<not> map_possible v physical flags s f"
  shows "\<exists>s'. paging_map v physical flags s = (False, s') \<and> pt_inv s' f \<and> same_ctl s s'
    \<and> same_leaves (ram (mach s)) f (ram (mach s')) f \<and> tables s' = tables s
    \<and> pmm_used (pm s') = pmm_used (pm s) \<and> pmm_avail (pm s') = pmm_avail (pm s)"
proof (cases "map_guard v physical flags s")
  case False
  then show ?thesis using inv by (simp add: paging_map_eq pt_inv_tab)
next
  case guard: True
  note eq = paging_map_eq [OF pt_inv_tab [OF inv], of v physical flags]
  note tree = pt_inv_tree [OF inv]
  obtain r s1 where r: "map_tables v 39 (paging_root s) [] s = (r, s1)"
    by (cases "map_tables v 39 (paging_root s) [] s")
  have loop: "case (r, s1) of (Some u, s') \<Rightarrow> tables_made v (missing f v 0) s f u s'
      | (None, s') \<Rightarrow> budget s < missing f v 0 \<and> (\<exists>f'. shrunk s f {} s' f')"
    using map_tables_ok [OF inv, of "[]" 0 v "paging_root s"] page_tree_root [OF tree] r by (auto split: option.splits)
  show ?thesis
  proof (cases r)
    case None
    then obtain f' where f': "shrunk s f {} s1 f'" using loop by auto
    have "f' = f" using f' tree by (intro tree_le_eq [of _ _ "tables s"]) (auto simp: shrunk_def pt_inv_def)
    then show ?thesis using f' None r guard unfolding eq by (auto simp: shrunk_def)
  next
    case (Some u)
    then obtain f' where f': "grown s f s1 f'" "f' (inner_path v) = Some u"
      and n: "card (tables s1 - tables s) = missing f v 0" and b: "missing f v 0 \<le> budget s"
      using loop by (auto simp: tables_made_def)
    have leaf1: "rd s1 u (pt_index v 12) = leaf (ram (mach s)) f v"
      using f' by (auto simp: grown_def rd_def leaf_at_def leaf_def dest!: same_leaves_leaf [of _ _ _ _ v])
    have nz: "leaf (ram (mach s)) f v \<noteq> 0" using no guard b by (simp add: map_possible_def)
    then obtain t where t: "f (inner_path v) = Some t" by (cases "f (inner_path v)") (auto simp: leaf_def leaf_at_def)
    then have "present (leaf (ram (mach s)) f v)"
      using page_tree_leaf_entry [OF tree t, of "pt_index v 12"] nz by (simp add: leaf_def leaf_at_def)
    moreover have "missing f v 0 = 0" using missing_0_iff [OF tree] t by simp
    ultimately show ?thesis
      using unchanged_tree [OF inv f'(1)] n f' leaf1 r Some guard unfolding eq by (auto simp: grown_def)
  qed
qed


definition leaf_set :: "u64 \<Rightarrow> u64 \<Rightarrow> memory \<Rightarrow> table_tree \<Rightarrow> memory \<Rightarrow> table_tree \<Rightarrow> bool" where
  "leaf_set v e m f m' f' \<longleftrightarrow> (\<forall>q j. length q = 3 \<longrightarrow> j < 512 \<longrightarrow>
     leaf_at m' f' q j = (if q = inner_path v \<and> j = pt_index v 12 then e else leaf_at m f q j))"

lemma leaf_set_leaf':
  "leaf_set v e m f m' f' \<Longrightarrow> leaf m' f' w = (if same_page v w then e else leaf m f w)"
  by (auto simp: leaf_set_def leaf_def same_page_def)

lemma invalidate_tlb: "page_aligned v \<Longrightarrow> tlb (mach (invalidate v s)) v = None"
  using page_base [of v] by (simp add: invalidate_def x86_invalidate_page_def)

lemma paging_map_works:
  assumes inv: "pt_inv s f" and possible: "map_possible v physical flags s f"
  shows "\<exists>s' f'. paging_map v physical flags s = (True, s') \<and> pt_inv s' f' \<and> same_ctl s s'
    \<and> leaf_set v (physical OR leaf_flags flags) (ram (mach s)) f (ram (mach s')) f'
    \<and> f \<subseteq>\<^sub>m f' \<and> f' (inner_path v) \<noteq> None \<and> (\<forall>p. f p = None \<longrightarrow> f' p \<noteq> None \<longrightarrow> on_path v p)
    \<and> tables s \<subseteq> tables s' \<and> card (tables s' - tables s) = missing f v 0
    \<and> tables s' - tables s \<subseteq> pmm_avail (pm s)
    \<and> pmm_used (pm s') = pmm_used (pm s) \<union> (tables s' - tables s)
    \<and> pmm_avail (pm s') = pmm_avail (pm s) - (tables s' - tables s)
    \<and> tlb (mach s') v = None"
proof -
  note eq = paging_map_eq [OF pt_inv_tab [OF inv], of v physical flags]
  note tree = pt_inv_tree [OF inv]
  have guard: "map_guard v physical flags s" and free: "leaf (ram (mach s)) f v = 0"
    and room: "missing f v 0 \<le> budget s" using possible by (simp_all add: map_possible_def)
  obtain r s1 where r: "map_tables v 39 (paging_root s) [] s = (r, s1)"
    by (cases "map_tables v 39 (paging_root s) [] s")
  have "case (r, s1) of (Some u, s') \<Rightarrow> tables_made v (missing f v 0) s f u s'
      | (None, s') \<Rightarrow> budget s < missing f v 0 \<and> (\<exists>f'. shrunk s f {} s' f')"
    using map_tables_ok [OF inv, of "[]" 0 v "paging_root s"] page_tree_root [OF tree] r
    by (auto split: option.splits)
  then obtain u f' where u: "r = Some u" and gr: "grown s f s1 f'" and f': "f' (inner_path v) = Some u"
    and card: "card (tables s1 - tables s) = missing f v 0"
    and new: "\<forall>p. f p = None \<longrightarrow> f' p \<noteq> None \<longrightarrow> on_path v p"
    using room by (cases r) (auto simp: tables_made_def)
  let ?e = "physical OR leaf_flags flags"
  let ?s = "invalidate v (wr u (pt_index v 12) ?e s1)"
  have same: "same_leaves (ram (mach s)) f (ram (mach s1)) f'" and inv1: "pt_inv s1 f'"
    using gr by (simp_all only: grown_def)
  note tree1 = pt_inv_tree [OF inv1]
  have "rd s1 u (pt_index v 12) = 0"
    using same_leaves_leaf [OF same, of v] free f' by (simp add: rd_def leaf_def leaf_at_def)
  then have run: "paging_map v physical flags s = (True, ?s)" unfolding eq using guard r u by simp
  have "pt_inv ?s f'"
    using inv1 page_tree_set_leaf [OF tree1 f', of "pt_index v 12" ?e] leaf_entry_present
    by (simp add: pt_inv_def)
  moreover have "leaf_set v ?e (ram (mach s)) f (ram (mach ?s)) f'"
    using same leaf_at_set_leaf [OF tree1 f', of "pt_index v 12"] by (simp add: leaf_set_def same_leaves_def)
  moreover have "tlb (mach ?s) v = None"
    using guard dynamic_vpage by (intro invalidate_tlb) (auto simp: map_guard_def vpage_def)
  moreover have "same_ctl s ?s"
    using gr same_ctl_trans [of s s1] same_ctl_trans [of s "wr u (pt_index v 12) ?e s1" ?s] by (simp add: grown_def)
  ultimately show ?thesis using run gr f' card new by (intro exI [of _ ?s] exI [of _ f']) (auto simp: grown_def)
qed

lemma on_path_hd:
  assumes "on_path v p" and "p \<noteq> []" and "dynamic_address v s"
  shows "hd p = 256"
  using assms dynamic_root_index [OF assms(3)] by (auto simp: on_path_def inner_path_def take_Cons' split: if_splits)

lemma compact_map:
  assumes tree': "page_tree m' root T f'" and c: "compact m f" and le: "f \<subseteq>\<^sub>m f'"
    and leaf: "leaf_set v e m f m' f'" and e: "e \<noteq> 0" and v: "f' (inner_path v) \<noteq> None"
    and new: "\<forall>p. f p = None \<longrightarrow> f' p \<noteq> None \<longrightarrow> on_path v p"
  shows "compact m' f'"
  unfolding compact_def
proof (intro allI impI)
  fix p t assume p: "f' p = Some t" "p \<noteq> []" "hd p = 256"
  have sub: "f q \<noteq> None \<Longrightarrow> f' q \<noteq> None" for q using le unfolding map_le_def by (metis domIff)
  have len: "length p \<le> 3" using page_tree_length [OF tree' p(1)] .
  show "\<exists>i < 512. if length p < 3 then f' (p @ [i]) \<noteq> None else leaf_at m' f' p i \<noteq> 0"
  proof (cases "f p")
    case (Some t')
    then obtain i where i: "i < 512" "if length p < 3 then f (p @ [i]) \<noteq> None else leaf_at m f p i \<noteq> 0"
      using c p unfolding compact_def by blast
    then show ?thesis using sub [of "p @ [i]"] leaf e len by (intro exI [of _ i]) (auto simp: leaf_set_def)
  next
    case None
    then obtain j where j: "j \<le> 3" "p = take j (inner_path v)" using new p(1) by (auto simp: on_path_def)
    show ?thesis
    proof (cases "j < 3")
      case True
      then have "f' (take (Suc j) (inner_path v)) \<noteq> None"
        using path_prefix [OF tree', of 3 v _ "Suc j"] v by auto
      then show ?thesis using True j level_take [OF True, of v] by (auto intro: exI [of _ "inner_path v ! j"])
    next
      case False
      then have "p = inner_path v" using j by simp
      then show ?thesis using leaf e by (intro exI [of _ "pt_index v 12"]) (auto simp: leaf_set_def)
    qed
  qed
qed

text \<open>Under a table of the window there is a mapped page.\<close>

lemma compact_leaf:
  assumes tree: "page_tree m root T f" and c: "compact m f" and p: "f p = Some t" "p \<noteq> []" "hd p = 256"
  shows "\<exists>q j. length q = 3 \<and> j < 512 \<and> take (length p) q = p \<and> leaf_at m f q j \<noteq> 0"
  using p
proof (induction "3 - length p" arbitrary: p t)
  case 0
  then have len: "length p = 3" using page_tree_length [OF tree 0(2)] by simp
  then obtain i where "i < 512" "leaf_at m f p i \<noteq> 0"
    using c 0(2-4) unfolding compact_def by (metis less_irrefl)
  then show ?case using len by (intro exI [of _ p] exI [of _ i]) simp
next
  case (Suc d)
  have lt: "length p < 3" using Suc.hyps(2) by simp
  then obtain i where i: "i < 512" "f (p @ [i]) \<noteq> None" using c Suc.prems unfolding compact_def by meson
  have "d = 3 - length (p @ [i])" "p @ [i] \<noteq> []" "hd (p @ [i]) = 256"
    using Suc.hyps(2) Suc.prems by simp_all
  then obtain q j where "length q = 3" "j < 512" "take (Suc (length p)) q = p @ [i]" "leaf_at m f q j \<noteq> 0"
    using Suc.hyps(1) [of "p @ [i]"] i(2) by auto
  moreover from this have "take (length p) q = p"
    by (metis append_eq_conv_conj min.absorb1 take_take le_add2 plus_1_eq_Suc)
  ultimately show ?case by blast
qed


lemma path_last:
  assumes "pt_inv s f" and "f (inner_path v) = Some t"
  shows "map (path_table f v) [0..<4] ! 3 = t" and "(inner_path v @ [pt_index v 12]) ! 3 = pt_index v 12"
  using assms by (simp_all add: path_table_def nth_append)

lemma leaf_table:
  assumes "leaf m f v \<noteq> 0"
  obtains t where "f (inner_path v) = Some t" and "leaf m f v = get_entry m t (pt_index v 12)"
  using assms by (cases "f (inner_path v)") (auto simp: leaf_def leaf_at_def)

lemma leaf_present:
  assumes "page_tree m root T f"
  shows "present (leaf m f v) \<longleftrightarrow> leaf m f v \<noteq> 0"
  using leaf_table [of m f v] page_tree_leaf_entry [OF assms, of "inner_path v" _ "pt_index v 12"]
  by fastforce

lemma compact_prune:
  assumes tree': "page_tree m' root T' f'" and c: "compact m f" and leaf: "leaf_set v 0 m f m' f'"
    and n: "n \<le> 3" and f': "f' = (\<lambda>p. if \<exists>j. n < j \<and> j \<le> 3 \<and> p = take j (inner_path v) then None else f p)"
    and keep: "f (take n (inner_path v)) \<noteq> None"
    and e: "n = 0 \<or> \<not> table_empty m' (path_table f v n)"
  shows "compact m' f'"
  unfolding compact_def
proof (intro allI impI)
  fix p t assume p: "f' p = Some t" "p \<noteq> []" "hd p = 256"
  have len: "length p \<le> 3" using page_tree_length [OF tree' p(1)] .
  have fp: "f p = Some t" using p(1) by (simp add: f' split: if_splits)
  show "\<exists>i < 512. if length p < 3 then f' (p @ [i]) \<noteq> None else leaf_at m' f' p i \<noteq> 0"
  proof (cases "\<exists>j \<le> n. p = take j (inner_path v)")
    case True
    then obtain j where j: "j \<le> n" "p = take j (inner_path v)" by blast
    have lj: "length p = j" using j n by simp
    show ?thesis
    proof (cases "j = n")
      case True
      have "path_table f v n = t" using fp j True by (simp add: path_table_def)
      then obtain i where i: "i < 512" "get_entry m' t i \<noteq> 0"
        using e p(2) j True by (auto simp: table_empty_def)
      then show ?thesis
        using page_tree_entry [OF tree' p(1)] p(1) by (intro exI [of _ i]) (auto simp: leaf_at_def split: option.splits)
    next
      case False
      then have lt: "j < 3" "Suc j \<le> n" using j n by simp_all
      have "f' (take (Suc j) (inner_path v)) \<noteq> None"
      proof -
        have "take n (inner_path v) \<noteq> take i (inner_path v)" if "n < i" "i \<le> 3" for i
          using that n by (metis length_inner_path length_take min.absorb2 nless_le)
        then have "f' (take n (inner_path v)) \<noteq> None" using keep by (auto simp: f')
        then show ?thesis using path_prefix [OF tree', of n v _ "Suc j"] lt n by auto
      qed
      then show ?thesis
        using lt j lj level_take [OF lt(1), of v] by (auto intro: exI [of _ "inner_path v ! j"])
    qed
  next
    case False
    obtain i where i: "i < 512" "if length p < 3 then f (p @ [i]) \<noteq> None else leaf_at m f p i \<noteq> 0"
      using c fp p(2,3) unfolding compact_def by blast
    have off: "p \<noteq> take j (inner_path v)" if "j \<le> 3" for j
      using that False p(1) by (cases "j \<le> n") (auto simp: f' split: if_splits)
    have child: "f' (p @ [i]) = f (p @ [i])"
    proof -
      have "p @ [i] \<noteq> take j (inner_path v)" if "j \<le> 3" for j
      proof
        assume eq: "p @ [i] = take j (inner_path v)"
        then have "butlast (p @ [i]) = take (j - 1) (inner_path v)" using that by (simp add: butlast_take)
        moreover have "j - 1 \<le> 3" using that by simp
        ultimately show False using off [of "j - 1"] by simp
      qed
      then show ?thesis by (auto simp: f')
    qed
    show ?thesis
      using i child off [of 3] leaf len by (intro exI [of _ i]) (auto simp: leaf_set_def)
  qed
qed


lemma paging_unmap_works:
  assumes inv: "pt_inv s f" and dyn: "dynamic_address v s" and mapped: "leaf (ram (mach s)) f v \<noteq> 0"
  shows "\<exists>s' f'. paging_unmap v s = (True, s') \<and> pt_inv s' f' \<and> same_ctl s s'
    \<and> leaf_set v 0 (ram (mach s)) f (ram (mach s')) f' \<and> f' \<subseteq>\<^sub>m f
    \<and> (\<forall>p. f p \<noteq> None \<longrightarrow> f' p = None \<longrightarrow> p \<noteq> [] \<and> on_path v p) \<and> tables s' \<subseteq> tables s
    \<and> pmm_used (pm s') = pmm_used (pm s) - (tables s - tables s')
    \<and> pmm_avail (pm s') = pmm_avail (pm s) \<union> (tables s - tables s')
    \<and> tlb (mach s') v = None \<and> (compact (ram (mach s)) f \<longrightarrow> compact (ram (mach s')) f')"
proof -
  note tree = pt_inv_tree [OF inv]
  obtain t where t: "f (inner_path v) = Some t" using leaf_table [OF mapped] by blast
  let ?ts = "map (path_table f v) [0..<4]" and ?is = "inner_path v @ [pt_index v 12]"
  let ?s1 = "invalidate v (wr t (pt_index v 12) 0 s)"
  have run: "paging_unmap v s = (True, prune v ?ts ?is 3 ?s1)"
    using dyn path_ok [OF inv, of v] leaf_present [OF tree] mapped path_last [OF inv t]
    by (simp add: paging_unmap_def)
  have inv1: "pt_inv ?s1 f"
    using inv page_tree_set_leaf [OF tree t, of "pt_index v 12" 0] by (simp add: pt_inv_def)
  have leaf1: "leaf_set v 0 (ram (mach s)) f (ram (mach ?s1)) f"
    using leaf_at_set_leaf [OF tree t, of "pt_index v 12"] by (simp add: leaf_set_def)
  have "f (take 3 (inner_path v)) \<noteq> None" using t by simp
  moreover have "\<forall>j \<le> 3. ?ts ! j = path_table f v j" by simp
  moreover have "\<forall>j < 3. ?is ! j = inner_path v ! j" by (simp add: nth_append)
  ultimately obtain f' D n where sh: "shrunk ?s1 f D (prune v ?ts ?is 3 ?s1) f'" and n: "n \<le> 3"
    and f': "f' = (\<lambda>p. if \<exists>j. n < j \<and> j \<le> 3 \<and> p = take j (inner_path v) then None else f p)"
    and e: "n = 0 \<or> \<not> table_empty (ram (mach (prune v ?ts ?is 3 ?s1))) (path_table f v n)"
    using prune_ok [OF inv1, of 3 v ?ts ?is] by blast
  define s' where "s' = prune v ?ts ?is 3 ?s1"
  note sh = sh [folded s'_def] and e = e [folded s'_def]
  have leaf': "leaf_set v 0 (ram (mach s)) f (ram (mach s')) f'"
    using leaf1 sh by (simp add: shrunk_def leaf_set_def same_leaves_def)
  have inv': "pt_inv s' f'" using sh by (simp only: shrunk_def)
  have keep: "f (take n (inner_path v)) \<noteq> None"
    using path_prefix [OF tree, of 3 v t n] t n by simp
  have comp: "compact (ram (mach s)) f \<Longrightarrow> compact (ram (mach s')) f'"
    by (rule compact_prune [OF pt_inv_tree [OF inv'] _ leaf' n f' keep e])
  have ctl: "same_ctl s ?s1" by (rule same_ctl_trans [of _ "wr t (pt_index v 12) 0 s"]) simp_all
  then have "same_ctl s s'" using sh same_ctl_trans [of s ?s1] by (simp only: shrunk_def)
  moreover have "tlb (mach s') v = None"
  proof -
    have "tlb (mach ?s1) v = None"
      using dynamic_vpage [OF dyn] by (intro invalidate_tlb) (simp add: vpage_def)
    moreover have "tlb (mach s') \<subseteq>\<^sub>m tlb (mach ?s1)" using sh by (simp only: shrunk_def same_ctl_def)
    ultimately show ?thesis unfolding map_le_def by (metis domIff)
  qed
  moreover have "p \<noteq> [] \<and> on_path v p" if "f p \<noteq> None" "f' p = None" for p
    using that by (auto simp: f' on_path_def inner_path_def split: if_splits)
  moreover have "tables s - tables s' = D" using sh by (auto simp: shrunk_def)
  ultimately show ?thesis
    using run inv' leaf' comp sh unfolding s'_def [symmetric]
    by (intro exI [of _ s'] exI [of _ f']) (simp add: shrunk_def)
qed

lemma paging_unmap_fails:
  assumes inv: "pt_inv s f" and "\<not> (dynamic_address v s \<and> leaf (ram (mach s)) f v \<noteq> 0)"
  shows "paging_unmap v s = (False, s)"
  using assms path_ok [OF inv, of v] leaf_present [OF pt_inv_tree [OF inv]]
  by (auto simp: paging_unmap_def)

lemma paging_protect_works:
  assumes inv: "pt_inv s f" and dyn: "dynamic_address v s" and fl: "valid_flags flags"
    and mapped: "leaf (ram (mach s)) f v \<noteq> 0"
  shows "\<exists>s'. paging_protect v flags s = (True, s') \<and> pt_inv s' f \<and> same_ctl s s' \<and> tables s' = tables s
    \<and> pm s' = pm s \<and> tlb (mach s') v = None
    \<and> leaf_set v ((leaf (ram (mach s)) f v AND ADDRESS_MASK) OR leaf_flags flags)
        (ram (mach s)) f (ram (mach s')) f"
proof -
  note tree = pt_inv_tree [OF inv]
  obtain t where t: "f (inner_path v) = Some t"
    and leaf: "leaf (ram (mach s)) f v = get_entry (ram (mach s)) t (pt_index v 12)"
    using leaf_table [OF mapped] by blast
  let ?e = "(leaf (ram (mach s)) f v AND ADDRESS_MASK) OR leaf_flags flags"
  let ?s = "invalidate v (wr t (pt_index v 12) ?e s)"
  have "paging_protect v flags s = (True, ?s)"
    using dyn fl path_ok [OF inv, of v] leaf_present [OF tree, of v] mapped path_last [OF inv t] leaf
    by (simp add: paging_protect_def valid_flags_def rd_def)
  moreover have "pt_inv ?s f"
    using inv page_tree_set_leaf [OF tree t, of "pt_index v 12" ?e] leaf_entry_present by (simp add: pt_inv_def)
  moreover have "leaf_set v ?e (ram (mach s)) f (ram (mach ?s)) f"
    using leaf_at_set_leaf [OF tree t, of "pt_index v 12"] by (simp add: leaf_set_def)
  moreover have "same_ctl s ?s" by (rule same_ctl_trans [of _ "wr t (pt_index v 12) ?e s"]) simp_all
  moreover have "tlb (mach ?s) v = None"
    using dynamic_vpage [OF dyn] by (intro invalidate_tlb) (simp add: vpage_def)
  ultimately show ?thesis by (intro exI [of _ ?s]) simp
qed

lemma paging_protect_fails:
  assumes inv: "pt_inv s f"
    and "\<not> (dynamic_address v s \<and> valid_flags flags \<and> leaf (ram (mach s)) f v \<noteq> 0)"
  shows "paging_protect v flags s = (False, s)"
  using assms path_ok [OF inv, of v] leaf_present [OF pt_inv_tree [OF inv]]
  by (auto simp: paging_protect_def valid_flags_def)

lemma and_2_iff: "(e :: u64) AND 2 \<noteq> 0 \<longleftrightarrow> bit e (Suc 0)"
  using and_exp_eq_0_iff_not_bit [of e 1] by simp

lemma and_NX_iff: "(e :: u64) AND NX \<noteq> 0 \<longleftrightarrow> bit e 63"
  using and_exp_eq_0_iff_not_bit [of e 63] by simp

lemma paging_query_eq:
  assumes inv: "pt_inv s f"
  shows "paging_query v a b s = (if dynamic_address v s \<and> a \<and> b then
    map_option (\<lambda>mp. (frame_of mp, flags_of mp)) (decode (leaf (ram (mach s)) f v)) else None)"
proof (cases "dynamic_address v s \<and> a \<and> b \<and> leaf (ram (mach s)) f v \<noteq> 0")
  case True
  note tree = pt_inv_tree [OF inv]
  obtain t where t: "f (inner_path v) = Some t"
    and leaf: "leaf (ram (mach s)) f v = get_entry (ram (mach s)) t (pt_index v 12)"
    using leaf_table True by blast
  then have "rd s (map (path_table f v) [0..<4] ! 3) ((inner_path v @ [pt_index v 12]) ! 3) =
      leaf (ram (mach s)) f v"
    using path_last [OF inv t] by (simp only: rd_def)
  moreover have "present (leaf (ram (mach s)) f v)" using True leaf_present [OF tree] by simp
  ultimately show ?thesis
    using True path_ok [OF inv, of v] and_2_iff and_NX_iff unfolding paging_query_def Let_def
    by (simp add: decode_def flags_of_def)
next
  case False
  then show ?thesis
    using path_ok [OF inv, of v] leaf_present [OF pt_inv_tree [OF inv]]
    by (auto simp: paging_query_def decode_def)
qed

end
