(* ===== verification/AddressSpace.thy ===== *)
theory AddressSpace
  imports PagingSpec
begin

text \<open>
  The contract of the dynamic window as a locale, its clients, and the interpretation on the
  code of \<open>kernel/paging.c\<close>. The abstract state is the partial map \<open>view\<close> from virtual pages
  to a frame and its access rights, as the processor's page walk finds them.
\<close>

datatype vm_op = Map u64 u64 u32 | Unmap u64 | Protect u64 u32

text \<open>The effect of a successful operation on the abstract map.\<close>

fun apply_op :: "vm_op \<Rightarrow> (u64 \<rightharpoonup> mapping) \<Rightarrow> (u64 \<rightharpoonup> mapping)" where
  "apply_op (Map v p fl) A = A(v \<mapsto> make_mapping p fl)"
| "apply_op (Unmap v) A = A(v := None)"
| "apply_op (Protect v fl) A = A(v \<mapsto> make_mapping (frame_of (the (A v))) fl)"

definition exec_op ::
  "(u64 \<Rightarrow> u64 \<Rightarrow> u32 \<Rightarrow> 's \<Rightarrow> bool \<times> 's) \<Rightarrow> (u64 \<Rightarrow> 's \<Rightarrow> bool \<times> 's) \<Rightarrow>
   (u64 \<Rightarrow> u32 \<Rightarrow> 's \<Rightarrow> bool \<times> 's) \<Rightarrow> vm_op \<Rightarrow> 's \<Rightarrow> bool \<times> 's" where
  "exec_op mp un pr x s = (case x of Map v p fl \<Rightarrow> mp v p fl s | Unmap v \<Rightarrow> un v s
     | Protect v fl \<Rightarrow> pr v fl s)"

primrec exec_ops :: "(vm_op \<Rightarrow> 's \<Rightarrow> bool \<times> 's) \<Rightarrow> vm_op list \<Rightarrow> 's \<Rightarrow> bool list \<times> 's" where
  "exec_ops f [] s = ([], s)"
| "exec_ops f (x # xs) s = (case f x s of (r, s1) \<Rightarrow> case exec_ops f xs s1 of (rs, s2) \<Rightarrow> (r # rs, s2))"

text \<open>The abstract counterpart: the requests that succeeded, applied in order.\<close>

definition apply_ops :: "vm_op list \<Rightarrow> bool list \<Rightarrow> (u64 \<rightharpoonup> mapping) \<Rightarrow> (u64 \<rightharpoonup> mapping)" where
  "apply_ops xs rs A = fold (\<lambda>(x, r) A. if r then apply_op x A else A) (zip xs rs) A"

fun op_page :: "vm_op \<Rightarrow> u64" where
  "op_page (Map v p fl) = v" | "op_page (Unmap v) = v" | "op_page (Protect v fl) = v"

locale address_space =
  fixes inv :: "'s \<Rightarrow> bool"
    and view :: "'s \<Rightarrow> u64 \<rightharpoonup> mapping"
    and window :: "'s \<Rightarrow> u64 \<Rightarrow> bool"
    and do_map :: "u64 \<Rightarrow> u64 \<Rightarrow> u32 \<Rightarrow> 's \<Rightarrow> bool \<times> 's"
    and do_unmap :: "u64 \<Rightarrow> 's \<Rightarrow> bool \<times> 's"
    and do_protect :: "u64 \<Rightarrow> u32 \<Rightarrow> 's \<Rightarrow> bool \<times> 's"
    and do_query :: "u64 \<Rightarrow> 's \<Rightarrow> (u64 \<times> u32) option"
  assumes map_law: "inv s \<Longrightarrow> do_map v p fl s = (r, s') \<Longrightarrow>
      inv s' \<and> window s' = window s \<and> view s' = (if r then apply_op (Map v p fl) (view s) else view s)
      \<and> (r \<longrightarrow> window s v \<and> view s v = None \<and> valid_flags fl)"
    and unmap_law: "inv s \<Longrightarrow> do_unmap v s = (r, s') \<Longrightarrow>
      inv s' \<and> window s' = window s \<and> view s' = (if r then apply_op (Unmap v) (view s) else view s)
      \<and> (r \<longleftrightarrow> window s v \<and> view s v \<noteq> None)"
    and protect_law: "inv s \<Longrightarrow> do_protect v fl s = (r, s') \<Longrightarrow>
      inv s' \<and> window s' = window s \<and> view s' = (if r then apply_op (Protect v fl) (view s) else view s)
      \<and> (r \<longleftrightarrow> window s v \<and> valid_flags fl \<and> view s v \<noteq> None)"
    and query_law: "inv s \<Longrightarrow> do_query v s = (if window s v
      then map_option (\<lambda>mp. (frame_of mp, flags_of mp)) (view s v) else None)"
begin

lemma do_op_law:
  assumes "inv s" and "exec_op do_map do_unmap do_protect x s = (r, s')"
  shows "inv s' \<and> window s' = window s \<and> view s' = (if r then apply_op x (view s) else view s)"
proof (cases x)
  case (Map v p fl)
  then show ?thesis using map_law [of s v p fl r s'] assms by (simp add: exec_op_def)
next
  case (Unmap v)
  then show ?thesis using unmap_law [of s v r s'] assms by (simp only: exec_op_def vm_op.case)
next
  case (Protect v fl)
  then show ?thesis using protect_law [of s v fl r s'] assms by (simp only: exec_op_def vm_op.case)
qed

text \<open>Any sequence of requests acts on the view as its successful ones act on the abstract map.\<close>

lemma do_ops_view:
  "inv s \<Longrightarrow> exec_ops (exec_op do_map do_unmap do_protect) xs s = (rs, s') \<Longrightarrow>
   inv s' \<and> window s' = window s \<and> length rs = length xs \<and> view s' = apply_ops xs rs (view s)"
proof (induction xs arbitrary: s rs s')
  case (Cons x xs)
  let ?f = "exec_op do_map do_unmap do_protect"
  obtain r s1 where x: "?f x s = (r, s1)" by (cases "?f x s")
  obtain rs' s2 where xs: "exec_ops ?f xs s1 = (rs', s2)" by (cases "exec_ops ?f xs s1")
  have "rs = r # rs'" "s' = s2" using Cons.prems(2) x xs by simp_all
  then show ?case using Cons.IH [OF _ xs] do_op_law [OF Cons.prems(1) x] by (simp add: apply_ops_def)
qed (simp add: apply_ops_def)

lemma query_after_map:
  assumes "inv s" and "do_map v p fl s = (True, s')"
  shows "do_query v s' = Some (p, fl)"
  using map_law [OF assms] query_law [of s' v] flags_of_make [of fl p]
  by (simp add: make_mapping_def)

lemma map_never_replaces:
  assumes "inv s" and "do_query v s \<noteq> None"
  shows "fst (do_map v p fl s) = False \<and> view (snd (do_map v p fl s)) = view s"
proof -
  obtain r s' where "do_map v p fl s = (r, s')" by (cases "do_map v p fl s")
  then show ?thesis using map_law [OF assms(1)] assms query_law [OF assms(1), of v] by (auto split: if_splits)
qed

lemma query_after_unmap:
  assumes "inv s"
  shows "do_query v (snd (do_unmap v s)) = None"
proof -
  obtain r s' where "do_unmap v s = (r, s')" by (cases "do_unmap v s")
  then show ?thesis
    using unmap_law [OF assms, of v r s'] query_law [of s' v] by (cases "view s v") auto
qed

lemma query_after_protect:
  assumes "inv s" and "do_query v s = Some (p, old)" and "valid_flags fl"
  shows "\<exists>s'. do_protect v fl s = (True, s') \<and> do_query v s' = Some (p, fl)"
proof -
  obtain r s' where r: "do_protect v fl s = (r, s')" by (cases "do_protect v fl s")
  have "window s v" "view s v \<noteq> None" "frame_of (the (view s v)) = p"
    using assms(2) query_law [OF assms(1), of v] by (auto split: if_splits)
  then show ?thesis
    using protect_law [OF assms(1) r] r query_law [of s' v] assms(3) flags_of_make [of fl p]
    by (simp add: make_mapping_def)
qed

text \<open>An operation at one page is invisible to a query at another.\<close>

lemma query_other:
  assumes "inv s" and "w \<noteq> op_page x"
  shows "do_query w (snd (exec_op do_map do_unmap do_protect x s)) = do_query w s"
proof -
  obtain r s' where r: "exec_op do_map do_unmap do_protect x s = (r, s')"
    by (cases "exec_op do_map do_unmap do_protect x s")
  have "apply_op x (view s) w = view s w" using assms(2) by (cases x) simp_all
  then show ?thesis using do_op_law [OF assms(1) r] query_law [OF assms(1), of w] query_law [of s' w] r by simp
qed

end


section \<open>The kernel's page tables as an address space\<close>

definition vmap :: "paging \<Rightarrow> u64 \<rightharpoonup> mapping" where
  "vmap s v = (if vpage v then translate (ram (mach s)) (paging_root s) v else None)"

text \<open>Every cached translation is the entry the page walk finds now.\<close>

definition tlb_ok :: "paging \<Rightarrow> bool" where
  "tlb_ok s \<longleftrightarrow> (\<forall>v e. tlb (mach s) v = Some e \<longrightarrow> vpage v \<and> e = pte (ram (mach s)) (paging_root s) v)"

definition vm_tree :: "paging \<Rightarrow> table_tree \<Rightarrow> bool" where
  "vm_tree s f \<longleftrightarrow> pt_inv s f \<and> compact (ram (mach s)) f \<and> tlb_ok s"

definition vm_inv :: "paging \<Rightarrow> bool" where
  "vm_inv s \<longleftrightarrow> (\<exists>f. vm_tree s f)"

lemma vmap_leaf:
  assumes "pt_inv s f"
  shows "vmap s = (\<lambda>v. if vpage v then decode (leaf (ram (mach s)) f v) else None)"
  using translate_pte [OF pt_inv_tree [OF assms]] pte_leaf [OF pt_inv_tree [OF assms]]
  by (simp add: vmap_def fun_eq_iff)

lemma vmap_None:
  assumes "pt_inv s f" and "vpage v"
  shows "vmap s v = None \<longleftrightarrow> leaf (ram (mach s)) f v = 0"
  using leaf_present [OF pt_inv_tree [OF assms(1)], of v] assms
  by (simp add: vmap_leaf decode_def)

lemma vmap_leaf_set:
  assumes "pt_inv s f" and "pt_inv s' f'" and "vpage v"
    and "leaf_set v e (ram (mach s)) f (ram (mach s')) f'"
  shows "vmap s' = (vmap s)(v := decode e)"
  using leaf_set_leaf' [OF assms(4)] same_page_iff assms(3)
  by (auto simp: vmap_leaf [OF assms(1)] vmap_leaf [OF assms(2)] fun_eq_iff)

lemma vmap_same_leaves:
  assumes "pt_inv s f" and "pt_inv s' f'" and "same_leaves (ram (mach s)) f (ram (mach s')) f'"
  shows "vmap s' = vmap s"
  using same_leaves_leaf [OF assms(3)]
  by (simp add: vmap_leaf [OF assms(1)] vmap_leaf [OF assms(2)] fun_eq_iff)

lemma tlb_ok_leaf_set:
  assumes "pt_inv s f" and "pt_inv s' f'" and v: "vpage v" and ok: "tlb_ok s"
    and set: "leaf_set v e (ram (mach s)) f (ram (mach s')) f'"
    and le: "tlb (mach s') \<subseteq>\<^sub>m tlb (mach s)" and gone: "tlb (mach s') v = None"
  shows "tlb_ok s'"
  unfolding tlb_ok_def
proof (intro allI impI)
  fix w d assume w: "tlb (mach s') w = Some d"
  then have "tlb (mach s) w = Some d" using le unfolding map_le_def by (metis domI)
  then have "vpage w" "d = leaf (ram (mach s)) f w"
    using ok pte_leaf [OF pt_inv_tree [OF assms(1)]] by (auto simp: tlb_ok_def)
  moreover have "w \<noteq> v" using w gone by auto
  ultimately show "vpage w \<and> d = pte (ram (mach s')) (paging_root s') w"
    using leaf_set_leaf' [OF set, of w] same_page_iff [OF v] pte_leaf [OF pt_inv_tree [OF assms(2)]]
    by simp
qed

lemma tlb_ok_same_leaves:
  assumes "pt_inv s f" and "pt_inv s' f'" and "tlb_ok s"
    and "same_leaves (ram (mach s)) f (ram (mach s')) f'" and "tlb (mach s') \<subseteq>\<^sub>m tlb (mach s)"
  shows "tlb_ok s'"
  using assms(3,5) same_leaves_leaf [OF assms(4)] pte_leaf [OF pt_inv_tree [OF assms(1)]]
    pte_leaf [OF pt_inv_tree [OF assms(2)]]
  unfolding tlb_ok_def map_le_def by (metis domI)

lemma dynamic_same_ctl: "same_ctl s s' \<Longrightarrow> dynamic_address v s' = dynamic_address v s"
  by (simp add: same_ctl_def dynamic_address_def x86_read_rflags_def)

lemma frame_entry: "pmm_inv p \<Longrightarrow> a \<in> pmm_used p \<Longrightarrow> table_addr a"
  using pmm_fa.frames frame_table_addr by blast

lemma decode_protect:
  assumes "decode e = Some mp"
  shows "decode ((e AND ADDRESS_MASK) OR leaf_flags flags) = Some (make_mapping (frame_of mp) flags)"
proof -
  have mp: "frame_of mp = e AND ADDRESS_MASK" using assms by (auto simp: decode_def split: if_splits)
  have "bit ((e AND ADDRESS_MASK) OR leaf_flags flags) k \<longleftrightarrow> bit (leaf_flags flags) k"
    if "k < 12 \<or> 52 \<le> k" for k
    using mask_bit_iff [of k] that by (auto simp: bit_or_iff bit_and_iff)
  from this [of 1] this [of 63] show ?thesis
    using leaf_entry_present [of "e AND ADDRESS_MASK" flags]
    by (simp add: decode_def make_mapping_def mp leaf_flags_bits word_ao_dist)
qed


text \<open>The operations on states satisfying the invariant.\<close>

lemma vm_map_fail:
  assumes "vm_tree s f" and "\<not> map_possible v p fl s f"
  shows "\<exists>s'. paging_map v p fl s = (False, s') \<and> vm_tree s' f \<and> same_ctl s s' \<and> vmap s' = vmap s
    \<and> tables s' = tables s \<and> pmm_used (pm s') = pmm_used (pm s) \<and> pmm_avail (pm s') = pmm_avail (pm s)"
proof -
  have inv: "pt_inv s f" and c: "compact (ram (mach s)) f" and ok: "tlb_ok s"
    using assms(1) by (simp_all add: vm_tree_def)
  obtain s' where s': "paging_map v p fl s = (False, s')" "pt_inv s' f" "same_ctl s s'"
    "same_leaves (ram (mach s)) f (ram (mach s')) f" "tables s' = tables s"
    "pmm_used (pm s') = pmm_used (pm s)" "pmm_avail (pm s') = pmm_avail (pm s)"
    using paging_map_fails [OF inv assms(2)] by blast
  have "leaf_at (ram (mach s')) f q i = leaf_at (ram (mach s)) f q i" if "length q = 3" "i < 512" for q i
    using s'(4) that by (simp add: same_leaves_def)
  then have "compact (ram (mach s')) f"
    using c page_tree_length [OF pt_inv_tree [OF inv]] unfolding compact_def
    by (metis (no_types, lifting) le_neq_implies_less)
  then have "vm_tree s' f"
    using tlb_ok_same_leaves [OF inv s'(2) ok s'(4)] s'(2,3) by (simp add: vm_tree_def same_ctl_def)
  then show ?thesis using s' vmap_same_leaves [OF inv s'(2) s'(4)] by (intro exI [of _ s']) simp
qed

lemma vm_map_ok:
  assumes "vm_tree s f" and poss: "map_possible v p fl s f"
  shows "\<exists>s' f'. paging_map v p fl s = (True, s') \<and> vm_tree s' f' \<and> same_ctl s s'
    \<and> vmap s' = apply_op (Map v p fl) (vmap s) \<and> f \<subseteq>\<^sub>m f'
    \<and> leaf_set v (p OR leaf_flags fl) (ram (mach s)) f (ram (mach s')) f'
    \<and> (\<forall>q. f q = None \<longrightarrow> f' q \<noteq> None \<longrightarrow> on_path v q)
    \<and> tables s \<subseteq> tables s' \<and> card (tables s' - tables s) = missing f v 0
    \<and> tables s' - tables s \<subseteq> pmm_avail (pm s)
    \<and> pmm_used (pm s') = pmm_used (pm s) \<union> (tables s' - tables s)
    \<and> pmm_avail (pm s') = pmm_avail (pm s) - (tables s' - tables s)"
proof -
  have inv: "pt_inv s f" and c: "compact (ram (mach s)) f" and ok: "tlb_ok s"
    using assms(1) by (simp_all add: vm_tree_def)
  obtain s' f' where s': "paging_map v p fl s = (True, s')" "pt_inv s' f'" "same_ctl s s'"
    and leaf: "leaf_set v (p OR leaf_flags fl) (ram (mach s)) f (ram (mach s')) f'"
    and f': "f \<subseteq>\<^sub>m f'" "f' (inner_path v) \<noteq> None" "\<forall>q. f q = None \<longrightarrow> f' q \<noteq> None \<longrightarrow> on_path v q"
    and rest: "tables s \<subseteq> tables s'" "card (tables s' - tables s) = missing f v 0"
      "tables s' - tables s \<subseteq> pmm_avail (pm s)"
      "pmm_used (pm s') = pmm_used (pm s) \<union> (tables s' - tables s)"
      "pmm_avail (pm s') = pmm_avail (pm s) - (tables s' - tables s)" "tlb (mach s') v = None"
    using paging_map_works [OF inv poss] by (elim exE conjE)
  have g: "map_guard v p fl s" using poss by (simp add: map_possible_def)
  then have v: "vpage v" using dynamic_vpage by (auto simp: map_guard_def)
  have p: "table_addr p" using g inv frame_entry by (auto simp: map_guard_def pt_inv_def tab_inv_def)
  have "compact (ram (mach s')) f'"
    by (rule compact_map [OF pt_inv_tree [OF s'(2)] c f'(1) leaf leaf_entry_nonzero f'(2,3)])
  moreover have "tlb_ok s'"
    using s'(3) rest(6) by (intro tlb_ok_leaf_set [OF inv s'(2) v ok leaf]) (simp_all add: same_ctl_def)
  ultimately have "vm_tree s' f'" using s'(2) by (simp add: vm_tree_def)
  moreover have "vmap s' = apply_op (Map v p fl) (vmap s)"
    using vmap_leaf_set [OF inv s'(2) v leaf] decode_leaf [OF p] by simp
  ultimately show ?thesis using s'(1,3) leaf f' rest by (intro exI [of _ s'] exI [of _ f']) simp
qed

lemma vm_unmap_ok:
  assumes "vm_tree s f" and dyn: "dynamic_address v s" and mapped: "vmap s v \<noteq> None"
  shows "\<exists>s' f'. paging_unmap v s = (True, s') \<and> vm_tree s' f' \<and> same_ctl s s'
    \<and> vmap s' = apply_op (Unmap v) (vmap s) \<and> f' \<subseteq>\<^sub>m f
    \<and> leaf_set v 0 (ram (mach s)) f (ram (mach s')) f'
    \<and> (\<forall>q. f q \<noteq> None \<longrightarrow> f' q = None \<longrightarrow> q \<noteq> [] \<and> on_path v q)
    \<and> tables s' \<subseteq> tables s \<and> pmm_used (pm s') = pmm_used (pm s) - (tables s - tables s')
    \<and> pmm_avail (pm s') = pmm_avail (pm s) \<union> (tables s - tables s')"
proof -
  have inv: "pt_inv s f" and c: "compact (ram (mach s)) f" and ok: "tlb_ok s"
    using assms(1) by (simp_all add: vm_tree_def)
  note v = dynamic_vpage [OF dyn]
  have nz: "leaf (ram (mach s)) f v \<noteq> 0" using mapped vmap_None [OF inv v] by simp
  obtain s' f' where s': "paging_unmap v s = (True, s')" "pt_inv s' f'" "same_ctl s s'"
    and leaf: "leaf_set v 0 (ram (mach s)) f (ram (mach s')) f'" and f': "f' \<subseteq>\<^sub>m f"
      "\<forall>q. f q \<noteq> None \<longrightarrow> f' q = None \<longrightarrow> q \<noteq> [] \<and> on_path v q"
    and rest: "tables s' \<subseteq> tables s" "pmm_used (pm s') = pmm_used (pm s) - (tables s - tables s')"
      "pmm_avail (pm s') = pmm_avail (pm s) \<union> (tables s - tables s')" "tlb (mach s') v = None"
      "compact (ram (mach s)) f \<longrightarrow> compact (ram (mach s')) f'"
    using paging_unmap_works [OF inv dyn nz] by (elim exE conjE)
  have "tlb_ok s'"
    using s'(3) rest(4) by (intro tlb_ok_leaf_set [OF inv s'(2) v ok leaf]) (simp_all add: same_ctl_def)
  then have "vm_tree s' f'" using s'(2) rest(5) c by (simp add: vm_tree_def)
  moreover have "vmap s' = apply_op (Unmap v) (vmap s)"
    using vmap_leaf_set [OF inv s'(2) v leaf] by (simp add: decode_def)
  ultimately show ?thesis using s'(1,3) leaf f' rest by (intro exI [of _ s'] exI [of _ f']) simp
qed

lemma vm_unmap_fail:
  assumes "vm_tree s f" and "\<not> (dynamic_address v s \<and> vmap s v \<noteq> None)"
  shows "paging_unmap v s = (False, s)"
  using assms paging_unmap_fails [of s f v] vmap_None [of s f v] dynamic_vpage by (auto simp: vm_tree_def)

lemma compact_leaf_set:
  assumes tree: "page_tree m root T f" and "compact m f" and "leaf_set v e m f m' f" and "e \<noteq> 0"
  shows "compact m' f"
  unfolding compact_def
proof (intro allI impI)
  fix p t assume p: "f p = Some t" "p \<noteq> []" "hd p = 256"
  then obtain i where i: "i < 512" "if length p < 3 then f (p @ [i]) \<noteq> None else leaf_at m f p i \<noteq> 0"
    using assms(2) unfolding compact_def by blast
  moreover have "leaf_at m' f p i \<noteq> 0" if "length p = 3" "leaf_at m f p i \<noteq> 0"
    using assms(3,4) that i(1) by (simp add: leaf_set_def)
  ultimately show "\<exists>i < 512. if length p < 3 then f (p @ [i]) \<noteq> None else leaf_at m' f p i \<noteq> 0"
    using page_tree_length [OF tree p(1)] by (intro exI [of _ i]) (auto split: if_splits)
qed

lemma vm_protect_ok:
  assumes "vm_tree s f" and dyn: "dynamic_address v s" and fl: "valid_flags fl" and mapped: "vmap s v \<noteq> None"
  shows "\<exists>s'. paging_protect v fl s = (True, s') \<and> vm_tree s' f \<and> same_ctl s s'
    \<and> vmap s' = apply_op (Protect v fl) (vmap s) \<and> tables s' = tables s \<and> pm s' = pm s"
proof -
  have inv: "pt_inv s f" and c: "compact (ram (mach s)) f" and ok: "tlb_ok s"
    using assms(1) by (simp_all add: vm_tree_def)
  note v = dynamic_vpage [OF dyn]
  have nz: "leaf (ram (mach s)) f v \<noteq> 0" using mapped vmap_None [OF inv v] by simp
  let ?e = "(leaf (ram (mach s)) f v AND ADDRESS_MASK) OR leaf_flags fl"
  obtain s' where s': "paging_protect v fl s = (True, s')" "pt_inv s' f" "same_ctl s s'"
    "tables s' = tables s" "pm s' = pm s" "tlb (mach s') v = None"
    and leaf: "leaf_set v ?e (ram (mach s)) f (ram (mach s')) f"
    using paging_protect_works [OF inv dyn fl nz] by blast
  have "tlb_ok s'"
    using s'(3,6) by (intro tlb_ok_leaf_set [OF inv s'(2) v ok leaf]) (simp_all add: same_ctl_def)
  then have "vm_tree s' f"
    using s'(2) compact_leaf_set [OF pt_inv_tree [OF inv] c leaf leaf_entry_nonzero] by (simp add: vm_tree_def)
  moreover obtain mp where mp: "vmap s v = Some mp" using mapped by auto
  then have "decode ?e = Some (make_mapping (frame_of mp) fl)"
    using vmap_leaf [OF inv] v by (intro decode_protect) simp
  then have "vmap s' = apply_op (Protect v fl) (vmap s)"
    using vmap_leaf_set [OF inv s'(2) v leaf] mp by simp
  ultimately show ?thesis using s' by (intro exI [of _ s']) simp
qed

lemma vm_protect_fail:
  assumes "vm_tree s f" and "\<not> (dynamic_address v s \<and> valid_flags fl \<and> vmap s v \<noteq> None)"
  shows "paging_protect v fl s = (False, s)"
  using assms paging_protect_fails [of s f v fl] vmap_None [of s f v] dynamic_vpage by (auto simp: vm_tree_def)

interpretation vm: address_space vm_inv vmap "\<lambda>s v. dynamic_address v s"
  paging_map paging_unmap paging_protect "\<lambda>v. paging_query v True True"
proof
  fix s s' :: paging and v p :: u64 and fl :: u32 and r :: bool
  assume "vm_inv s"
  then obtain f where f: "vm_tree s f" by (auto simp: vm_inv_def)
  then have inv: "pt_inv s f" by (simp add: vm_tree_def)
  show "vm_inv s' \<and> (\<lambda>v. dynamic_address v s') = (\<lambda>v. dynamic_address v s)
      \<and> vmap s' = (if r then apply_op (Map v p fl) (vmap s) else vmap s)
      \<and> (r \<longrightarrow> dynamic_address v s \<and> vmap s v = None \<and> valid_flags fl)"
    if run: "paging_map v p fl s = (r, s')"
  proof (cases "map_possible v p fl s f")
    case True
    then have "vmap s v = None" "dynamic_address v s" "valid_flags fl"
      using vmap_None [OF inv] dynamic_vpage by (auto simp: map_possible_def map_guard_def)
    then show ?thesis
      using vm_map_ok [OF f True] run dynamic_same_ctl by (auto simp: vm_inv_def)
  next
    case False
    show ?thesis using vm_map_fail [OF f False] run dynamic_same_ctl by (auto simp: vm_inv_def)
  qed
  show "vm_inv s' \<and> (\<lambda>v. dynamic_address v s') = (\<lambda>v. dynamic_address v s)
      \<and> vmap s' = (if r then apply_op (Unmap v) (vmap s) else vmap s)
      \<and> (r \<longleftrightarrow> dynamic_address v s \<and> vmap s v \<noteq> None)"
    if run: "paging_unmap v s = (r, s')"
  proof (cases "dynamic_address v s \<and> vmap s v \<noteq> None")
    case True
    then show ?thesis using vm_unmap_ok [OF f, of v] run dynamic_same_ctl by (auto simp: vm_inv_def)
  next
    case False
    then show ?thesis using vm_unmap_fail [OF f False] run f by (auto simp: vm_inv_def)
  qed
  show "vm_inv s' \<and> (\<lambda>v. dynamic_address v s') = (\<lambda>v. dynamic_address v s)
      \<and> vmap s' = (if r then apply_op (Protect v fl) (vmap s) else vmap s)
      \<and> (r \<longleftrightarrow> dynamic_address v s \<and> valid_flags fl \<and> vmap s v \<noteq> None)"
    if run: "paging_protect v fl s = (r, s')"
  proof (cases "dynamic_address v s \<and> valid_flags fl \<and> vmap s v \<noteq> None")
    case True
    then show ?thesis using vm_protect_ok [OF f, of v fl] run dynamic_same_ctl by (auto simp: vm_inv_def)
  next
    case False
    then show ?thesis using vm_protect_fail [OF f False] run f by (auto simp: vm_inv_def)
  qed
  show "paging_query v True True s = (if dynamic_address v s
      then map_option (\<lambda>mp. (frame_of mp, flags_of mp)) (vmap s v) else None)"
    using paging_query_eq [OF inv, of v True True] vmap_leaf [OF inv] dynamic_vpage by auto
qed

end
