(* ===== verification/PagingBoot.thy ===== *)
theory PagingBoot
  imports AddressSpace
begin

text \<open>
  \<open>paging_init\<close>: building the identity map of the boot RAM, checking it, removing the
  guard pages, and switching to it; or giving everything back. The tables are taken from
  frames that the page allocator keeps apart from the boot information and the memory map,
  so what the code reads from them while it builds the tables does not change.
\<close>

section \<open>Memory outside the tables\<close>

definition page_of :: "u64 \<Rightarrow> nat" where
  "page_of a = unat a div 4096"

definition outside :: "u64 set \<Rightarrow> memory \<Rightarrow> memory \<Rightarrow> bool" where
  "outside T m m' \<longleftrightarrow> (\<forall>a. page_of a \<notin> page_of ` T \<longrightarrow> m' a = m a)"

lemma outside_refl [simp]: "outside T m m"
  by (simp add: outside_def)

lemma outside_trans: "outside T a b \<Longrightarrow> outside T' b c \<Longrightarrow> T \<subseteq> T' \<Longrightarrow> outside T' a c"
  by (auto simp: outside_def)

lemma entry_byte_page:
  assumes "page_aligned t" and "i < 512" and "unat (a - (t + 8 * i)) < 8"
  shows "page_of a = page_of t"
proof -
  obtain q where q: "unat t = 4096 * q" using assms(1) by (rule page_alignedE)
  have i: "unat i < 512" using assms(2) by (simp add: word_less_nat_alt)
  have e: "unat (t + 8 * i) = 4096 * q + 8 * unat i" using unat_entry_addr [OF assms(1,2)] q by simp
  have "4096 * q < 2 ^ 64" using q unat_lt64 [of t] by simp
  then have "4096 * q + 4095 < 2 ^ 64" by simp
  moreover have "a = (a - (t + 8 * i)) + (t + 8 * i)" by simp
  ultimately have "unat a = unat (a - (t + 8 * i)) + unat (t + 8 * i)"
    using unat_add_no_wrap [of "a - (t + 8 * i)" "t + 8 * i"] e i assms(3) by simp
  then have "unat a = 4096 * q + (8 * unat i + unat (a - (t + 8 * i)))" using e by simp
  then have "unat a div 4096 = q" using i assms(3) by simp
  then show ?thesis using q by (simp add: page_of_def)
qed

lemma outside_set_entry:
  assumes "page_aligned t" and "t \<in> T" and "i < 512"
  shows "outside T m (set_entry t i v m)"
  unfolding outside_def
proof (intro allI impI)
  fix a assume "page_of a \<notin> page_of ` T"
  then have "\<not> unat (a - (t + 8 * i)) < 8" using entry_byte_page [OF assms(1,3)] assms(2) by auto
  then show "set_entry t i v m a = m a" by (simp add: set_entry_def store64_def store_le_def Let_def)
qed

lemma outside_fill:
  assumes "page_aligned t" and "t \<in> T"
  shows "outside T m (for_up 0 512 (\<lambda>i. set_entry t i (g i)) m)"
proof -
  have "outside T m (fold (\<lambda>k. set_entry t (of_nat k) (g (of_nat k))) ks m)"
    if "\<forall>k \<in> set ks. k < 512" for ks
    using that
  proof (induction ks arbitrary: m)
    case (Cons k ks)
    then have "(of_nat k :: u64) < 512" by (simp add: word_less_nat_alt unat_of_nat64)
    from outside_trans [OF outside_set_entry [OF assms this] Cons.IH] Cons.prems show ?case by simp
  qed simp
  then show ?thesis by (simp add: for_up_fold)
qed


section \<open>Mapping one page\<close>

lemma map_page_tables_done: "map_page_tables v 12 t s = (Some t, s)"
  by (simp add: map_page_tables.simps)

lemma map_page_tables_step:
  assumes inv: "pt_inv s f" and k: "k < 3" and t: "f (take k (inner_path v)) = Some t"
  shows "map_page_tables v (39 - 9 * k) t s =
    (case f (take (Suc k) (inner_path v)) of
       Some u \<Rightarrow> map_page_tables v (39 - 9 * Suc k) u s
     | None \<Rightarrow> (case new_table s of (c, s1) \<Rightarrow>
         if c = 0 then (None, s1)
         else map_page_tables v (39 - 9 * Suc k) c (wr t (inner_path v ! k) (c OR 3) s1)))"
proof -
  have len: "length (take k (inner_path v)) < 3" using k by simp
  note e = rd_entry [OF inv t len level_less [OF k, of v]]
  note idx = level_index [OF k, of v, symmetric]
  have shift: "39 - 9 * k > 12" "39 - 9 * k - 9 = 39 - 9 * Suc k" using k by simp_all
  obtain c s1 where new: "new_table s = (c, s1)" by (cases "new_table s")
  have "table_addr c" if "c \<noteq> 0" using new_table_ok [OF pt_inv_tab [OF inv] new that] by simp
  then show ?thesis
    using e new level_take [OF k, of v]
    by (subst map_page_tables.simps)
      (auto simp: shift Let_def idx simp del: diff_diff_left split: option.splits)
qed

definition table_growth :: "u64 \<Rightarrow> paging \<Rightarrow> table_tree \<Rightarrow> paging \<Rightarrow> table_tree \<Rightarrow> bool" where
  "table_growth v s f s' f' \<longleftrightarrow> grown s f s' f' \<and> outside (tables s') (ram (mach s)) (ram (mach s'))
     \<and> (\<forall>p. f p = None \<longrightarrow> f' p \<noteq> None \<longrightarrow> on_path v p)"

lemma table_growth_trans:
  "table_growth v s f s1 f1 \<Longrightarrow> table_growth v s1 f1 s2 f2 \<Longrightarrow> table_growth v s f s2 f2"
proof -
  assume 1: "table_growth v s f s1 f1" and 2: "table_growth v s1 f1 s2 f2"
  have "outside (tables s2) (ram (mach s)) (ram (mach s2))"
    using 1 2 outside_trans unfolding table_growth_def grown_def by blast
  moreover have "on_path v p" if "f p = None" "f2 p \<noteq> None" for p
    using 1 2 that unfolding table_growth_def by (cases "f1 p = None") blast+
  ultimately show "table_growth v s f s2 f2"
    using 1 2 grown_trans unfolding table_growth_def by blast
qed

lemma table_growth_step:
  assumes inv: "pt_inv s f" and k: "k < 3" and t: "f (take k (inner_path v)) = Some t"
    and none: "f (take (Suc k) (inner_path v)) = None" and new: "new_table s = (c, s1)" and c: "c \<noteq> 0"
  shows "table_growth v s f (wr t (inner_path v ! k) (c OR 3) s1) (f(take (Suc k) (inner_path v) \<mapsto> c))"
proof -
  let ?i = "inner_path v ! k" and ?p = "take k (inner_path v)"
  have q: "take (Suc k) (inner_path v) = ?p @ [?i]" by (rule level_take [OF k])
  have len: "length ?p < 3" using k by simp
  note nt = new_table_ok [OF pt_inv_tab [OF inv] new c]
  have gr: "grown s f (wr t ?i (c OR 3) s1) (f(?p @ [?i] \<mapsto> c))"
    by (rule grown_step [OF inv t len level_less [OF k] none [unfolded q] new c])
  have t': "page_aligned t" "t \<in> tables s1"
    using page_tree_addr [OF pt_inv_tree [OF inv] t] nt by auto
  have "outside (tables s1) (ram (mach s)) (ram (mach s1))"
    using nt outside_fill [of c "tables s1" "ram (mach s)" "\<lambda>_. 0"] by simp
  then have "outside (tables s1) (ram (mach s)) (set_entry t ?i (c OR 3) (ram (mach s1)))"
    by (rule outside_trans [OF _ outside_set_entry [OF t' level_less [OF k]]]) simp
  moreover have "on_path v (take (Suc k) (inner_path v))" 
    using k unfolding on_path_def by (intro exI [of _ "Suc k"]) simp
  ultimately show ?thesis using gr unfolding table_growth_def q by auto
qed

lemma map_page_tables_ok:
  assumes "pt_inv s f" and "k \<le> 3" and "f (take k (inner_path v)) = Some t"
  shows "\<exists>f'. table_growth v s f (snd (map_page_tables v (39 - 9 * k) t s)) f'
    \<and> f' (inner_path v) = (case fst (map_page_tables v (39 - 9 * k) t s) of
         Some u \<Rightarrow> Some u | None \<Rightarrow> f' (inner_path v))
    \<and> (fst (map_page_tables v (39 - 9 * k) t s) = None \<longleftrightarrow> budget s < missing f v k)"
  using assms
proof (induction "3 - k" arbitrary: k s f t)
  case 0
  then have "k = 3" by simp
  with 0 show ?case
    using grown_refl [OF 0(2)]
    by (intro exI [of _ f]) (auto simp: map_page_tables_done table_growth_def)
next
  case (Suc d)
  then have k: "k < 3" and d: "d = 3 - Suc k" and k': "Suc k \<le> 3" by simp_all
  note unfold = map_page_tables_step [OF Suc.prems(1) k Suc.prems(3)]
  show ?case
  proof (cases "f (take (Suc k) (inner_path v))")
    case (Some u)
    have "map_page_tables v (39 - 9 * k) t s = map_page_tables v (39 - 9 * Suc k) u s"
      using unfold Some by simp
    moreover have "missing f v k = missing f v (Suc k)" using missing_step [OF k, of f v] Some by simp
    ultimately show ?thesis using Suc.hyps(1) [OF d Suc.prems(1) k' Some] by (simp only:)
  next
    case None
    obtain c s1 where new: "new_table s = (c, s1)" by (cases "new_table s")
    show ?thesis
    proof (cases "c = 0")
      case True
      then have "s1 = s" "budget s = 0" using new_table_fail [of s] Suc.prems(1) new by (auto simp: pt_inv_def)
      moreover have "0 < missing f v k" using None missing_step [OF k, of f v] by simp
      ultimately show ?thesis
        using True new None unfold grown_refl [OF Suc.prems(1)]
        by (intro exI [of _ f]) (simp add: table_growth_def)
    next
      case False
      let ?s2 = "wr t (inner_path v ! k) (c OR 3) s1" and ?f2 = "f(take (Suc k) (inner_path v) \<mapsto> c)"
      note step = table_growth_step [OF Suc.prems(1) k Suc.prems(3) None new False]
      have inv2: "pt_inv ?s2 ?f2" using step by (simp only: table_growth_def grown_def)
      have c2: "?f2 (take (Suc k) (inner_path v)) = Some c" by simp
      have eq: "map_page_tables v (39 - 9 * k) t s = map_page_tables v (39 - 9 * Suc k) c ?s2"
        using unfold None new False by simp
      have miss: "missing f v k = Suc (missing ?f2 v (Suc k))"
        using None missing_step [OF k, of f v] missing_upd [of "Suc k" f v c] k by simp
      have bud: "budget s = Suc (budget ?s2)"
        using new_table_ok [OF pt_inv_tab [OF Suc.prems(1)] new False] by (simp add: budget_def)
      let ?r = "map_page_tables v (39 - 9 * Suc k) c ?s2"
      obtain f' where f': "table_growth v ?s2 ?f2 (snd ?r) f'"
        and rest: "f' (inner_path v) = (case fst ?r of Some u \<Rightarrow> Some u | None \<Rightarrow> f' (inner_path v))"
          "fst ?r = None \<longleftrightarrow> budget ?s2 < missing ?f2 v (Suc k)"
        using Suc.hyps(1) [OF d inv2 k' c2] by (elim exE conjE)
      show ?thesis
        unfolding eq miss bud Suc_less_eq
        by (intro exI [of _ f'] conjI table_growth_trans [OF step f'] rest)
    qed
  qed
qed


definition alloc_ext :: "paging \<Rightarrow> paging \<Rightarrow> bool" where
  "alloc_ext s s' \<longleftrightarrow> same_ctl s s' \<and> tables s \<subseteq> tables s' \<and> tables s' - tables s \<subseteq> pmm_avail (pm s)
     \<and> pmm_used (pm s') = pmm_used (pm s) \<union> (tables s' - tables s)
     \<and> pmm_avail (pm s') = pmm_avail (pm s) - (tables s' - tables s)
     \<and> outside (tables s') (ram (mach s)) (ram (mach s'))"

lemma alloc_ext_refl [simp]: "alloc_ext s s"
  by (auto simp: alloc_ext_def)

lemma alloc_ext_trans:
  assumes 1: "alloc_ext a b" and 2: "alloc_ext b c"
  shows "alloc_ext a c"
proof -
  have "same_ctl a c" "outside (tables c) (ram (mach a)) (ram (mach c))"
    using 1 2 same_ctl_trans outside_trans unfolding alloc_ext_def by blast+
  then show ?thesis using 1 2 unfolding alloc_ext_def by auto
qed

lemma table_growth_ext: "table_growth v s f s' f' \<Longrightarrow> alloc_ext s s'"
  by (simp add: table_growth_def grown_def alloc_ext_def)

text \<open>
  \<open>ident L P s f\<close>: the tables map exactly the pages of \<open>P\<close>, each to itself with the rights
  of its section, and only the lowest entry of the root table is in use.
\<close>

definition ident :: "layout \<Rightarrow> u64 set \<Rightarrow> paging \<Rightarrow> table_tree \<Rightarrow> bool" where
  "ident L P s f \<longleftrightarrow> pt_inv s f \<and> (\<forall>p. f p \<noteq> None \<longrightarrow> p \<noteq> [] \<longrightarrow> hd p = 0) \<and> P \<subseteq> Collect frame_addr
     \<and> (\<forall>w. vpage w \<longrightarrow> leaf (ram (mach s)) f w = (if w \<in> P then w OR page_flags L w else 0))"

lemma page_flags_bits:
  "page_flags L w AND ADDRESS_MASK = 0" "bit (page_flags L w) 0"
  "bit (page_flags L w) (Suc 0) \<longleftrightarrow> \<not> (kernel_text_start L \<le> w \<and> w < kernel_text_end L)
     \<and> \<not> (kernel_rodata_start L \<le> w \<and> w < kernel_rodata_end L)"
  "bit (page_flags L w) 63 \<longleftrightarrow> \<not> (kernel_text_start L \<le> w \<and> w < kernel_text_end L)"
  by (simp_all add: page_flags_def)

lemma page_entry_present: "present (w OR page_flags L w)"
  using page_flags_bits(2) by (simp add: and_1_iff bit_or_iff)

lemma frame_vpage: "frame_addr w \<Longrightarrow> vpage w"
  by (auto simp: frame_addr_def vpage_def canonical_def word_less_nat_alt)

lemma frame_root_index: "frame_addr w \<Longrightarrow> pt_index w 39 = 0"
proof -
  assume "frame_addr w"
  then have "unat w < 0x100000000" by (simp add: frame_addr_def word_less_nat_alt)
  then have "unat w div 2 ^ 39 = 0" by simp
  then have "drop_bit 39 w = 0" by (simp add: word_unat_eq_iff unat_drop_bit_eq drop_bit_eq_div [where ?'a = nat] del: drop_bit_eq_div)
  then show ?thesis by (simp add: pt_index_def)
qed

lemma map_page_ok:
  assumes id: "ident L P s f" and w: "frame_addr w"
  shows "\<exists>f'. ident L (if fst (map_page L w s) then insert w P else P) (snd (map_page L w s)) f'
    \<and> alloc_ext s (snd (map_page L w s)) \<and> (fst (map_page L w s) \<longleftrightarrow> missing f w 0 \<le> budget s)
    \<and> f \<subseteq>\<^sub>m f' \<and> (\<forall>p. f p = None \<longrightarrow> f' p \<noteq> None \<longrightarrow> on_path w p)"
proof -
  have inv: "pt_inv s f" using id by (simp add: ident_def)
  note tree = pt_inv_tree [OF inv]
  obtain r s1 where r: "map_page_tables w 39 (paging_root s) s = (r, s1)"
    by (cases "map_page_tables w 39 (paging_root s) s")
  obtain f' where g: "table_growth w s f s1 f'"
    and u: "f' (inner_path w) = (case r of Some u \<Rightarrow> Some u | None \<Rightarrow> f' (inner_path w))"
    and b: "r = None \<longleftrightarrow> budget s < missing f w 0"
    using map_page_tables_ok [OF inv, of 0 w "paging_root s"] page_tree_root [OF tree] r by auto
  have inv1: "pt_inv s1 f'" and leaves: "same_leaves (ram (mach s)) f (ram (mach s1)) f'"
    and new: "\<forall>p. f p = None \<longrightarrow> f' p \<noteq> None \<longrightarrow> on_path w p" and le: "f \<subseteq>\<^sub>m f'"
    using g by (simp_all add: table_growth_def grown_def)
  have "hd p = 0" if "on_path w p" "p \<noteq> []" for p
    using that frame_root_index [OF w] by (auto simp: on_path_def inner_path_def take_Cons' split: if_splits)
  then have low: "\<forall>p. f' p \<noteq> None \<longrightarrow> p \<noteq> [] \<longrightarrow> hd p = 0"
    using new id unfolding ident_def by metis
  have id1: "ident L P s1 f'"
    using id inv1 low same_leaves_leaf [OF leaves] by (simp add: ident_def)
  note ext = table_growth_ext [OF g]
  show ?thesis
  proof (cases r)
    case None
    then show ?thesis using r b id1 ext new le by (intro exI [of _ f']) (simp add: map_page_def)
  next
    case (Some t)
    then have t: "f' (inner_path w) = Some t" using u by simp
    let ?e = "w OR page_flags L w"
    let ?s = "wr t (pt_index w 12) ?e s1"
    have eq: "map_page L w s = (True, ?s)" using r Some by (simp add: map_page_def)
    note tree1 = pt_inv_tree [OF inv1]
    have "pt_inv ?s f'"
      using inv1 page_tree_set_leaf [OF tree1 t, of "pt_index w 12" ?e] page_entry_present
      by (simp add: pt_inv_def)
    moreover have "leaf (ram (mach ?s)) f' v = (if v \<in> insert w P then v OR page_flags L v else 0)"
      if "vpage v" for v
      using leaf_set_leaf [OF tree1 t, of ?e v] same_page_iff [OF frame_vpage [OF w] that] id1 that
      by (auto simp: ident_def)
    ultimately have "ident L (insert w P) ?s f'" using id1 low w by (auto simp: ident_def)
    moreover have "alloc_ext s1 ?s"
      using page_tree_addr [OF tree1 t] outside_set_entry [of t "tables s1" "pt_index w 12"]
      by (auto simp: alloc_ext_def)
    ultimately show ?thesis
      unfolding eq using alloc_ext_trans [OF ext] b Some new le by (intro exI [of _ f']) auto
  qed
qed

text \<open>A run of pages.\<close>

definition page_run :: "u64 \<Rightarrow> u64 \<Rightarrow> u64 set" where
  "page_run b e = {w. page_aligned w \<and> b \<le> w \<and> w < e}"

lemma page_run_step:
  assumes "page_aligned b" and "b < e" and "e \<le> PMM_LIMIT"
  shows "page_aligned (b + 4096)" and "page_run b e = insert b (page_run (b + 4096) e)" and "b \<le> b + 4096"
proof -
  have lt: "unat b < 0x100000000" using assms(2,3) by (simp add: word_less_nat_alt word_le_nat_alt)
  then have b: "unat (b + 4096) = unat b + 4096" by (simp add: unat_add_no_wrap)
  obtain q where q: "unat b = 4096 * q" using assms(1) by (rule page_alignedE)
  have "unat (b + 4096) = 4096 * Suc q" using b q by simp
  then show "page_aligned (b + 4096)" unfolding page_aligned_unat by (metis dvd_triv_left)
  show "b \<le> b + 4096" using b by (simp add: word_le_nat_alt)
  have "page_aligned w \<and> b \<le> w \<longleftrightarrow> w = b \<or> (page_aligned w \<and> b + 4096 \<le> w)" for w
  proof (cases "page_aligned w")
    case True
    then obtain r where r: "unat w = 4096 * r" by (rule page_alignedE)
    have "q \<le> r \<longleftrightarrow> r = q \<or> Suc q \<le> r" by auto
    then show ?thesis using True q r b by (auto simp: word_le_nat_alt word_unat_eq_iff)
  next
    case False
    then show ?thesis using assms(1) by auto
  qed
  then show "page_run b e = insert b (page_run (b + 4096) e)" using assms(2) by (auto simp: page_run_def)
qed

lemma page_run_empty: "\<not> b < e \<Longrightarrow> page_run b e = {}"
  by (auto simp: page_run_def)


lemma map_run_ok:
  assumes "ident L P s f" and "page_aligned b" and "0x100000 \<le> b" and "e \<le> PMM_LIMIT"
  shows "case for_pages b e (\<lambda>page s. case map_page L page s of
        (True, s) \<Rightarrow> Inr s | (False, s) \<Rightarrow> Inl (False, s)) s of
      Inr s' \<Rightarrow> (\<exists>f'. ident L (P \<union> page_run b e) s' f') \<and> alloc_ext s s'
    | Inl (r, s') \<Rightarrow> \<not> r \<and> (\<exists>P' f'. ident L P' s' f') \<and> alloc_ext s s'"
  using assms
proof (induction b e "\<lambda>page s. case map_page L page s of (True, s) \<Rightarrow> Inr s | (False, s) \<Rightarrow> Inl (False, s)" s
    arbitrary: P f rule: for_pages.induct)
  case (1 b e s)
  let ?body = "\<lambda>page s. case map_page L page s of (True, s) \<Rightarrow> Inr s | (False, s) \<Rightarrow> Inl (False, s)"
  show ?case
  proof (cases "b < e")
    case False
    then show ?thesis using 1(2) by (subst for_pages.simps) (auto simp: page_run_empty)
  next
    case True
    then have lt: "b < e \<and> e \<le> PMM_LIMIT" using 1(5) by simp
    have fr: "frame_addr b" using 1(3,4,5) True by (simp add: frame_addr_def)
    obtain r s1 where r: "map_page L b s = (r, s1)" by (cases "map_page L b s")
    obtain f1 where f1: "ident L (if r then insert b P else P) s1 f1" and ext: "alloc_ext s s1"
      using map_page_ok [OF 1(2) fr] r by auto
    note st = page_run_step [OF 1(3) True 1(5)]
    show ?thesis
    proof (cases r)
      case False
      then show ?thesis using r lt f1 ext by (subst for_pages.simps) auto
    next
      case ok: True
      then have body: "?body b s = Inr s1" using r by simp
      have unfold: "for_pages b e ?body s = for_pages (b + 4096) e ?body s1"
        by (subst for_pages.simps) (simp only: lt body if_True simp_thms sum.case)
      have "0x100000 \<le> b + 4096" using 1(4) st(3) by (rule order_trans)
      then have IH: "case for_pages (b + 4096) e ?body s1 of
          Inr s' \<Rightarrow> (\<exists>f'. ident L (insert b P \<union> page_run (b + 4096) e) s' f') \<and> alloc_ext s1 s'
        | Inl (r, s') \<Rightarrow> \<not> r \<and> (\<exists>P' f'. ident L P' s' f') \<and> alloc_ext s1 s'"
        using 1(1) [OF lt body _ st(1) _ 1(5), of "insert b P" f1] f1 ok by simp
      have "insert b P \<union> page_run (b + 4096) e = P \<union> page_run b e" using st(2) by auto
      then show ?thesis
        unfolding unfold using IH alloc_ext_trans [OF ext] by (auto split: sum.splits)
    qed
  qed
qed

section \<open>Mapping the boot RAM\<close>

definition mappable :: "BOOT_MEMORY_DESCRIPTOR \<Rightarrow> bool" where
  "mappable d \<longleftrightarrow> (dtype d = 1 \<or> dtype d = 2 \<or> dtype d = 7) \<and> \<not> bit (attributes d) 63"

definition desc_frames :: "BOOT_MEMORY_DESCRIPTOR \<Rightarrow> u64 set" where
  "desc_frames d = (if mappable d then {w. frame_addr w \<and> unat w \<in> desc_range d} else {})"

definition boot_ram :: "memory \<Rightarrow> BOOT_INFO \<Rightarrow> u64 set" where
  "boot_ram m info = (\<Union>i < desc_count info. desc_frames (descriptor m info (of_nat i)))"

lemma attr_63: "attributes d AND push_bit 63 1 \<noteq> 0 \<longleftrightarrow> bit (attributes d) 63"
  using and_exp_eq_0_iff_not_bit [of "attributes d" 63] by simp

lemma map_descriptor_ok:
  assumes id: "ident L P s f" and vd: "valid_descriptor d"
  shows "case map_descriptor L d s of
      Inr s' \<Rightarrow> (\<exists>f'. ident L (P \<union> desc_frames d) s' f') \<and> alloc_ext s s'
    | Inl (r, s') \<Rightarrow> \<not> r \<and> (\<exists>P' f'. ident L P' s' f') \<and> alloc_ext s s'"
proof (cases "mappable d")
  case False
  then have "map_descriptor L d s = Inr s"
    using attr_63 [of d] by (auto simp: map_descriptor_def mappable_def)
  then show ?thesis using id False by (auto simp: desc_frames_def)
next
  case True
  define b where "b = (if physical_start d < 0x100000 then 0x100000 else physical_start d)"
  define e0 where "e0 = physical_start d + number_of_pages d * 4096"
  define e where "e = (if e0 > PMM_LIMIT then PMM_LIMIT else e0)"
  note vr = valid_descriptor_range [OF vd]
  have e0: "unat e0 = unat (physical_start d) + unat (number_of_pages d) * 4096"
    unfolding e0_def by (rule vr(4))
  have b: "page_aligned b" "0x100000 \<le> b"
    using vr(1) unfolding b_def by (auto simp: page_aligned_unat)
  have e: "e \<le> PMM_LIMIT" by (auto simp: e_def not_less)
  have frames: "page_run b e = desc_frames d"
    using True e0 unfolding page_run_def desc_frames_def frame_addr_def b_def e_def desc_range_def
    by (auto simp: word_le_nat_alt word_less_nat_alt split: if_splits)
  have unfold: "map_descriptor L d s = (if b \<ge> e then Inr s else if attributes d AND 8 = 0 then Inl (False, s)
      else for_pages b e (\<lambda>page s. case map_page L page s of
        (True, s) \<Rightarrow> Inr s | (False, s) \<Rightarrow> Inl (False, s)) s)"
    using True attr_63 [of d] unfolding map_descriptor_def Let_def mappable_def b_def e_def e0_def by auto
  show ?thesis
    unfolding unfold frames [symmetric]
    using id map_run_ok [OF id b e] page_run_empty [of b e] by (auto simp: not_less)
qed


section \<open>Reads that the table writes do not disturb\<close>

lemma load_BOOT_INFO_same: "same_bytes m m' a 88 \<Longrightarrow> load_BOOT_INFO m' a = load_BOOT_INFO m a"
  using same_bytes_load [of m m' a 88 0 8] same_bytes_load [of m m' a 88 8 4]
    same_bytes_load [of m m' a 88 12 4] same_bytes_load [of m m' a 88 16 8]
    same_bytes_load [of m m' a 88 24 8] same_bytes_load [of m m' a 88 32 8]
    same_bytes_load [of m m' a 88 40 4] same_bytes_load [of m m' a 88 44 4]
    same_bytes_load [of m m' a 88 48 8] same_bytes_load [of m m' a 88 56 8]
    same_bytes_load [of m m' a 88 64 8] same_bytes_load [of m m' a 88 72 8]
    same_bytes_load [of m m' a 88 80 8]
  by (simp add: load_BOOT_INFO_def load64_def load32_def)

lemma load_DESCRIPTOR_same: "same_bytes m m' a 40 \<Longrightarrow> load_DESCRIPTOR m' a = load_DESCRIPTOR m a"
  using same_bytes_load [of m m' a 40 0 4] same_bytes_load [of m m' a 40 4 4]
    same_bytes_load [of m m' a 40 8 8] same_bytes_load [of m m' a 40 16 8]
    same_bytes_load [of m m' a 40 24 8] same_bytes_load [of m m' a 40 32 8]
  by (simp add: load_DESCRIPTOR_def load64_def load32_def)

lemma outside_same_bytes:
  assumes out: "outside T m m'" and apart: "page_of ` T \<inter> touched base sz = {}"
    and range: "unat base + unat sz < 2 ^ 64" and sub: "j + n \<le> unat sz"
  shows "same_bytes m m' (base + of_nat j) n"
  unfolding same_bytes_def
proof (intro allI impI)
  fix i assume "i < n"
  then have ji: "j + i < unat sz" using sub by simp
  then have "unat (of_nat (j + i) :: u64) = j + i" using range by (intro unat_of_nat64) simp
  then have "unat (base + of_nat (j + i)) = unat base + (j + i)"
    using ji range by (subst unat_add_no_wrap) simp_all
  then have "page_of (base + of_nat (j + i)) \<in> touched base sz"
    using ji by (auto simp: page_of_def touched_def)
  then have "page_of (base + of_nat (j + i)) \<notin> page_of ` T" using apart by blast
  then have "m' (base + of_nat (j + i)) = m (base + of_nat (j + i))" using out by (simp add: outside_def)
  then show "m' (base + of_nat j + of_nat i) = m (base + of_nat j + of_nat i)" by (simp add: add.assoc)
qed


text \<open>
  What is known of the boot information: it is the one \<open>pmm_init\<close> accepted, and no frame
  that tables are made of lies in it or in the memory map.
\<close>

definition boot_ctx :: "memory \<Rightarrow> u64 \<Rightarrow> u64 set \<Rightarrow> bool" where
  "boot_ctx m p F \<longleftrightarrow> valid_boot_info m p \<and> valid_map_ranges m (load_BOOT_INFO m p)
     \<and> page_of ` F \<inter> reserved_pages (load_BOOT_INFO m p) p = {}"

lemma valid_range_nat: "valid_range b sz \<Longrightarrow> 0 < unat sz \<and> unat b + unat sz < 2 ^ 64"
  using le_max_minus_iff [of b sz] by (auto simp: valid_range_def simp flip: unat_eq_0)

lemma boot_map_layout:
  assumes "valid_boot_info m p"
  defines "info \<equiv> load_BOOT_INFO m p"
  shows "40 \<le> unat (descriptor_size info)"
    and "unat (memory_map_size info) = desc_count info * unat (descriptor_size info)"
    and "unat (memory_map_size info) \<le> 65536"
    and "unat (memory_map info) + unat (memory_map_size info) < 2 ^ 64"
proof -
  show 1: "40 \<le> unat (descriptor_size info)" "unat (memory_map_size info) \<le> 65536"
    using assms(1) unfolding info_def
    by (auto simp: valid_boot_info_def Let_def word_less_nat_alt not_less split: if_splits)
  have "memory_map_size info mod descriptor_size info = 0"
    using assms(1) unfolding info_def by (auto simp: valid_boot_info_def Let_def split: if_splits)
  then have "unat (memory_map_size info) mod unat (descriptor_size info) = 0" by (simp only: mod_eq_0_unat)
  then show "unat (memory_map_size info) = desc_count info * unat (descriptor_size info)"
    by (simp add: desc_count_def unat_div mod_0_imp_dvd)
  show "unat (memory_map info) + unat (memory_map_size info) < 2 ^ 64"
    using valid_range_nat [OF valid_boot_info_ranges(4) [OF assms(1)]] by (simp add: info_def)
qed

lemma boot_info_stable:
  assumes ctx: "boot_ctx m p F" and out: "outside T m m'" and "T \<subseteq> F"
  shows "load_BOOT_INFO m' p = load_BOOT_INFO m p"
proof -
  have v: "valid_boot_info m p" using ctx by (simp add: boot_ctx_def)
  have apart: "page_of ` T \<inter> touched p sizeof_BOOT_INFO = {}"
    using ctx assms(3) by (auto simp: boot_ctx_def reserved_pages_def)
  have "unat p + unat (sizeof_BOOT_INFO :: u64) < 2 ^ 64"
    using valid_range_nat [OF valid_boot_info_ranges(3) [OF v]] by blast
  from outside_same_bytes [OF out apart this, of 0 88] have "same_bytes m m' (p + of_nat 0) 88" by simp
  then show ?thesis using load_BOOT_INFO_same by simp
qed

lemma descriptor_stable:
  assumes ctx: "boot_ctx m p F" and out: "outside T m m'" and "T \<subseteq> F"
  defines "info \<equiv> load_BOOT_INFO m p"
  assumes i: "i < desc_count info"
  shows "load_DESCRIPTOR m' (memory_map info + of_nat i * descriptor_size info) = descriptor m info (of_nat i)"
proof -
  have v: "valid_boot_info m p" using ctx by (simp add: boot_ctx_def)
  note lay = boot_map_layout [OF v, folded info_def]
  have "page_of ` T \<inter> touched (memory_map info) (memory_map_size info) = {}"
    using ctx assms(3) by (auto simp: boot_ctx_def reserved_pages_def info_def)
  moreover have "Suc i * unat (descriptor_size info) \<le> unat (memory_map_size info)"
    using i lay(2) by (metis Suc_leI mult_le_mono1)
  then have "i * unat (descriptor_size info) + 40 \<le> unat (memory_map_size info)" using lay(1) by simp
  ultimately have "same_bytes m m' (memory_map info + of_nat (i * unat (descriptor_size info))) 40"
    using lay(4) by (intro outside_same_bytes [OF out]) simp_all
  then show ?thesis by (simp add: load_DESCRIPTOR_same descriptor_def)
qed

lemma alloc_ext_tables:
  assumes "alloc_ext s0 s" and "tables s0 \<union> pmm_avail (pm s0) \<subseteq> F" and "outside (tables s0) m (ram (mach s0))"
  shows "outside (tables s) m (ram (mach s)) \<and> tables s \<subseteq> F"
  using assms outside_trans unfolding alloc_ext_def by blast

lemma desc_offset:
  assumes ctx: "boot_ctx m p F" and i: "i \<le> desc_count (load_BOOT_INFO m p)"
  defines "info \<equiv> load_BOOT_INFO m p"
  shows "unat (of_nat i * descriptor_size info) = i * unat (descriptor_size info)"
proof -
  have v: "valid_boot_info m p" using ctx by (simp add: boot_ctx_def)
  note lay = boot_map_layout [OF v, folded info_def]
  have "i * unat (descriptor_size info) \<le> unat (memory_map_size info)"
    unfolding lay(2) using i by (intro mult_le_mono1) (simp add: info_def)
  then have le: "i * unat (descriptor_size info) \<le> 65536" using lay(3) by (rule order_trans)
  moreover have "i \<le> i * unat (descriptor_size info)" using lay(1) by simp
  ultimately have "i \<le> 65536" by (rule order_trans [rotated])
  then have "unat (of_nat i :: u64) = i" by (simp add: unat_of_nat64)
  then show ?thesis using le by (subst unat_mult_no_wrap) simp_all
qed

lemma map_boot_ram_ok:
  assumes ctx: "boot_ctx m p F" and s0: "tables s0 \<union> pmm_avail (pm s0) \<subseteq> F" and m: "outside (tables s0) m (ram (mach s0))"
  defines "info \<equiv> load_BOOT_INFO m p"
  assumes i: "i \<le> desc_count info" and ext: "alloc_ext s0 s" and id: "ident L P s f"
  shows "\<exists>r s'. map_boot_ram_from L p (of_nat i * descriptor_size info) s = Some (r, s') \<and> alloc_ext s0 s'
    \<and> (\<exists>P' f'. ident L P' s' f'
        \<and> (r \<longrightarrow> P' = P \<union> (\<Union>j \<in> {i..<desc_count info}. desc_frames (descriptor m info (of_nat j)))))"
  using i ext id
proof (induction "desc_count info - i" arbitrary: i s P f)
  case (0 i s P f)
  have out: "outside (tables s) m (ram (mach s))" and sub: "tables s \<subseteq> F"
    using alloc_ext_tables [OF 0(3) s0 m] by simp_all
  have off: "unat (of_nat i * descriptor_size info) = unat (memory_map_size info)"
    using desc_offset [OF ctx 0(2) [unfolded info_def]] 0(1,2) boot_map_layout(2) ctx
    by (simp add: info_def boot_ctx_def)
  have "map_boot_ram_from L p (of_nat i * descriptor_size info) s = Some (True, s)"
    using boot_info_stable [OF ctx out sub] off
    by (subst map_boot_ram_from.simps) (simp add: info_def word_less_nat_alt)
  then show ?case using 0 by (intro exI [of _ True] exI [of _ s] conjI exI [of _ P] exI [of _ f]) auto
next
  case (Suc n i s P f)
  have lt: "i < desc_count info" using Suc.hyps(2) by simp
  have v: "valid_boot_info m p" using ctx by (simp add: boot_ctx_def)
  note lay = boot_map_layout [OF v, folded info_def]
  have out: "outside (tables s) m (ram (mach s))" and sub: "tables s \<subseteq> F"
    using alloc_ext_tables [OF Suc.prems(2) s0 m] by simp_all
  let ?d = "descriptor m info (of_nat i)"
  have off: "of_nat i * descriptor_size info < memory_map_size info"
    using desc_offset [OF ctx Suc.prems(1) [unfolded info_def]] lt lay(1,2)
    by (simp add: info_def word_less_nat_alt)
  have info: "load_BOOT_INFO (ram (mach s)) p = info"
    using boot_info_stable [OF ctx out sub] by (simp add: info_def)
  have d: "load_DESCRIPTOR (ram (mach s)) (memory_map info + of_nat i * descriptor_size info) = ?d"
    using descriptor_stable [OF ctx out sub] lt by (simp add: info_def)
  have vd: "valid_descriptor ?d" using ctx lt by (simp add: boot_ctx_def valid_map_ranges_iff info_def)
  show ?case
  proof (cases "map_descriptor L ?d s")
    case (Inl x)
    obtain r s' where x: "x = (r, s')" by (cases x)
    have run: "map_boot_ram_from L p (of_nat i * descriptor_size info) s = Some (r, s')"
      using off info d Inl x by (subst map_boot_ram_from.simps) simp
    have "\<not> r" "\<exists>P' f'. ident L P' s' f'" "alloc_ext s s'"
      using map_descriptor_ok [OF Suc.prems(3) vd] Inl x by auto
    then show ?thesis using run alloc_ext_trans [OF Suc.prems(2)] by blast
  next
    case (Inr s')
    obtain f' where f': "ident L (P \<union> desc_frames ?d) s' f'" and e: "alloc_ext s s'"
      using map_descriptor_ok [OF Suc.prems(3) vd] Inr by auto
    note ext' = alloc_ext_trans [OF Suc.prems(2) e]
    have out': "outside (tables s') m (ram (mach s'))" and sub': "tables s' \<subseteq> F"
      using alloc_ext_tables [OF ext' s0 m] by simp_all
    have "load_BOOT_INFO (ram (mach s')) p = info"
      using boot_info_stable [OF ctx out' sub'] by (simp add: info_def)
    then have run: "map_boot_ram_from L p (of_nat i * descriptor_size info) s =
        map_boot_ram_from L p (of_nat (Suc i) * descriptor_size info) s'"
      using off info d Inr
      by (subst map_boot_ram_from.simps) (simp add: distrib_right add.commute)
    have "n = desc_count info - Suc i" "Suc i \<le> desc_count info" using Suc.hyps(2) lt by simp_all
    from Suc.hyps(1) [OF this ext' f'] obtain r t P' g where
      t: "map_boot_ram_from L p (of_nat (Suc i) * descriptor_size info) s' = Some (r, t)" "alloc_ext s0 t"
      and ex: "ident L P' t g" "r \<longrightarrow> P' = P \<union> desc_frames ?d
        \<union> (\<Union>j \<in> {Suc i..<desc_count info}. desc_frames (descriptor m info (of_nat j)))"
      by (elim exE conjE)
    have "{i..<desc_count info} = insert i {Suc i..<desc_count info}" using lt by auto
    then have "P \<union> desc_frames ?d \<union> (\<Union>j \<in> {Suc i..<desc_count info}. desc_frames (descriptor m info (of_nat j)))
        = P \<union> (\<Union>j \<in> {i..<desc_count info}. desc_frames (descriptor m info (of_nat j)))" by auto
    with ex(2) have "r \<longrightarrow> P' = P \<union> (\<Union>j \<in> {i..<desc_count info}. desc_frames (descriptor m info (of_nat j)))"
      by simp
    then show ?thesis unfolding run using t ex(1) by blast
  qed
qed

end
