(* ===== verification/PagingProps.thy ===== *)
theory PagingProps
  imports AddressSpace
begin

text \<open>
  The properties of the dynamic window: exact behaviour of the four operations, rollback,
  the map/unmap round trip, and what holds in every state reachable by requests and by the
  processor caching translations.
\<close>

section \<open>Missing tables, counted by the walk\<close>

definition absent :: "paging \<Rightarrow> u64 \<Rightarrow> nat" where
  "absent s v = (let m = ram (mach s) in
     case next_table m (paging_root s) (pt_index v 39) of None \<Rightarrow> 3 | Some t1 \<Rightarrow>
     case next_table m t1 (pt_index v 30) of None \<Rightarrow> 2 | Some t2 \<Rightarrow>
     case next_table m t2 (pt_index v 21) of None \<Rightarrow> 1 | Some _ \<Rightarrow> 0)"

lemma absent_missing:
  assumes inv: "pt_inv s f"
  shows "absent s v = missing f v 0"
proof -
  note tree = pt_inv_tree [OF inv]
  let ?p = "inner_path v"
  have p: "take 1 ?p = [pt_index v 39]" "take 2 ?p = [pt_index v 39, pt_index v 30]" "take 3 ?p = ?p"
    by (simp_all add: inner_path_def)
  have 1: "next_table (ram (mach s)) (paging_root s) (pt_index v 39) = f (take 1 ?p)"
    using next_table_tree [OF tree page_tree_root [OF tree]] p by simp
  have 2: "next_table (ram (mach s)) t (pt_index v 30) = f (take 2 ?p)" if "f (take 1 ?p) = Some t" for t
    using next_table_tree [OF tree that] p by simp
  have 3: "next_table (ram (mach s)) t (pt_index v 21) = f ?p" if "f (take 2 ?p) = Some t" for t
    using next_table_tree [OF tree that] p by (simp add: inner_path_def)
  have up: "f (take 2 ?p) \<noteq> None \<Longrightarrow> f (take 1 ?p) \<noteq> None" "f ?p \<noteq> None \<Longrightarrow> f (take 2 ?p) \<noteq> None"
    using path_prefix [OF tree, of 2 v _ 1] path_prefix [OF tree, of 3 v _ 2] by auto
  have "missing f v 0 = (if f (take 1 ?p) = None then 1 else 0) + ((if f (take 2 ?p) = None then 1 else 0)
      + (if f ?p = None then 1 else 0))"
    using missing_step [of 0 f v] missing_step [of 1 f v] missing_step [of 2 f v]
      missing_3 [of f v] by (simp add: numeral_eq_Suc del: missing_3)
  then show ?thesis
    using 1 2 3 up by (auto simp: absent_def Let_def split: option.splits)
qed


section \<open>A state to start from\<close>

lemma tab_inv_bss: "pmm_inv p \<Longrightarrow> tab_inv (paging_bss m p)"
  by (simp add: tab_inv_def paging_bss_def table_list_def)

lemma fresh_root_tree:
  assumes "pmm_inv p" and new: "new_table (paging_bss m p) = (root, s1)" and root: "root \<noteq> 0"
  shows "pt_inv (s1\<lparr>paging_root := root\<rparr>) [[] \<mapsto> root]" and "tables s1 = {root}"
proof -
  note nt = new_table_ok [OF tab_inv_bss [OF assms(1)] new root]
  have none: "tables (paging_bss m p) = {}" by (simp add: table_list_def paging_bss_def)
  then show t: "tables s1 = {root}" using nt by simp
  have zero: "get_entry (ram (mach s1)) root j = 0" if "j < 512" for j
    using nt pw.fill_same [of root j "\<lambda>_. 0"] that by simp
  have "page_tree (ram (mach s1)) root {root} [[] \<mapsto> root]"
    using nt zero by (intro page_treeI tree_shapeI) (auto split: if_splits)
  then show "pt_inv (s1\<lparr>paging_root := root\<rparr>) [[] \<mapsto> root]"
    using nt t by (simp add: pt_inv_def)
qed

lemma fresh_root:
  assumes "pmm_inv p" and tlb: "tlb m = (\<lambda>_. None)"
    and new: "new_table (paging_bss m p) = (root, s1)" and root: "root \<noteq> 0"
  shows "vm_tree (s1\<lparr>paging_root := root, active := True\<rparr>) [[] \<mapsto> root]"
proof -
  have "pt_inv (s1\<lparr>paging_root := root, active := True\<rparr>) [[] \<mapsto> root]"
    using fresh_root_tree(1) [OF assms(1) new root] by (simp add: pt_inv_def)
  moreover have "compact (ram (mach s1)) [[] \<mapsto> root]" by (auto simp: compact_def split: if_splits)
  moreover have "tlb_ok (s1\<lparr>paging_root := root, active := True\<rparr>)"
    using new_table_ok [OF tab_inv_bss [OF assms(1)] new root] tlb
    by (auto simp: tlb_ok_def same_ctl_def paging_bss_def map_le_def dom_def)
  ultimately show ?thesis by (simp add: vm_tree_def)
qed

definition demo_machine :: machine where
  "demo_machine = \<lparr>rsp = 0, rflags = 2, cr0 = 0x80000011, cr3 = 0, cr4 = 0x20, msr = (\<lambda>_. 0),
     cpuid = (\<lambda>_ _. \<lparr>eax = 0, ebx = 0, ecx = 0, edx = 0\<rparr>), ram = demo_memory, tlb = (\<lambda>_. None),
     io = [], device = (\<lambda>_ _. 0)\<rparr>"

text \<open>A data page is allocated, then a root table; the window is active and empty.\<close>

definition demo_paging :: paging where
  "demo_paging = (let p = snd (pmm_alloc True demo_pmm); (root, s) = new_table (paging_bss demo_machine p) in
     s\<lparr>paging_root := root, active := True\<rparr>)"

definition demo_page :: u64 where
  "demo_page = the (fst (pmm_alloc True demo_pmm))"

lemma demo_paging_facts:
  "vm_inv demo_paging" "demo_page \<in> pmm_used (pm demo_paging)" "demo_page \<notin> tables demo_paging"
  "dynamic_address 0xffff800000000000 demo_paging" "vmap demo_paging v = None"
  "3 \<le> budget demo_paging"
proof -
  have c0: "card (pmm_avail demo_pmm) = 13" using card_pmm_avail [OF demo_pmm_inv] demo_available by simp
  then have "pmm_avail demo_pmm \<noteq> {}" by auto
  then obtain a p where a: "pmm_alloc True demo_pmm = (Some a, p)"
    using pmm_fa.alloc_succeeds [OF demo_pmm_inv] by blast
  note al = pmm_fa.alloc_Some [OF demo_pmm_inv a]
  then have pinv: "pmm_inv p" and c1: "card (pmm_avail p) = 12"
    using pmm_fa.alloc_card [OF demo_pmm_inv a] c0 by simp_all
  define s0 where "s0 = paging_bss demo_machine p"
  have t0: "tab_inv s0" using tab_inv_bss [OF pinv] by (simp add: s0_def)
  have b0: "budget s0 = 12" using c1 by (simp add: s0_def budget_def paging_bss_def table_list_def)
  obtain root s1 where new: "new_table s0 = (root, s1)" by (cases "new_table s0")
  have root: "root \<noteq> 0" using new_table_fail [OF t0] new b0 by auto
  note nt = new_table_ok [OF t0 new root]
  have s: "demo_paging = s1\<lparr>paging_root := root, active := True\<rparr>"
    using a new by (simp add: demo_paging_def s0_def)
  have tlb: "tlb demo_machine = (\<lambda>_. None)" by (simp add: demo_machine_def)
  note fr = fresh_root [OF pinv tlb new [unfolded s0_def] root]
    fresh_root_tree(2) [OF pinv new [unfolded s0_def] root]
  have f: "vm_tree demo_paging [[] \<mapsto> root]" using fr(1) s by simp
  have t1: "tables demo_paging = {root}" unfolding s using fr(2) by simp
  show "vm_inv demo_paging" using f by (auto simp: vm_inv_def)
  have d: "demo_page = a" using a by (simp add: demo_page_def)
  show "demo_page \<in> pmm_used (pm demo_paging)" unfolding s using nt al d by (simp add: s0_def paging_bss_def)
  have "root \<in> pmm_avail p" using nt by (simp add: s0_def paging_bss_def)
  then show "demo_page \<notin> tables demo_paging" using al d t1 by auto
  have "rflags (mach s1) = 2" using nt by (simp add: same_ctl_def s0_def paging_bss_def demo_machine_def)
  then show dyn: "dynamic_address 0xffff800000000000 demo_paging"
    by (simp add: dynamic_address_def s x86_read_rflags_def)
  have inv: "pt_inv demo_paging [[] \<mapsto> root]" using f by (simp add: vm_tree_def)
  show "vmap demo_paging v = None"
    using vmap_leaf [OF inv] by (simp add: leaf_def leaf_at_def inner_path_def decode_def)
  have "budget demo_paging = 11"
    using nt b0 fr(2) by (simp add: budget_def s)
  then show "3 \<le> budget demo_paging" by simp
qed


section \<open>Reachable states\<close>

definition paging_op :: "vm_op \<Rightarrow> paging \<Rightarrow> bool \<times> paging" where
  "paging_op = exec_op paging_map paging_unmap paging_protect"

text \<open>The processor may cache any translation it can find.\<close>

definition cpu_fill :: "u64 \<Rightarrow> paging \<Rightarrow> paging" where
  "cpu_fill v s = (if vmap s v = None then s
     else s\<lparr>mach := (mach s)\<lparr>tlb := (tlb (mach s))(v \<mapsto> pte (ram (mach s)) (paging_root s) v)\<rparr>\<rparr>)"

inductive vm_reach :: "paging \<Rightarrow> paging \<Rightarrow> bool" for s0 where
  start: "vm_reach s0 s0"
| request: "vm_reach s0 s \<Longrightarrow> vm_reach s0 (snd (paging_op x s))"
| fill: "vm_reach s0 s \<Longrightarrow> vm_reach s0 (cpu_fill v s)"

lemma cpu_fill_inv: "vm_inv s \<Longrightarrow> vm_inv (cpu_fill v s)"
proof -
  assume "vm_inv s"
  then obtain f where f: "vm_tree s f" by (auto simp: vm_inv_def)
  have "vm_tree (cpu_fill v s) f"
    using f unfolding cpu_fill_def
    by (auto simp: vm_tree_def pt_inv_def tlb_ok_def vmap_def split: if_splits)
  then show ?thesis by (auto simp: vm_inv_def)
qed

lemma paging_op_inv: "vm_inv s \<Longrightarrow> vm_inv (snd (paging_op x s))"
  using vm.do_op_law [of s x "fst (paging_op x s)" "snd (paging_op x s)"] by (simp add: paging_op_def)

lemma vm_reach_inv: "vm_reach s0 s \<Longrightarrow> vm_inv s0 \<Longrightarrow> vm_inv s"
  by (induction rule: vm_reach.induct) (simp_all add: cpu_fill_inv paging_op_inv)

text \<open>A walk that maps a page and then unmaps it ends with the tree it started from.\<close>

lemma roundtrip_tree:
  assumes f: "vm_tree s f" and f1: "pt_inv s1 f1" and f2: "vm_tree s2 f2"
    and le: "f \<subseteq>\<^sub>m f1" "f2 \<subseteq>\<^sub>m f1" and dyn: "dynamic_address v s" and free: "leaf (ram (mach s)) f v = 0"
    and set: "leaf_set v e (ram (mach s)) f (ram (mach s1)) f1"
    and unset: "leaf_set v 0 (ram (mach s1)) f1 (ram (mach s2)) f2"
    and new: "\<forall>q. f q = None \<longrightarrow> f1 q \<noteq> None \<longrightarrow> on_path v q"
    and gone: "\<forall>q. f1 q \<noteq> None \<longrightarrow> f2 q = None \<longrightarrow> q \<noteq> [] \<and> on_path v q"
  shows "f2 = f"
proof
  fix p
  have inv: "pt_inv s f" "pt_inv s2 f2" and c: "compact (ram (mach s)) f" "compact (ram (mach s2)) f2"
    using f f2 by (simp_all add: vm_tree_def)
  note tree = pt_inv_tree [OF inv(1)] and tree2 = pt_inv_tree [OF inv(2)]
  have same: "leaf_at (ram (mach s2)) f2 q j = leaf_at (ram (mach s)) f q j" if "length q = 3" "j < 512" for q j
    using set unset free that by (auto simp: leaf_set_def leaf_def)
  have le1: "f q = Some t \<Longrightarrow> f1 q = Some t" and le2: "f2 q = Some t \<Longrightarrow> f1 q = Some t" for q t
    using le unfolding map_le_def by (metis domI)+
  show "f2 p = f p"
  proof (cases "f2 p")
    case None
    show ?thesis
    proof (cases "f p")
      case (Some t)
      then have "p \<noteq> [] \<and> on_path v p" using le1 gone None by blast
      then have "p \<noteq> []" "hd p = 256" using on_path_hd dyn by blast+
      then obtain q j where q: "length q = 3" "j < 512" "take (length p) q = p" "leaf_at (ram (mach s)) f q j \<noteq> 0"
        using compact_leaf [OF tree c(1) Some] by blast
      then have "f2 q \<noteq> None" using same [OF q(1,2)] by (auto simp: leaf_at_def split: option.splits)
      then show ?thesis using page_tree_prefix [OF tree2, of q "length p"] q(3) None by simp
    qed (simp add: None)
  next
    case (Some t)
    show ?thesis
    proof (cases "f p")
      case None
      then have "on_path v p" using le2 [OF Some] new by blast
      moreover have "p \<noteq> []" using None page_tree_root [OF tree] by auto
      ultimately have "hd p = 256" using on_path_hd dyn by blast
      then obtain q j where q: "length q = 3" "j < 512" "take (length p) q = p" "leaf_at (ram (mach s2)) f2 q j \<noteq> 0"
        using compact_leaf [OF tree2 c(2) Some \<open>p \<noteq> []\<close>] by blast
      then have "f q \<noteq> None" using same [OF q(1,2)] by (auto simp: leaf_at_def split: option.splits)
      then show ?thesis using page_tree_prefix [OF tree, of q "length p"] q(3) None by simp
    next
      case f: (Some u)
      then show ?thesis using le1 [OF f] le2 [OF Some] Some by simp
    qed
  qed
qed

lemma unat_pt_index: "unat (pt_index v shift) = unat v div 2 ^ shift mod 512"
proof -
  have "pt_index v shift = take_bit 9 (drop_bit shift v)"
    by (simp add: pt_index_def take_bit_eq_mask mask_eq_exp_minus_1)
  moreover have "unat (drop_bit shift v) = unat v div 2 ^ shift"
    unfolding unat_drop_bit_eq by (simp add: drop_bit_eq_div)
  ultimately show ?thesis by (simp add: take_bit_eq_mod [of 9] unat_mod)
qed

lemma window_address:
  fixes i1 i2 j :: u64
  assumes "i1 < 512" and "i2 < 512" and "j < 512"
  obtains v where "inner_path v = [256, i1, i2]" and "pt_index v 12 = j" and "page_aligned v"
    and "v \<ge> PAGING_DYNAMIC_BASE" and "v - PAGING_DYNAMIC_BASE < PAGING_DYNAMIC_SIZE"
proof -
  define x where "x = 512 * (512 * unat i1 + unat i2) + unat j"
  define v :: u64 where "v = of_nat ((0xffff800000000 + x) * 4096)"
  have i: "unat i1 < 512" "unat i2 < 512" "unat j < 512" using assms by (simp_all add: word_less_nat_alt)
  have x: "x < 0x8000000" using i by (simp add: x_def)
  have "(0xffff800000000 + x) * 4096 < 2 ^ 64" using x by simp
  then have v: "unat v = (0xffff800000000 + x) * 4096" unfolding v_def by (rule unat_of_nat64)
  have d: "(0xffff800000000 + x) div 512 = 0x7fffc000000 + (512 * unat i1 + unat i2)"
    "(0x7fffc000000 + (512 * unat i1 + unat i2)) div 512 = 0x3fffe0000 + unat i1"
    "(0x3fffe0000 + unat i1) div 512 = 0x1ffff00"
    using i by (simp_all add: x_def)
  have q: "unat v div 2 ^ 12 = 0xffff800000000 + x" using v by simp
  have "unat v div 2 ^ 21 = unat v div 2 ^ 12 div 512" "unat v div 2 ^ 30 = unat v div 2 ^ 12 div 512 div 512"
    "unat v div 2 ^ 39 = unat v div 2 ^ 12 div 512 div 512 div 512" by (simp_all add: div_mult2_eq [symmetric])
  then have q': "unat v div 2 ^ 21 = 0x7fffc000000 + (512 * unat i1 + unat i2)"
    "unat v div 2 ^ 30 = 0x3fffe0000 + unat i1" "unat v div 2 ^ 39 = 0x1ffff00"
    using q d by simp_all
  have rem: "(512 * a + r) mod 512 = r" if "r < 512" for a r :: nat using that by simp
  have "unat (pt_index v 39) = 256" "unat (pt_index v 30) = unat i1" "unat (pt_index v 21) = unat i2"
    "unat (pt_index v 12) = unat j"
    unfolding unat_pt_index q q'
    using i rem [of "unat i1" "0x1ffff00"] rem [of "unat i2" "0x3fffe0000 + unat i1"]
      rem [of "unat j" "0x7fffc000000 + (512 * unat i1 + unat i2)"]
    by (simp_all add: x_def add_mult_distrib2 add.assoc)
  then have "inner_path v = [256, i1, i2]" "pt_index v 12 = j"
    by (simp_all add: inner_path_def word_unat_eq_iff)
  moreover have "page_aligned v" using v by (simp add: page_aligned_unat)
  moreover have base: "v \<ge> PAGING_DYNAMIC_BASE" using v x by (simp add: word_le_nat_alt)
  moreover have "v - PAGING_DYNAMIC_BASE < PAGING_DYNAMIC_SIZE"
    using v x unat_sub [OF base] by (simp add: word_less_nat_alt)
  ultimately show ?thesis by (rule that)
qed


section \<open>Properties\<close>

text \<open>
  C3: \<open>paging_map\<close> returns true exactly when the address is a page of the active window
  with interrupts off, the flags are known ones, the frame is allocated and is not itself a
  page table, the page is not mapped, and the missing tables (\<open>absent\<close>, at most three) fit
  into the table budget and the free frames. Then the page, and no other, translates to the
  frame with the requested rights, and exactly the missing tables were allocated. In every
  other case (the rollback included) no translation changes and the tables, the allocated
  frames and the free frames are as before. The invariant is kept either way.\<close>

theorem paging_map_exact:
  assumes "vm_inv s" and "paging_map v p fl s = (r, s')"
  shows "(r \<longleftrightarrow> dynamic_address v s \<and> valid_flags fl \<and> p \<in> pmm_used (pm s) \<and> p \<notin> tables s
        \<and> vmap s v = None \<and> absent s v \<le> budget s)
    \<and> vm_inv s' \<and> vmap s' = (if r then (vmap s)(v \<mapsto> make_mapping p fl) else vmap s)
    \<and> tables s \<subseteq> tables s' \<and> card (tables s' - tables s) = (if r then absent s v else 0)
    \<and> pmm_used (pm s') = pmm_used (pm s) \<union> (tables s' - tables s)
    \<and> pmm_avail (pm s') = pmm_avail (pm s) - (tables s' - tables s)"
proof -
  obtain f where f: "vm_tree s f" using assms(1) by (auto simp: vm_inv_def)
  then have inv: "pt_inv s f" by (simp add: vm_tree_def)
  have iff: "map_possible v p fl s f \<longleftrightarrow> dynamic_address v s \<and> valid_flags fl \<and> p \<in> pmm_used (pm s)
      \<and> p \<notin> tables s \<and> vmap s v = None \<and> absent s v \<le> budget s"
    using vmap_None [OF inv] dynamic_vpage
    by (auto simp: map_possible_def map_guard_def absent_missing [OF inv])
  show ?thesis
  proof (cases "map_possible v p fl s f")
    case True
    obtain t f' where "paging_map v p fl s = (True, t)" "vm_tree t f'" "vmap t = apply_op (Map v p fl) (vmap s)"
      "tables s \<subseteq> tables t" "card (tables t - tables s) = missing f v 0"
      "pmm_used (pm t) = pmm_used (pm s) \<union> (tables t - tables s)"
      "pmm_avail (pm t) = pmm_avail (pm s) - (tables t - tables s)"
      using vm_map_ok [OF f True] by (elim exE conjE)
    then show ?thesis using True iff assms(2) absent_missing [OF inv, of v] by (auto simp: vm_inv_def)
  next
    case False
    then show ?thesis using iff vm_map_fail [OF f False] assms(2) by (auto simp: vm_inv_def)
  qed
qed

theorem paging_map_exact_witness:
  "fst (paging_map 0xffff800000000000 demo_page 3 demo_paging) = True"
proof -
  have "absent demo_paging 0xffff800000000000 \<le> 3"
    by (simp add: absent_def Let_def split: option.splits)
  then have "absent demo_paging 0xffff800000000000 \<le> budget demo_paging"
    using demo_paging_facts(6) by simp
  then show ?thesis
    using paging_map_exact [OF demo_paging_facts(1), of "0xffff800000000000" demo_page 3
        "fst (paging_map 0xffff800000000000 demo_page 3 demo_paging)"
        "snd (paging_map 0xffff800000000000 demo_page 3 demo_paging)"] demo_paging_facts
    by (simp add: valid_flags_def)
qed

text \<open>
  C5: Mapping a page and unmapping it again gives back everything: the unmap succeeds, the
  set of page tables, the allocated and the free frames and all translations are those from
  before the map. In particular every table made on the way is released, and the data frame
  is not freed.\<close>

theorem paging_map_unmap_roundtrip:
  assumes "vm_inv s" and map: "paging_map v p fl s = (True, s1)" and unmap: "paging_unmap v s1 = (r, s2)"
  shows "r \<and> vm_inv s2 \<and> tables s2 = tables s \<and> pmm_used (pm s2) = pmm_used (pm s)
    \<and> pmm_avail (pm s2) = pmm_avail (pm s) \<and> vmap s2 = vmap s"
proof -
  obtain f where f: "vm_tree s f" using assms(1) by (auto simp: vm_inv_def)
  then have inv: "pt_inv s f" by (simp add: vm_tree_def)
  have poss: "map_possible v p fl s f" using vm_map_fail [OF f, of v p fl] map by auto
  then have dyn: "dynamic_address v s" and free: "leaf (ram (mach s)) f v = 0"
    by (simp_all add: map_possible_def map_guard_def)
  obtain f1 where f1: "vm_tree s1 f1" "same_ctl s s1" "vmap s1 = apply_op (Map v p fl) (vmap s)" "f \<subseteq>\<^sub>m f1"
    "leaf_set v (p OR leaf_flags fl) (ram (mach s)) f (ram (mach s1)) f1"
    "\<forall>q. f q = None \<longrightarrow> f1 q \<noteq> None \<longrightarrow> on_path v q" "tables s \<subseteq> tables s1"
    "tables s1 - tables s \<subseteq> pmm_avail (pm s)"
    "pmm_used (pm s1) = pmm_used (pm s) \<union> (tables s1 - tables s)"
    "pmm_avail (pm s1) = pmm_avail (pm s) - (tables s1 - tables s)"
    using vm_map_ok [OF f poss] map by (elim exE conjE) (simp only: prod.inject simp_thms)
  have dyn1: "dynamic_address v s1" using dynamic_same_ctl [OF f1(2)] dyn by simp
  have mapped: "vmap s1 v \<noteq> None" using f1(3) by simp
  obtain f2 where f2: "r" "vm_tree s2 f2" "vmap s2 = apply_op (Unmap v) (vmap s1)" "f2 \<subseteq>\<^sub>m f1"
    "leaf_set v 0 (ram (mach s1)) f1 (ram (mach s2)) f2"
    "\<forall>q. f1 q \<noteq> None \<longrightarrow> f2 q = None \<longrightarrow> q \<noteq> [] \<and> on_path v q" "tables s2 \<subseteq> tables s1"
    "pmm_used (pm s2) = pmm_used (pm s1) - (tables s1 - tables s2)"
    "pmm_avail (pm s2) = pmm_avail (pm s1) \<union> (tables s1 - tables s2)"
    using vm_unmap_ok [OF f1(1) dyn1 mapped] unmap by (elim exE conjE) (simp only: prod.inject simp_thms)
  have eq: "f2 = f"
    using f1(1) by (intro roundtrip_tree [OF f _ f2(2) f1(4) f2(4) dyn free f1(5) f2(5) f1(6) f2(6)])
      (simp add: vm_tree_def)
  have "ran f = tables s" "ran f2 = tables s2"
    using f f2(2) by (simp_all add: vm_tree_def pt_inv_def page_tree_def tree_shape_def)
  then have t: "tables s2 = tables s" using eq by simp
  have "vmap s v = None" using vmap_None [OF inv dynamic_vpage [OF dyn]] free by simp
  then have "vmap s2 = vmap s" using f1(3) f2(3) by (auto simp: fun_eq_iff)
  moreover have "pmm_used (pm s) \<inter> pmm_avail (pm s) = {}"
    using pmm_fa.disjoint inv by (auto simp: pt_inv_def tab_inv_def)
  ultimately show ?thesis
    using f2 f1 t by (auto simp: vm_inv_def)
qed

text \<open>The page mapped in the example.\<close>

definition demo_mapped :: paging where
  "demo_mapped = snd (paging_map 0xffff800000000000 demo_page 3 demo_paging)"

lemma demo_map: "paging_map 0xffff800000000000 demo_page 3 demo_paging = (True, demo_mapped)"
proof -
  obtain f where f: "vm_tree demo_paging f" using demo_paging_facts(1) by (auto simp: vm_inv_def)
  then have inv: "pt_inv demo_paging f" by (simp add: vm_tree_def)
  have "missing f 0xffff800000000000 0 \<le> 3"
    unfolding absent_missing [OF inv, symmetric] by (simp add: absent_def Let_def split: option.splits)
  then have "map_possible 0xffff800000000000 demo_page 3 demo_paging f"
    using demo_paging_facts vmap_None [OF inv dynamic_vpage [OF demo_paging_facts(4)]]
    by (simp add: map_possible_def map_guard_def valid_flags_def)
  from vm_map_ok [OF f this] show ?thesis by (auto simp: demo_mapped_def)
qed

theorem paging_map_unmap_roundtrip_witness:
  "vmap (snd (paging_unmap 0xffff800000000000 demo_mapped)) = vmap demo_paging
   \<and> fst (paging_unmap 0xffff800000000000 demo_mapped)"
  using paging_map_unmap_roundtrip [OF demo_paging_facts(1) demo_map,
      of "fst (paging_unmap 0xffff800000000000 demo_mapped)"
         "snd (paging_unmap 0xffff800000000000 demo_mapped)"] by simp

text \<open>
  C7: \<open>paging_unmap\<close>, \<open>paging_protect\<close> and \<open>paging_query\<close> at a page. Unmap and protect succeed
  exactly on mapped pages of the window (with known flags), and otherwise change nothing.
  Unmap removes this translation only, never frees anything but page tables, and frees a
  table only by removing it from the tree; protect keeps the frame and installs the
  requested rights; query returns the frame and flags in force, and nothing for a null
  pointer, an unmapped page or a page outside the window.\<close>

theorem paging_unmap_protect_query:
  assumes "vm_inv s"
  shows "(let (r, s') = paging_unmap v s in
        (r \<longleftrightarrow> dynamic_address v s \<and> vmap s v \<noteq> None) \<and> (\<not> r \<longrightarrow> s' = s)
        \<and> vm_inv s' \<and> vmap s' = (if r then (vmap s)(v := None) else vmap s)
        \<and> tables s' \<subseteq> tables s \<and> pmm_used (pm s') = pmm_used (pm s) - (tables s - tables s'))
    \<and> (let (r, s') = paging_protect v fl s in
        (r \<longleftrightarrow> dynamic_address v s \<and> valid_flags fl \<and> vmap s v \<noteq> None) \<and> (\<not> r \<longrightarrow> s' = s)
        \<and> vm_inv s' \<and> pm s' = pm s \<and> tables s' = tables s
        \<and> vmap s' = (if r then (vmap s)(v \<mapsto> make_mapping (frame_of (the (vmap s v))) fl) else vmap s))
    \<and> paging_query v a b s = (if dynamic_address v s \<and> a \<and> b
        then map_option (\<lambda>mp. (frame_of mp, flags_of mp)) (vmap s v) else None)"
proof -
  obtain f where f: "vm_tree s f" using assms(1) by (auto simp: vm_inv_def)
  then have inv: "pt_inv s f" by (simp add: vm_tree_def)
  have "paging_query v a b s = (if dynamic_address v s \<and> a \<and> b
      then map_option (\<lambda>mp. (frame_of mp, flags_of mp)) (vmap s v) else None)"
    using paging_query_eq [OF inv, of v a b] vmap_leaf [OF inv] dynamic_vpage by auto
  moreover have "let (r, s') = paging_unmap v s in
      (r \<longleftrightarrow> dynamic_address v s \<and> vmap s v \<noteq> None) \<and> (\<not> r \<longrightarrow> s' = s)
      \<and> vm_inv s' \<and> vmap s' = (if r then (vmap s)(v := None) else vmap s)
      \<and> tables s' \<subseteq> tables s \<and> pmm_used (pm s') = pmm_used (pm s) - (tables s - tables s')"
  proof (cases "dynamic_address v s \<and> vmap s v \<noteq> None")
    case True
    then obtain t f' where "paging_unmap v s = (True, t)" "vm_tree t f'"
      "vmap t = apply_op (Unmap v) (vmap s)" "tables t \<subseteq> tables s"
      "pmm_used (pm t) = pmm_used (pm s) - (tables s - tables t)"
      using vm_unmap_ok [OF f, of v] by (elim exE conjE) blast
    then show ?thesis using True by (auto simp: vm_inv_def)
  next
    case False
    then show ?thesis using vm_unmap_fail [OF f False] assms by auto
  qed
  moreover have "let (r, s') = paging_protect v fl s in
      (r \<longleftrightarrow> dynamic_address v s \<and> valid_flags fl \<and> vmap s v \<noteq> None) \<and> (\<not> r \<longrightarrow> s' = s)
      \<and> vm_inv s' \<and> pm s' = pm s \<and> tables s' = tables s
      \<and> vmap s' = (if r then (vmap s)(v \<mapsto> make_mapping (frame_of (the (vmap s v))) fl) else vmap s)"
  proof (cases "dynamic_address v s \<and> valid_flags fl \<and> vmap s v \<noteq> None")
    case True
    then obtain t where "paging_protect v fl s = (True, t)" "vm_tree t f"
      "vmap t = apply_op (Protect v fl) (vmap s)" "tables t = tables s" "pm t = pm s"
      using vm_protect_ok [OF f, of v fl] by blast
    then show ?thesis using True by (auto simp: vm_inv_def)
  next
    case False
    then show ?thesis using vm_protect_fail [OF f False] assms by auto
  qed
  ultimately show ?thesis by blast
qed

theorem paging_unmap_protect_query_witness:
  "paging_unmap 0xffff800000000000 demo_paging = (False, demo_paging)
   \<and> paging_query 0xffff800000000000 True True demo_paging = None"
  using paging_unmap_protect_query [OF demo_paging_facts(1), of "0xffff800000000000" 0 True True]
    demo_paging_facts(5) by (auto split: prod.splits)

text \<open>
  C4: A sequence of requests of any length and content acts on the translations exactly as
  its successful requests act on an abstract map from pages to frames and rights, and keeps
  the invariant.\<close>

theorem paging_ops_refine:
  assumes "vm_inv s" and "exec_ops paging_op xs s = (rs, s')"
  shows "vm_inv s' \<and> length rs = length xs \<and> vmap s' = apply_ops xs rs (vmap s)"
  using vm.do_ops_view [OF assms(1), of xs rs s'] assms(2) by (simp add: paging_op_def)

theorem paging_ops_refine_witness:
  "length (fst (exec_ops paging_op [Map 0xffff800000000000 demo_page 3, Unmap 0xffff800000000000] demo_paging)) = 2"
  using paging_ops_refine [OF demo_paging_facts(1),
      of "[Map 0xffff800000000000 demo_page 3, Unmap 0xffff800000000000]"
        "fst (exec_ops paging_op [Map 0xffff800000000000 demo_page 3, Unmap 0xffff800000000000] demo_paging)"
        "snd (exec_ops paging_op [Map 0xffff800000000000 demo_page 3, Unmap 0xffff800000000000] demo_paging)"]
  by simp

text \<open>
  C6: No stale translation: in every state reached by requests interleaved with the
  processor caching whatever it finds, each cached entry is the one the page walk gives now.
  So the \<open>invlpg\<close> instructions the code issues are enough.\<close>

theorem paging_no_stale_translation:
  assumes "vm_inv s0" and "vm_reach s0 s" and "tlb (mach s) v = Some e"
  shows "decode e = vmap s v"
proof -
  obtain f where f: "vm_tree s f" using vm_reach_inv [OF assms(2,1)] by (auto simp: vm_inv_def)
  then have "vpage v" "e = pte (ram (mach s)) (paging_root s) v"
    using assms(3) by (auto simp: vm_tree_def tlb_ok_def)
  then show ?thesis
    using translate_pte [of _ _ _ f] f by (auto simp: vmap_def vm_tree_def pt_inv_def)
qed

theorem paging_no_stale_translation_witness:
  "decode (the (tlb (mach (cpu_fill 0xffff800000000000 demo_mapped)) 0xffff800000000000)) =
   vmap (cpu_fill 0xffff800000000000 demo_mapped) 0xffff800000000000"
proof -
  have m: "vmap demo_mapped 0xffff800000000000 \<noteq> None"
    using vm.map_law [OF demo_paging_facts(1) demo_map] by simp
  have "vm_reach demo_paging (cpu_fill 0xffff800000000000 (snd (paging_op (Map 0xffff800000000000 demo_page 3) demo_paging)))"
    by (intro vm_reach.intros)
  then have r: "vm_reach demo_paging (cpu_fill 0xffff800000000000 demo_mapped)"
    by (simp add: paging_op_def exec_op_def demo_map)
  show ?thesis
    by (rule paging_no_stale_translation [OF demo_paging_facts(1) r]) (use m in \<open>auto simp: cpu_fill_def\<close>)
qed

text \<open>
  C8: No leaked tables: in every reachable state in which no page of the window is mapped,
  the window owns no page table at all, so its three levels are all absent.\<close>

theorem paging_window_empty_no_tables:
  assumes "vm_inv s0" and "vm_reach s0 s" and "\<forall>v. dynamic_address v s \<longrightarrow> vmap s v = None"
    and "dynamic_address w s"
  shows "absent s w = 3"
proof -
  obtain f where f: "vm_tree s f" using vm_reach_inv [OF assms(2,1)] by (auto simp: vm_inv_def)
  then have inv: "pt_inv s f" and c: "compact (ram (mach s)) f" by (simp_all add: vm_tree_def)
  note tree = pt_inv_tree [OF inv]
  have "f [256] = None"
  proof (rule ccontr)
    assume "f [256] \<noteq> None"
    then obtain t where t: "f [256] = Some t" by auto
    obtain q j where q: "length q = 3" "j < 512" "take 1 q = [256]" "leaf_at (ram (mach s)) f q j \<noteq> 0"
      using compact_leaf [OF tree c t] by auto
    then obtain i1 i2 where q3: "q = [256, i1, i2]" by (auto simp: numeral_3_eq_3 length_Suc_conv)
    have fq: "f ([256, i1] @ [i2]) \<noteq> None" using q(4) q3 by (auto simp: leaf_at_def split: option.splits)
    then have "i2 < 512" "f ([256] @ [i1]) \<noteq> None"
      using tree_shape_parent [OF page_tree_shape [OF tree] fq] by auto
    then have "i1 < 512" using tree_shape_parent [OF page_tree_shape [OF tree], of "[256]" i1] by auto
    then obtain v where v: "inner_path v = q" "pt_index v 12 = j" "page_aligned v"
      "v \<ge> PAGING_DYNAMIC_BASE" "v - PAGING_DYNAMIC_BASE < PAGING_DYNAMIC_SIZE"
      using window_address [OF _ \<open>i2 < 512\<close> q(2), of i1] q3 by metis
    then have dyn: "dynamic_address v s" using assms(4) by (simp add: dynamic_address_def and_4095_iff)
    moreover have "leaf (ram (mach s)) f v \<noteq> 0" using v q(4) by (simp add: leaf_def)
    ultimately show False using assms(3) vmap_None [OF inv dynamic_vpage [OF dyn]] by simp
  qed
  then have "next_table (ram (mach s)) (paging_root s) (pt_index w 39) = None"
    using next_table_tree [OF tree page_tree_root [OF tree]] dynamic_root_index [OF assms(4)] by simp
  then show ?thesis by (simp add: absent_def)
qed

theorem paging_window_empty_no_tables_witness: "absent demo_paging 0xffff800000000000 = 3"
  using paging_window_empty_no_tables [OF demo_paging_facts(1) vm_reach.start _ demo_paging_facts(4)]
    demo_paging_facts(5) by simp

end
