(* ===== verification/PagingInit.thy ===== *)
theory PagingInit
  imports PagingBoot PagingProps
begin

text \<open>
  The second half of \<open>paging_init\<close>: the checks on the finished map, the guard pages,
  activation and discarding, and the theorem on the whole function.
\<close>

section \<open>Walking the finished map\<close>

lemma identity_leaf_step:
  assumes inv: "pt_inv s f" and k: "k < 3" and t: "f (take k (inner_path w)) = Some t"
  shows "identity_leaf s w (39 - 9 * k) t =
    (case f (take (Suc k) (inner_path w)) of None \<Rightarrow> False | Some u \<Rightarrow> identity_leaf s w (39 - 9 * Suc k) u)"
proof -
  have len: "length (take k (inner_path w)) < 3" using k by simp
  note e = rd_entry [OF inv t len level_less [OF k, of w]]
  note idx = level_index [OF k, of w, symmetric]
  have shift: "\<not> 39 - 9 * k \<le> 12" "39 - 9 * k - 9 = 39 - 9 * Suc k" using k by simp_all
  show ?thesis
    using e level_take [OF k, of w]
    by (subst identity_leaf.simps) (auto simp: shift Let_def idx simp del: diff_diff_left split: option.splits)
qed

lemma walk_3:
  assumes step: "\<And>k t. k < 3 \<Longrightarrow> f (take k (inner_path w)) = Some t \<Longrightarrow>
      F (39 - 9 * k) t = (case f (take (Suc k) (inner_path w)) of None \<Rightarrow> z | Some u \<Rightarrow> F (39 - 9 * Suc k) u)"
    and root: "f [] = Some root" and tree: "page_tree m r T f"
  shows "F 39 root = (case f (inner_path w) of None \<Rightarrow> z | Some u \<Rightarrow> F 12 u)"
proof -
  let ?p = "inner_path w"
  have up: "f ?p \<noteq> None \<Longrightarrow> f (take 2 ?p) \<noteq> None" "f (take 2 ?p) \<noteq> None \<Longrightarrow> f (take 1 ?p) \<noteq> None"
    using page_tree_prefix [OF tree, of ?p 2] page_tree_prefix [OF tree, of "take 2 ?p" 1] by simp_all
  have 0: "F 39 root = (case f (take 1 ?p) of None \<Rightarrow> z | Some u \<Rightarrow> F 30 u)"
    using step [of 0 root] root by (simp split: option.splits)
  have 1: "F 30 t = (case f (take 2 ?p) of None \<Rightarrow> z | Some u \<Rightarrow> F 21 u)" if "f (take 1 ?p) = Some t" for t
    using step [of 1 t] that by (simp add: numeral_2_eq_2 split: option.splits)
  have 2: "F 21 t = (case f ?p of None \<Rightarrow> z | Some u \<Rightarrow> F 12 u)" if "f (take 2 ?p) = Some t" for t
    using step [of 2 t] that by (simp split: option.splits)
  show ?thesis using 0 1 2 up by (auto split: option.splits)
qed

lemma identity_leaf_eq:
  assumes inv: "pt_inv s f"
  shows "identity_leaf s w 39 (paging_root s) \<longleftrightarrow>
    present (leaf (ram (mach s)) f w) \<and> leaf (ram (mach s)) f w AND ADDRESS_MASK = w"
proof -
  note tree = pt_inv_tree [OF inv]
  have "identity_leaf s w 12 u \<longleftrightarrow> present (rd s u (pt_index w 12)) \<and> rd s u (pt_index w 12) AND ADDRESS_MASK = w" for u
    by (subst identity_leaf.simps) (simp add: Let_def)
  then show ?thesis
    using walk_3 [of f w "identity_leaf s w" False, OF identity_leaf_step [OF inv] page_tree_root [OF tree] tree]
    by (auto simp: leaf_def leaf_at_def rd_def split: option.splits)
qed

lemma identity_leaf_ident:
  assumes id: "ident L P s f" and w: "vpage w" "w \<noteq> 0"
  shows "identity_leaf s w 39 (paging_root s) \<longleftrightarrow> w \<in> P"
proof -
  have inv: "pt_inv s f" and leaf: "leaf (ram (mach s)) f w = (if w \<in> P then w OR page_flags L w else 0)"
    using id w by (simp_all add: ident_def)
  have "(w OR page_flags L w) AND ADDRESS_MASK = w" if "w \<in> P"
    using that id page_flags_bits(1) by (intro entry_address frame_table_addr) (auto simp: ident_def)
  then show ?thesis
    unfolding identity_leaf_eq [OF inv] leaf using page_entry_present [of w L] by auto
qed

lemma guard_table_eq:
  assumes inv: "pt_inv s f" and t: "f (inner_path g) = Some t"
  shows "guard_table s g 39 (paging_root s) = t"
proof -
  note tree = pt_inv_tree [OF inv]
  have step: "guard_table s g (39 - 9 * k) u = guard_table s g (39 - 9 * Suc k) (path_table f g (Suc k))"
    if k: "k < 3" and u: "f (take k (inner_path g)) = Some u" for k u
  proof -
    have len: "length (take k (inner_path g)) < 3" using k by simp
    note e = rd_entry [OF inv u len level_less [OF k, of g]]
    note idx = level_index [OF k, of g, symmetric]
    have shift: "39 - 9 * k > 12" "39 - 9 * k - 9 = 39 - 9 * Suc k" using k by simp_all
    have "f (take (Suc k) (inner_path g)) = Some (path_table f g (Suc k))"
      using path_prefix [OF tree, of 3 g t "Suc k"] t k by simp
    then show ?thesis
      using e level_take [OF k, of g]
      by (subst guard_table.simps) (simp add: shift idx del: diff_diff_left)
  qed
  have p: "f (take k (inner_path g)) = Some (path_table f g k)" if "k \<le> 3" for k
    using path_prefix [OF tree, of 3 g t k] t that by simp
  have "path_table f g 0 = paging_root s" using page_tree_root [OF tree] by (simp add: path_table_def)
  then have "guard_table s g 39 (paging_root s) = guard_table s g 12 (path_table f g 3)"
    using step [OF _ p, of 0] step [OF _ p, of 1] step [OF _ p, of 2] by (simp add: numeral_eq_Suc)
  moreover have "path_table f g 3 = t" using t by (simp add: path_table_def)
  ultimately show ?thesis by (simp add: guard_table.simps)
qed


section \<open>Checking ranges\<close>

lemma for_pages_all:
  assumes "page_aligned b" and "e \<le> PMM_LIMIT"
  shows "for_pages b e (\<lambda>p _. if Q p then Inr () else Inl False) () =
    (if \<forall>w \<in> page_run b e. Q w then Inr () else Inl False)"
  using assms
proof (induction b e "\<lambda>p (_ :: unit). if Q p then Inr () else Inl False" "()" rule: for_pages.induct)
  case (1 b e)
  let ?body = "\<lambda>p (_ :: unit). if Q p then Inr () else Inl False"
  show ?case
  proof (cases "b < e")
    case False
    then show ?thesis by (subst for_pages.simps) (simp add: page_run_empty)
  next
    case True
    then have lt: "b < e \<and> e \<le> PMM_LIMIT" using 1(3) by simp
    note st = page_run_step [OF 1(2) True 1(3)]
    show ?thesis
    proof (cases "Q b")
      case False
      then show ?thesis unfolding st(2) by (subst for_pages.simps) (simp add: lt)
    next
      case q: True
      then have "for_pages (b + 4096) e ?body () = (if \<forall>w \<in> page_run (b + 4096) e. Q w then Inr () else Inl False)"
        using 1(1) [OF lt _ st(1) 1(3)] by simp
      then show ?thesis unfolding st(2) using q by (subst for_pages.simps) (simp add: lt)
    qed
  qed
qed

lemma base_bit: "bit (g AND NOT 4095 :: u64) k \<longleftrightarrow> bit g k \<and> 12 \<le> k"
proof -
  have eq: "(4095 :: u64) = mask 12" by (simp add: mask_eq_exp_minus_1)
  have "k < 64" if "bit g k" using bit_imp_le_length [OF that] by simp
  then show ?thesis
    unfolding eq by (auto simp: bit_and_iff bit_not_iff bit_mask_iff simp del: mask_numeral)
qed

lemma base_aligned: "page_aligned (g AND NOT 4095)"
proof -
  have "take_bit 12 (g AND NOT 4095) = 0"
    by (rule bit_word_eqI) (simp only: bit_take_bit_iff base_bit bit_0_eq, simp)
  then show ?thesis by (simp only: page_aligned_def take_bit_eq_mod) simp
qed

lemma base_index: "12 \<le> shift \<Longrightarrow> pt_index (g AND NOT 4095) shift = pt_index g shift"
  by (rule bit_word_eqI) (simp only: bit_pt_index base_bit, simp)

lemma base_path: "inner_path (g AND NOT 4095) = inner_path g"
  unfolding inner_path_def by (simp only: base_index)

lemma base_le: "(g AND NOT 4095 :: u64) \<le> g"
  by (rule word_and_le2)

lemma base_low:
  assumes "(0x100000 :: u64) \<le> b"
  shows "0x100000 \<le> b AND NOT 4095"
proof -
  have "0x100000 div 4096 \<le> unat b div 4096" using assms by (intro div_le_mono) (simp add: word_le_nat_alt)
  moreover have "drop_bit 12 (b AND NOT 4095) = drop_bit 12 b"
    by (rule bit_word_eqI) (simp only: bit_drop_bit_eq comp_def base_bit, simp)
  then have "unat (drop_bit 12 (b AND NOT 4095)) = unat (drop_bit 12 b)" by simp
  then have "unat (b AND NOT 4095) div 4096 = unat b div 4096"
    unfolding unat_drop_bit_eq by (simp add: drop_bit_eq_div)
  ultimately have "0x100 \<le> unat (b AND NOT 4095) div 4096" by simp
  then have "0x100000 \<le> unat (b AND NOT 4095)" by simp
  then show ?thesis by (simp add: word_le_nat_alt)
qed

lemma mapped_range_ident:
  assumes id: "ident L P s f" and mr: "mapped_range s b sz"
  shows "page_run (b AND NOT 4095) (b + sz) \<subseteq> P" and "0x100000 \<le> b" and "b < PMM_LIMIT"
    and "unat b + unat sz \<le> 0x100000000" and "sz \<noteq> 0" and "b AND NOT 4095 \<in> P"
proof -
  have g: "sz \<noteq> 0" "0x100000 \<le> b" "b < PMM_LIMIT" "sz \<le> PMM_LIMIT - b"
    using mr by (auto simp: mapped_range_def split: if_splits)
  then have lt: "unat b < 0x100000000" by (simp add: word_less_nat_alt)
  have "unat (PMM_LIMIT - b) = 0x100000000 - unat b" using g(3) by (simp add: unat_sub)
  then show sum: "unat b + unat sz \<le> 0x100000000" using g(4) lt by (simp add: word_le_nat_alt)
  show "0x100000 \<le> b" "b < PMM_LIMIT" "sz \<noteq> 0" using g by simp_all
  have e: "unat (b + sz) = unat b + unat sz" using sum by (intro unat_add_no_wrap) simp
  then have e': "b + sz \<le> PMM_LIMIT" using sum by (simp add: word_le_nat_alt)
  have all: "\<forall>w \<in> page_run (b AND NOT 4095) (b + sz). identity_leaf s w 39 (paging_root s)"
    using mr g for_pages_all [OF base_aligned e', of b "\<lambda>w. identity_leaf s w 39 (paging_root s)"]
    by (auto simp: mapped_range_def split: if_splits)
  note low = base_low [OF g(2)]
  show sub: "page_run (b AND NOT 4095) (b + sz) \<subseteq> P"
  proof
    fix w assume w: "w \<in> page_run (b AND NOT 4095) (b + sz)"
    then have "frame_addr w" using low e' unfolding frame_addr_def page_run_def
      by (metis (mono_tags, lifting) mem_Collect_eq order_trans order_less_le_trans)
    then have "vpage w" "w \<noteq> 0" using frame_vpage frame_table_addr by (auto simp: table_addr_def)
    then show "w \<in> P" using all w identity_leaf_ident [OF id] by blast
  qed
  have "b < b + sz" using e g(1) by (simp add: word_less_nat_alt unat_gt_0)
  then have "b AND NOT 4095 \<in> page_run (b AND NOT 4095) (b + sz)"
    using base_aligned base_le [of b] by (auto simp: page_run_def intro: order_le_less_trans)
  then show "b AND NOT 4095 \<in> P" using sub by blast
qed


section \<open>Guard pages\<close>

lemma same_page_base: "vpage w \<Longrightarrow> frame_addr (g AND NOT 4095) \<Longrightarrow> same_page g w \<longleftrightarrow> w = g AND NOT 4095"
  using same_page_iff [OF frame_vpage, of "g AND NOT 4095" w] base_path [of g] base_index [of 12 g]
  by (auto simp: same_page_def)

lemma ident_nonzero:
  assumes "ident L P s f" and "w \<in> P"
  shows "leaf (ram (mach s)) f w \<noteq> 0"
proof -
  have "leaf (ram (mach s)) f w = w OR page_flags L w"
    using assms frame_vpage by (auto simp: ident_def)
  then show ?thesis using page_entry_present [of w L] by auto
qed

lemma unmap_guards_ok:
  "ident L P s f \<Longrightarrow> unmap_guards gs s = (r, s') \<Longrightarrow>
   \<exists>P' f'. ident L P' s' f' \<and> alloc_ext s s'
     \<and> (r \<longrightarrow> P' = P - (\<lambda>g. g AND NOT 4095) ` set gs \<and> (\<lambda>g. g AND NOT 4095) ` set gs \<subseteq> P)"
proof (induction gs arbitrary: s P f)
  case Nil
  then show ?case by auto
next
  case (Cons g gs)
  show ?case
  proof (cases "mapped_range s g 4096")
    case False
    then show ?thesis using Cons.prems by auto
  next
    case True
    let ?b = "g AND NOT 4095"
    have inv: "pt_inv s f" using Cons.prems(1) by (simp add: ident_def)
    note tree = pt_inv_tree [OF inv]
    have b: "?b \<in> P" by (rule mapped_range_ident(6) [OF Cons.prems(1) True])
    then have fb: "frame_addr ?b" using Cons.prems(1) by (auto simp only: ident_def)
    then have "leaf (ram (mach s)) f ?b \<noteq> 0"
      using ident_nonzero [OF Cons.prems(1) b] by blast
    then obtain t where "f (inner_path ?b) = Some t" using leaf_table by blast
    then have t: "f (inner_path g) = Some t" by (simp only: base_path)
    let ?s = "wr t (pt_index g 12) 0 s"
    have run: "unmap_guards gs ?s = (r, s')" using Cons.prems(2) True guard_table_eq [OF inv t] by simp
    have "pt_inv ?s f" using inv page_tree_set_leaf [OF tree t, of "pt_index g 12" 0] by (simp add: pt_inv_def)
    moreover have "leaf (ram (mach ?s)) f w = (if w \<in> P - {?b} then w OR page_flags L w else 0)" if "vpage w" for w
      using leaf_set_leaf [OF tree t, of 0 w] same_page_base [OF that fb] Cons.prems(1) that
      by (auto simp: ident_def)
    ultimately have id: "ident L (P - {?b}) ?s f" using Cons.prems(1) unfolding ident_def by blast
    have "alloc_ext s ?s"
      using page_tree_addr [OF tree t] outside_set_entry [of t "tables s" "pt_index g 12"]
      by (auto simp: alloc_ext_def)
    then show ?thesis using Cons.IH [OF id run] alloc_ext_trans b by (auto 0 4)
  qed
qed


section \<open>Giving the tables back\<close>

lemma free_tables_ok:
  "tab_inv s \<Longrightarrow> tab_inv (free_tables s) \<and> paging_table_count (free_tables s) = 0
     \<and> pmm_used (pm (free_tables s)) = pmm_used (pm s) - tables s
     \<and> pmm_avail (pm (free_tables s)) = pmm_avail (pm s) \<union> tables s
     \<and> mach (free_tables s) = mach s \<and> active (free_tables s) = active s"
proof (induction s rule: free_tables.induct)
  case (1 s)
  show ?case
  proof (cases "paging_table_count s = 0")
    case True
    then show ?thesis using 1(2) by (subst (1 2 3 4 5 6) free_tables.simps) (simp add: table_list_def)
  next
    case False
    define n where "n = unat (paging_table_count s) - 1"
    have n: "unat (paging_table_count s) = Suc n" "unat (paging_table_count s - 1) = n"
      using False by (simp_all add: n_def unat_minus_one unat_gt_0)
    let ?c = "table_pages s ! n"
    let ?s = "s\<lparr>paging_table_count := paging_table_count s - 1, pm := snd (pmm_free ?c (pm s))\<rparr>"
    have len: "n < length (table_pages s)" using 1(2) n by (simp add: tab_inv_def)
    have list: "table_list s = take n (table_pages s) @ [?c]"
      using n len by (simp add: table_list_def take_Suc_conv_app_nth)
    have pinv: "pmm_inv (pm s)" and used: "?c \<in> pmm_used (pm s)" and d: "?c \<notin> set (take n (table_pages s))"
      using 1(2) list by (auto simp: tab_inv_def)
    obtain p where fr: "pmm_free ?c (pm s) = (True, p)" "pmm_used p = pmm_used (pm s) - {?c}"
      "pmm_avail p = insert ?c (pmm_avail (pm s))" "pmm_inv p"
      using pmm_fa.free_ok [OF pinv used] by blast
    have list': "table_list ?s = take n (table_pages s)" using n by (simp add: table_list_def)
    have "tab_inv ?s"
      using 1(2) fr list list' n d by (auto simp: tab_inv_def)
    moreover have "free_tables s = free_tables ?s"
      using False n by (subst free_tables.simps) (simp add: Let_def)
    ultimately show ?thesis using 1(1) [OF False refl] n fr list list' by (auto simp: Let_def)
  qed
qed

lemma activate_effect:
  assumes "s' = activate_page_tables c s" and "c = cr4 (mach s)"
  shows "cr3 (mach s') = paging_root s" and "cr4 (mach s') = c" and "bit (cr0 (mach s')) 16"
    and "bit (msr (mach s') 0xc0000080) 11" and "tlb (mach s') = (\<lambda>_. None)"
    and "ram (mach s') = ram (mach s)" and "rflags (mach s') = rflags (mach s)"
    and "paging_previous_cr3 s' = cr3 (mach s)" and "active s'" and "paging_root s' = paging_root s"
    and "pm s' = pm s" and "table_list s' = table_list s" and "same_io (mach s) (mach s')"
proof -
  have pge: "\<not> bit (c AND NOT 0x80) 7" using bit_not_iff_eq by (simp add: bit_and_iff bit_not_iff)
  show "tlb (mach s') = (\<lambda>_. None)"
    using pge by (auto simp: assms(1) activate_page_tables_def Let_def x86_write_cr4_def x86_write_cr3_def
        x86_write_cr0_def fun_eq_iff split: option.splits)
  show "bit (cr0 (mach s')) 16" "bit (msr (mach s') 0xc0000080) 11"
    by (simp_all add: assms(1) activate_page_tables_def Let_def x86_write_cr4_def x86_write_cr3_def
        x86_write_cr0_def x86_read_cr0_def bit_or_iff)
qed (simp_all add: assms activate_page_tables_def Let_def x86_write_cr4_def x86_write_cr3_def
      x86_write_cr0_def x86_read_cr3_def table_list_def same_io_def)


section \<open>The whole initialisation\<close>

definition guard_pages :: "layout \<Rightarrow> BOOT_INFO \<Rightarrow> u64 set" where
  "guard_pages L info = (\<lambda>g. g AND NOT 4095) ` {stack_base info - 4096, stack_base info + stack_size info,
     double_fault_guard_low L, double_fault_guard_high L}"

definition region_pages :: "u64 \<Rightarrow> u64 \<Rightarrow> u64 set" where
  "region_pages b sz = page_run (b AND NOT 4095) (b + sz)"

definition required_pages :: "BOOT_INFO \<Rightarrow> u64 \<Rightarrow> u64 set" where
  "required_pages info p = region_pages (kernel_base info) (kernel_size info)
     \<union> region_pages (stack_base info) (stack_size info) \<union> region_pages p sizeof_BOOT_INFO
     \<union> region_pages (memory_map info) (memory_map_size info)"

text \<open>The rights of a page of the identity map: text is read-execute, rodata read-only, the rest read-write.\<close>

definition section_mapping :: "layout \<Rightarrow> u64 \<Rightarrow> mapping" where
  "section_mapping L w =
     (let text = kernel_text_start L \<le> w \<and> w < kernel_text_end L;
          rodata = kernel_rodata_start L \<le> w \<and> w < kernel_rodata_end L in
      \<lparr>frame_of = w, writable = \<not> text \<and> \<not> rodata, executable = text\<rparr>)"

lemma ident_vmap:
  assumes "ident L P s f"
  shows "vmap s w = (if w \<in> P then Some (section_mapping L w) else None)"
proof (cases "vpage w")
  case False
  then show ?thesis using assms frame_vpage by (auto simp: vmap_def ident_def)
next
  case True
  have inv: "pt_inv s f" and leaf: "leaf (ram (mach s)) f w = (if w \<in> P then w OR page_flags L w else 0)"
    and fr: "w \<in> P \<Longrightarrow> frame_addr w" using assms True by (auto simp: ident_def)
  have "decode (w OR page_flags L w) = Some (section_mapping L w)" if "w \<in> P"
    using entry_address [OF frame_table_addr [OF fr [OF that]] page_flags_bits(1), of L w]
      entry_bit [OF frame_table_addr [OF fr [OF that]], of "Suc 0" "page_flags L w"]
      entry_bit [OF frame_table_addr [OF fr [OF that]], of 63 "page_flags L w"]
      page_entry_present [of w L] page_flags_bits(3,4) [of L w]
    by (simp add: decode_def section_mapping_def Let_def)
  moreover have "decode 0 = None" by (simp add: decode_def)
  ultimately show ?thesis using vmap_leaf [OF inv] True leaf by simp
qed

lemma required_regions_ident:
  assumes id: "ident L P s f" and tabs: "tab_inv s" and req: "required_regions_mapped p s"
    and info: "load_BOOT_INFO (ram (mach s)) p = info"
  shows "required_pages info p \<subseteq> P" and "tables s \<subseteq> P"
proof -
  have "mapped_range s (kernel_base info) (kernel_size info)"
    "mapped_range s (stack_base info) (stack_size info)" "mapped_range s p sizeof_BOOT_INFO"
    "mapped_range s (memory_map info) (memory_map_size info)"
    using req info by (auto simp: required_regions_mapped_def Let_def split: if_splits)
  then show "required_pages info p \<subseteq> P"
    using mapped_range_ident(1) [OF id] by (auto simp: required_pages_def region_pages_def)
  have all: "mapped_range s (table_pages s ! unat (of_nat k :: u64)) 4096"
    if "k < unat (paging_table_count s)" for k
    using req that by (auto simp: required_regions_mapped_def Let_def for_ret_search_unit split: if_splits)
  show "tables s \<subseteq> P"
  proof
    fix t assume t: "t \<in> tables s"
    then obtain k where k: "k < unat (paging_table_count s)" "table_pages s ! k = t"
      by (auto simp: table_list_def in_set_conv_nth)
    then have "unat (of_nat k :: u64) = k" using tabs by (simp add: tab_inv_def unat_of_nat64)
    then have "t AND NOT 4095 \<in> P" using all [OF k(1)] k(2) mapped_range_ident(6) [OF id] by metis
    moreover have "page_aligned t" using tab_inv_addr [OF tabs t] by simp
    ultimately show "t \<in> P" by (simp only: page_base)
  qed
qed

lemma ident_vm_tree:
  assumes "ident L P s f" and "tlb (mach s) = (\<lambda>_. None)"
  shows "vm_tree s f"
proof -
  have "compact (ram (mach s)) f"
    unfolding compact_def
  proof (intro allI impI)
    fix p t assume "f p = Some t" "p \<noteq> []" "hd p = 256"
    moreover from this have "hd p = 0" using assms(1) unfolding ident_def by blast
    ultimately show "\<exists>i < 512. if length p < 3 then f (p @ [i]) \<noteq> None else leaf_at (ram (mach s)) f p i \<noteq> 0"
      by simp
  qed
  then show ?thesis using assms by (simp add: vm_tree_def ident_def tlb_ok_def)
qed

lemma boot_ctx_init:
  assumes "pmm_init m p pmm_bss = (True, pm0)"
  shows "boot_ctx m p (pmm_avail pm0)" and "pmm_used pm0 = {}" and "pmm_inv pm0" and "p \<noteq> 0"
proof -
  note sp = pmm_init_spec [OF pmm_bss_inv assms]
  have acc: "valid_boot_info m p" "valid_map_ranges m (load_BOOT_INFO m p)"
    using pmm_init_accepts [of m p pmm_bss] assms by simp_all
  show "pmm_inv pm0" "pmm_used pm0 = {}" using sp by (simp_all add: pmm_used_def)
  show "p \<noteq> 0" using valid_boot_info_ranges(1) [OF acc(1)] .
  have "page_of (frame k) = k" if "k \<in> free_set pm0" for k
    using unat_frame [OF free_set_bound [OF that]] by (simp add: page_of_def)
  then have "page_of ` pmm_avail pm0 = free_set pm0" by (force simp: pmm_avail_def image_image)
  then show "boot_ctx m p (pmm_avail pm0)" using acc sp by (auto simp: boot_ctx_def free_set_def)
qed

text \<open>Discarding what was built since \<open>s0\<close>.\<close>

lemma discard_ok:
  assumes inv: "tab_inv s" and ext: "alloc_ext s1 s" and none: "tables s1 \<subseteq> A"
    and used: "pmm_used (pm s1) = tables s1" and avail: "pmm_avail (pm s1) = A - tables s1"
  defines "s' \<equiv> discard_page_tables s"
  shows "pmm_used (pm s') = {}" and "pmm_avail (pm s') = A" and "paging_table_count s' = 0"
    and "paging_root s' = 0" and "mach s' = mach s" and "active s' = active s"
proof -
  have sub: "tables s1 \<subseteq> tables s" "tables s - tables s1 \<subseteq> A"
    using ext avail by (auto simp: alloc_ext_def)
  show "pmm_used (pm s') = {}" "pmm_avail (pm s') = A"
    using free_tables_ok [OF inv] ext used avail none sub
    by (auto simp: s'_def discard_page_tables_def alloc_ext_def)
qed (use free_tables_ok [OF inv] in \<open>simp_all add: s'_def discard_page_tables_def\<close>)


lemma guards_tables: "unmap_guards gs s = (r, t) \<Longrightarrow> tables t = tables s"
  by (induction gs arbitrary: s) (fastforce split: if_splits)+

lemma stack_guards_ok:
  assumes id: "ident L P s f" and g: "unmap_stack_guards L p s = (r, t)"
    and info: "load_BOOT_INFO (ram (mach s)) p = info"
  shows "\<exists>P' f'. ident L P' t f' \<and> alloc_ext s t \<and> tables t = tables s
    \<and> (r \<longrightarrow> P' = P - guard_pages L info \<and> guard_pages L info \<subseteq> P)"
proof -
  define gs where "gs = [stack_base info - 4096, stack_base info + stack_size info,
    double_fault_guard_low L, double_fault_guard_high L]"
  have run: "unmap_guards gs s = (r, t)" using g unfolding unmap_stack_guards_def Let_def info gs_def .
  have "guard_pages L info = (\<lambda>g. g AND NOT 4095) ` set gs"
    unfolding guard_pages_def gs_def by (simp only: list.set)
  then show ?thesis using unmap_guards_ok [OF id run] guards_tables [OF run] by auto
qed

text \<open>The state after the root table has been made, on a machine \<open>m\<close>.\<close>

definition boot_started :: "machine \<Rightarrow> u64 \<Rightarrow> pmm \<Rightarrow> paging \<Rightarrow> bool" where
  "boot_started m p pm0 s1 \<longleftrightarrow> cr0 (mach s1) = cr0 m \<and> cr3 (mach s1) = cr3 m \<and> cr4 (mach s1) = cr4 m
     \<and> msr (mach s1) = msr m \<and> rflags (mach s1) = rflags m \<and> \<not> active s1 \<and> same_io m (mach s1)
     \<and> pmm_used (pm s1) = tables s1 \<and> pmm_avail (pm s1) = pmm_avail pm0 - tables s1
     \<and> tables s1 \<subseteq> pmm_avail pm0 \<and> outside (tables s1) (ram m) (ram (mach s1))
     \<and> boot_ctx (ram m) p (pmm_avail pm0)"

definition gave_up :: "machine \<Rightarrow> pmm \<Rightarrow> paging \<Rightarrow> bool" where
  "gave_up m pm0 s' \<longleftrightarrow> \<not> active s' \<and> cr0 (mach s') = cr0 m \<and> cr3 (mach s') = cr3 m
     \<and> cr4 (mach s') = cr4 m \<and> msr (mach s') = msr m \<and> paging_root s' = 0 \<and> paging_table_count s' = 0
     \<and> pmm_used (pm s') = {} \<and> pmm_avail (pm s') = pmm_avail pm0"

lemma boot_give_up:
  assumes "boot_started m p pm0 s1" and "alloc_ext s1 t" and "ident L Q t g"
  shows "gave_up m pm0 (discard_page_tables t)"
proof -
  have "tab_inv t" using assms(3) by (simp add: ident_def pt_inv_def)
  note d = discard_ok [OF this assms(2), of "pmm_avail pm0"]
  have "active t = active s1" "cr0 (mach t) = cr0 (mach s1)" "cr3 (mach t) = cr3 (mach s1)"
    "cr4 (mach t) = cr4 (mach s1)" "msr (mach t) = msr (mach s1)"
    using assms(2) by (simp_all add: alloc_ext_def same_ctl_def)
  then show ?thesis using d assms(1) by (simp add: gave_up_def boot_started_def)
qed

lemma boot_info_kept:
  assumes "boot_started m p pm0 s1" and "alloc_ext s1 t"
  shows "load_BOOT_INFO (ram (mach t)) p = load_BOOT_INFO (ram m) p"
proof -
  have ctx: "boot_ctx (ram m) p (pmm_avail pm0)" and F: "tables s1 \<union> pmm_avail (pm s1) \<subseteq> pmm_avail pm0"
    and out: "outside (tables s1) (ram m) (ram (mach s1))"
    using assms(1) by (auto simp: boot_started_def)
  have "outside (tables t) (ram m) (ram (mach t))" "tables t \<subseteq> pmm_avail pm0"
    using alloc_ext_tables [OF assms(2) F out] by simp_all
  then show ?thesis by (rule boot_info_stable [OF ctx])
qed

lemma boot_complete:
  assumes st: "boot_started m p pm0 s1" and ext: "alloc_ext s1 t"
    and id: "ident L (R - guard_pages L info) t f" and s': "s' = activate_page_tables (cr4 m) t"
  shows "vm_inv s' \<and> active s' \<and> cr3 (mach s') = paging_root s' \<and> paging_previous_cr3 s' = cr3 m
    \<and> cr4 (mach s') = cr4 m \<and> bit (cr0 (mach s')) 16 \<and> bit (msr (mach s') 0xc0000080) 11
    \<and> tlb (mach s') = (\<lambda>_. None) \<and> rflags (mach s') = rflags m \<and> tables s' = tables t
    \<and> (\<forall>w. vmap s' w = (if w \<in> R - guard_pages L info then Some (section_mapping L w) else None))"
proof -
  have c: "cr4 m = cr4 (mach t)" "cr3 (mach t) = cr3 m" "rflags (mach t) = rflags m"
    using st ext by (simp_all add: boot_started_def alloc_ext_def same_ctl_def)
  note a = activate_effect [OF s' c(1)]
  have "tab_inv s'"
    using id s' by (simp add: ident_def pt_inv_def activate_page_tables_def Let_def)
  then have id': "ident L (R - guard_pages L info) s' f" using id a by (simp add: ident_def pt_inv_def)
  then have "vm_inv s'" using ident_vm_tree [OF id' a(5)] by (auto simp: vm_inv_def)
  then show ?thesis using a c ident_vmap [OF id'] by simp
qed

lemma boot_finish:
  assumes st: "boot_started m p pm0 s1" and ext: "alloc_ext s1 s2" and id: "ident L R s2 f2"
    and req: "required_regions_mapped p s2" and g: "unmap_stack_guards L p s2 = (True, t)"
  defines "info \<equiv> load_BOOT_INFO (ram m) p"
  shows "\<exists>f. alloc_ext s1 t \<and> ident L (R - guard_pages L info) t f
    \<and> required_pages info p \<union> tables t \<union> guard_pages L info \<subseteq> R"
proof -
  have info: "load_BOOT_INFO (ram (mach s2)) p = info" using boot_info_kept [OF st ext] by (simp add: info_def)
  have "tab_inv s2" using id by (simp add: ident_def pt_inv_def)
  note rr = required_regions_ident [OF id this req info]
  obtain P' f' where P': "ident L P' t f'" "alloc_ext s2 t" "P' = R - guard_pages L info" "guard_pages L info \<subseteq> R"
    and "tables t = tables s2" using stack_guards_ok [OF id g info] by auto
  then show ?thesis using rr alloc_ext_trans [OF ext P'(2)] by (intro exI [of _ f']) auto
qed

lemma avail_boot_ram:
  assumes "pmm_init m p pmm_bss = (True, pm0)"
  shows "pmm_avail pm0 \<subseteq> boot_ram m (load_BOOT_INFO m p)"
proof
  fix a assume "a \<in> pmm_avail pm0"
  then obtain k where k: "k \<in> free_set pm0" "a = frame k" by (auto simp: pmm_avail_def)
  note sp = pmm_init_spec [OF pmm_bss_inv assms]
  have "k \<in> usable_pages m (load_BOOT_INFO m p)" using k sp(1,2) by (auto simp: free_set_def)
  then obtain i where i: "i < desc_count (load_BOOT_INFO m p)" "conventional (descriptor m (load_BOOT_INFO m p) (of_nat i))"
    "k * 4096 \<in> desc_range (descriptor m (load_BOOT_INFO m p) (of_nat i))" by (auto simp: usable_pages_def)
  have "unat a = k * 4096" using unat_frame [OF free_set_bound [OF k(1)]] k(2) by simp
  moreover have "frame_addr a" using \<open>a \<in> pmm_avail pm0\<close> pmm_fa.frames [OF sp(4)] by blast
  ultimately have "a \<in> desc_frames (descriptor m (load_BOOT_INFO m p) (of_nat i))"
    using i by (simp add: desc_frames_def mappable_def conventional_def)
  then show "a \<in> boot_ram m (load_BOOT_INFO m p)" using i(1) by (auto simp: boot_ram_def)
qed

text \<open>
  \<open>boot_free m p pm0\<close>: the allocator manages frames of the boot information at \<open>p\<close> and has
  none in use. \<open>pmm_init\<close> establishes it, and allocating and freeing keeps it.
\<close>

definition boot_free :: "memory \<Rightarrow> u64 \<Rightarrow> pmm \<Rightarrow> bool" where
  "boot_free m p pm0 \<longleftrightarrow> boot_ctx m p (pmm_avail pm0) \<and> pmm_used pm0 = {} \<and> pmm_inv pm0 \<and> p \<noteq> 0
     \<and> pmm_avail pm0 \<subseteq> boot_ram m (load_BOOT_INFO m p)"

lemma boot_free_init: "pmm_init m p pmm_bss = (True, pm0) \<Longrightarrow> boot_free m p pm0"
  using boot_ctx_init avail_boot_ram by (simp add: boot_free_def)

text \<open>What a successful \<open>paging_init\<close> on a machine \<open>m\<close> leaves.\<close>

definition boot_mapped :: "layout \<Rightarrow> u64 \<Rightarrow> machine \<Rightarrow> pmm \<Rightarrow> paging \<Rightarrow> bool" where
  "boot_mapped L p m pm0 s' \<longleftrightarrow> (let info = load_BOOT_INFO (ram m) p; R = boot_ram (ram m) info in
     vm_inv s' \<and> active s' \<and> cr3 (mach s') = paging_root s' \<and> paging_previous_cr3 s' = cr3 m
     \<and> cr4 (mach s') = cr4 m \<and> bit (cr0 (mach s')) 16 \<and> bit (msr (mach s') 0xc0000080) 11
     \<and> tlb (mach s') = (\<lambda>_. None) \<and> rflags (mach s') = rflags m
     \<and> (\<forall>w. vmap s' w = (if w \<in> R - guard_pages L info then Some (section_mapping L w) else None))
     \<and> required_pages info p \<union> tables s' \<union> guard_pages L info \<subseteq> R
     \<and> pmm_used (pm s') = tables s' \<and> pmm_avail (pm s') = pmm_avail pm0 - tables s' \<and> tables s' \<subseteq> pmm_avail pm0
     \<and> outside (pmm_avail pm0) (ram m) (ram (mach s')) \<and> same_io m (mach s'))"

text \<open>The steps of a call that gets past its first tests.\<close>

lemma paging_init_steps:
  assumes free: "boot_free (ram m) p pm0"
    and tests: "pmm_total pm0 \<noteq> 0" "supported_cpu_state (cr4 m) m" "pmm_avail pm0 \<noteq> {}"
  obtains root s1 r2 s2 P2 f2 ok t where "boot_started m p pm0 s1" "tables s1 = {root}" "ident L {} s1 [[] \<mapsto> root]"
    "map_boot_ram L p s1 = Some (r2, s2)" "alloc_ext s1 s2" "ident L P2 s2 f2"
    "r2 \<longrightarrow> P2 = boot_ram (ram m) (load_BOOT_INFO (ram m) p)" "unmap_stack_guards L p s2 = (ok, t)"
    "paging_init L p (paging_bss m pm0) = Some (if \<not> r2 \<or> \<not> required_regions_mapped p s2
        then (False, discard_page_tables s2) else if \<not> ok then (False, discard_page_tables t)
        else (True, activate_page_tables (cr4 m) t))"
proof -
  define s where "s = paging_bss m pm0"
  have ctx: "boot_ctx (ram m) p (pmm_avail pm0)" "pmm_used pm0 = {}" "pmm_inv pm0" "p \<noteq> 0"
    using free by (simp_all add: boot_free_def)
  have s: "mach s = m" "pm s = pm0" "\<not> active s" "paging_root s = 0" "paging_table_count s = 0" "tables s = {}"
    by (simp_all add: s_def paging_bss_def table_list_def)
  have t0: "tab_inv s" unfolding s_def by (rule tab_inv_bss [OF ctx(3)])
  obtain root s1' where new: "new_table s = (root, s1')" by (cases "new_table s")
  have "card (pmm_avail pm0) \<noteq> 0" using tests(3) by simp
  then have root: "root \<noteq> 0"
    using new_table_fail [OF t0] new s by (auto simp: budget_def min_def split: if_splits)
  define s1 where "s1 = s1'\<lparr>paging_root := root\<rparr>"
  note nt = new_table_ok [OF t0 new root] and fr = fresh_root_tree [OF ctx(3) new [unfolded s_def] root]
  have id1: "ident L {} s1 [[] \<mapsto> root]"
    using fr(1) by (auto simp: ident_def s1_def leaf_def leaf_at_def inner_path_def split: if_splits)
  have "outside {root} (ram m) (ram (mach s1))"
    using nt s outside_fill [of root "{root}" "ram m" "\<lambda>_. 0"] by (simp add: s1_def)
  then have st: "boot_started m p pm0 s1"
    using nt s ctx fr(2) by (simp add: boot_started_def s1_def same_ctl_def same_io_def)
  obtain r2 s2 P2 f2 where m2: "map_boot_ram L p s1 = Some (r2, s2)" "alloc_ext s1 s2" "ident L P2 s2 f2"
    "r2 \<longrightarrow> P2 = boot_ram (ram m) (load_BOOT_INFO (ram m) p)"
    using map_boot_ram_ok [OF ctx(1) _ _ _ alloc_ext_refl id1, of 0] st
    by (auto simp: map_boot_ram_def boot_ram_def boot_started_def atLeast0LessThan)
  obtain ok t where g: "unmap_stack_guards L p s2 = (ok, t)" by (cases "unmap_stack_guards L p s2")
  have "paging_init L p s = Some (if \<not> r2 \<or> \<not> required_regions_mapped p s2
      then (False, discard_page_tables s2) else if \<not> ok then (False, discard_page_tables t)
      else (True, activate_page_tables (cr4 m) t))"
    using tests root s new m2(1) ctx(4) g by (simp add: paging_init_def x86_read_cr4_def s1_def Let_def)
  then show ?thesis using that [OF st _ id1 m2 g] fr(2) by (simp add: s_def s1_def)
qed

lemma paging_init_early:
  assumes free: "boot_free (ram m) p pm0"
    and tests: "\<not> (pmm_total pm0 \<noteq> 0 \<and> supported_cpu_state (cr4 m) m \<and> pmm_avail pm0 \<noteq> {})"
  shows "paging_init L p (paging_bss m pm0) = Some (False, paging_bss m pm0)"
proof -
  define s where "s = paging_bss m pm0"
  have s: "mach s = m" "pm s = pm0" "\<not> active s" "tables s = {}" and upd: "s\<lparr>paging_root := 0\<rparr> = s"
    by (simp_all add: s_def paging_bss_def table_list_def)
  have t0: "tab_inv s" unfolding s_def using free by (intro tab_inv_bss) (simp add: boot_free_def)
  obtain root s1 where new: "new_table s = (root, s1)" by (cases "new_table s")
  have "root = 0" if "pmm_avail pm0 = {}"
    using new_table_ok [OF t0 new] that s(2) by blast
  moreover have "s1 = s" if "root = 0" using new_table_fail [OF t0] new that by simp
  ultimately have "paging_init L p s = Some (False, s)"
    using tests new s upd free by (auto simp: paging_init_def x86_read_cr4_def Let_def)
  then show ?thesis by (simp add: s_def)
qed

lemma boot_mapped_finish:
  assumes st: "boot_started m p pm0 s1" and m2: "alloc_ext s1 s2" "ident L (boot_ram (ram m) (load_BOOT_INFO (ram m) p)) s2 f2"
    and req: "required_regions_mapped p s2" and g: "unmap_stack_guards L p s2 = (True, t)"
  shows "boot_mapped L p m pm0 (activate_page_tables (cr4 m) t)"
proof -
  let ?info = "load_BOOT_INFO (ram m) p"
  obtain f where f: "alloc_ext s1 t" "ident L (boot_ram (ram m) ?info - guard_pages L ?info) t f"
    "required_pages ?info p \<union> tables t \<union> guard_pages L ?info \<subseteq> boot_ram (ram m) ?info"
    using boot_finish [OF st m2 req g] by blast
  have c: "cr4 m = cr4 (mach t)" using st f(1) by (simp add: boot_started_def alloc_ext_def same_ctl_def)
  note a = activate_effect [OF refl c]
  have "pmm_used (pm t) = tables t" "pmm_avail (pm t) = pmm_avail pm0 - tables t" "tables t \<subseteq> pmm_avail pm0"
    and out: "outside (tables t) (ram m) (ram (mach t))"
    using st f(1) outside_trans by (auto simp: boot_started_def alloc_ext_def)
  moreover have "outside (pmm_avail pm0) (ram m) (ram (mach t))"
    using outside_trans [OF out outside_refl calculation(3)] .
  moreover have "same_io m (mach s1)" "same_io (mach s1) (mach t)"
    using st f(1) same_ctl_io by (simp_all add: boot_started_def alloc_ext_def)
  then have "same_io m (mach (activate_page_tables (cr4 m) t))" using a(13) by (rule same_io_trans [OF same_io_trans])
  ultimately show ?thesis
    using boot_complete [OF st f(1,2) refl] f(3) a by (simp add: boot_mapped_def Let_def)
qed

lemma paging_init_result:
  assumes free: "boot_free (ram m) p pm0"
  shows "\<exists>r s'. paging_init L p (paging_bss m pm0) = Some (r, s')
    \<and> (if r then boot_mapped L p m pm0 s' else gave_up m pm0 s')"
proof (cases "pmm_total pm0 \<noteq> 0 \<and> supported_cpu_state (cr4 m) m \<and> pmm_avail pm0 \<noteq> {}")
  case False
  then show ?thesis
    using paging_init_early [OF free] free by (auto simp: gave_up_def boot_free_def paging_bss_def)
next
  case True
  then obtain root s1 r2 s2 P2 f2 ok t where st: "boot_started m p pm0 s1"
    and m2: "alloc_ext s1 s2" "ident L P2 s2 f2" "r2 \<longrightarrow> P2 = boot_ram (ram m) (load_BOOT_INFO (ram m) p)"
    and g: "unmap_stack_guards L p s2 = (ok, t)"
    and run: "paging_init L p (paging_bss m pm0) = Some (if \<not> r2 \<or> \<not> required_regions_mapped p s2
        then (False, discard_page_tables s2) else if \<not> ok then (False, discard_page_tables t)
        else (True, activate_page_tables (cr4 m) t))"
    using paging_init_steps [OF free, of L] by metis
  obtain P3 f3 where gt: "ident L P3 t f3" "alloc_ext s2 t" using stack_guards_ok [OF m2(2) g refl] by blast
  note give = boot_give_up [OF st m2(1,2)] boot_give_up [OF st alloc_ext_trans [OF m2(1) gt(2)] gt(1)]
  show ?thesis
    unfolding run using give boot_mapped_finish [OF st m2(1)] m2(2,3) g by auto
qed

text \<open>
  C9: \<open>paging_init\<close>, called with the boot information that \<open>pmm_init\<close> accepted. It always
  returns. On success the processor runs on the new tables (CR3, write protection and
  no-execute enabled, CR4 as before, no cached translation left over), every page of boot RAM
  except the four guard pages translates to itself with the rights of its section, nothing
  else is mapped, the kernel image, stack, boot information, memory map and page tables lie
  in the mapped RAM, and the dynamic window's invariant holds. On failure the processor
  state is untouched and every frame is free again.\<close>

theorem paging_init_outcome:
  assumes "pmm_init (ram m) p pmm_bss = (True, pm0)"
  shows "\<exists>r s'. paging_init L p (paging_bss m pm0) = Some (r, s')
    \<and> (r \<longrightarrow> vm_inv s' \<and> active s' \<and> cr3 (mach s') = paging_root s' \<and> paging_previous_cr3 s' = cr3 m
        \<and> cr4 (mach s') = cr4 m \<and> bit (cr0 (mach s')) 16 \<and> bit (msr (mach s') 0xc0000080) 11
        \<and> tlb (mach s') = (\<lambda>_. None) \<and> rflags (mach s') = rflags m
        \<and> (\<forall>w. vmap s' w = (if w \<in> boot_ram (ram m) (load_BOOT_INFO (ram m) p)
              - guard_pages L (load_BOOT_INFO (ram m) p) then Some (section_mapping L w) else None))
        \<and> required_pages (load_BOOT_INFO (ram m) p) p \<union> tables s'
            \<union> guard_pages L (load_BOOT_INFO (ram m) p) \<subseteq> boot_ram (ram m) (load_BOOT_INFO (ram m) p))
    \<and> (\<not> r \<longrightarrow> \<not> active s' \<and> cr0 (mach s') = cr0 m \<and> cr3 (mach s') = cr3 m \<and> cr4 (mach s') = cr4 m
        \<and> msr (mach s') = msr m \<and> paging_root s' = 0 \<and> paging_table_count s' = 0
        \<and> pmm_used (pm s') = {} \<and> pmm_avail (pm s') = pmm_avail pm0)"
proof -
  obtain r s' where run: "paging_init L p (paging_bss m pm0) = Some (r, s')"
    and res: "if r then boot_mapped L p m pm0 s' else gave_up m pm0 s'"
    using paging_init_result [OF boot_free_init [OF assms]] by blast
  show ?thesis
    unfolding run using res
    by (intro exI [of _ r] exI [of _ s']) (cases r; simp add: boot_mapped_def gave_up_def Let_def)
qed

definition demo_layout :: layout where
  "demo_layout = \<lparr>kernel_text_start = 0x100000, kernel_text_end = 0x101000, kernel_rodata_start = 0x101000,
     kernel_rodata_end = 0x102000, double_fault_guard_low = 0x108000, double_fault_guard_high = 0x10b000\<rparr>"

theorem paging_init_outcome_witness:
  "\<exists>r s'. paging_init demo_layout 0x10000 (paging_bss demo_machine demo_pmm) = Some (r, s')"
  using paging_init_outcome [of demo_machine "0x10000" demo_pmm demo_layout] demo_pmm_init
  by (auto simp: demo_machine_def)

end
