(* ===== verification/PagingCheck.thy ===== *)
theory PagingCheck
  imports PagingInit
begin

text \<open>
  The self-test of the page-table manager and the protection fixtures of
  \<open>kernel/paging_check.c\<close>. Unlike the page-table code, which works on the identity map, these
  functions read, write and execute through virtual addresses, so every access goes through
  the cached translations and the page walk and may fault. A check yields \<open>None\<close> when it does
  not return, which is the case after a page fault.
\<close>

section \<open>Access through the page tables\<close>

definition page_start :: "u64 \<Rightarrow> u64" where
  "page_start a = a AND NOT 4095"

text \<open>The translation the processor uses: a cached one if it has one, else the page walk.\<close>

definition page_mapping :: "machine \<Rightarrow> u64 \<Rightarrow> mapping option" where
  "page_mapping m a =
     (if \<not> canonical a then None
      else case tlb m (page_start a) of
        Some e \<Rightarrow> decode e
      | None \<Rightarrow> translate (ram m) (cr3 m) (page_start a))"

definition warm :: "u64 \<Rightarrow> machine \<Rightarrow> machine" where
  "warm a m = m\<lparr>tlb := (tlb m)(page_start a \<mapsto> (case tlb m (page_start a) of
     Some e \<Rightarrow> e | None \<Rightarrow> pte (ram m) (cr3 m) (page_start a)))\<rparr>"

text \<open>An access of a given kind: the physical address, with the translation cached; \<open>None\<close> is a page fault.\<close>

definition access :: "(mapping \<Rightarrow> bool) \<Rightarrow> u64 \<Rightarrow> paging \<Rightarrow> (u64 \<times> paging) option" where
  "access allowed a s =
     (case page_mapping (mach s) a of
        None \<Rightarrow> None
      | Some mp \<Rightarrow> if allowed mp then Some (frame_of mp + (a AND 4095), s\<lparr>mach := warm a (mach s)\<rparr>) else None)"

text \<open>With CR0.WP (bit 16) the R/W bit binds the kernel too.\<close>

definition may_write :: "machine \<Rightarrow> mapping \<Rightarrow> bool" where
  "may_write m mp \<longleftrightarrow> writable mp \<or> \<not> bit (cr0 m) 16"

definition load_at :: "u64 \<Rightarrow> paging \<Rightarrow> (u64 \<times> paging) option" where
  "load_at a s = map_option (\<lambda>(pa, s). (load64 (ram (mach s)) pa, s)) (access (\<lambda>_. True) a s)"

definition store_at :: "u64 \<Rightarrow> u64 \<Rightarrow> paging \<Rightarrow> paging option" where
  "store_at a v s = map_option (\<lambda>(pa, s). s\<lparr>mach := (mach s)\<lparr>ram := store64 pa v (ram (mach s))\<rparr>\<rparr>)
     (access (may_write (mach s)) a s)"

definition store_byte_at :: "u64 \<Rightarrow> u8 \<Rightarrow> paging \<Rightarrow> paging option" where
  "store_byte_at a v s = map_option (\<lambda>(pa, s). s\<lparr>mach := (mach s)\<lparr>ram := (ram (mach s))(pa := v)\<rparr>\<rparr>)
     (access (may_write (mach s)) a s)"


section \<open>Sequences of tests\<close>

type_synonym check = "paging \<Rightarrow> (bool \<times> paging) option"

text \<open>\<open>if (!x) return false;\<close> for each \<open>x\<close> in turn, then \<open>return true\<close>.\<close>

primrec all_of :: "check list \<Rightarrow> check" where
  "all_of [] s = Some (True, s)"
| "all_of (x # xs) s = do { (r, s) \<leftarrow> x s; if r then all_of xs s else Some (False, s) }"

definition succeeds :: "(paging \<Rightarrow> bool \<times> paging) \<Rightarrow> check" where
  "succeeds f s = Some (f s)"

definition refuses :: "(paging \<Rightarrow> bool \<times> paging) \<Rightarrow> check" where
  "refuses f s = (case f s of (r, s) \<Rightarrow> Some (\<not> r, s))"

definition stores :: "u64 \<Rightarrow> u64 \<Rightarrow> check" where
  "stores a v s = map_option (Pair True) (store_at a v s)"

definition same_words :: "u64 \<Rightarrow> u64 \<Rightarrow> check" where
  "same_words a b s = do { (x, s) \<leftarrow> load_at a s; (y, s) \<leftarrow> load_at b s; Some (x = y, s) }"

definition word_is :: "u64 \<Rightarrow> u64 \<Rightarrow> check" where
  "word_is a x s = do { (y, s) \<leftarrow> load_at a s; Some (y = x, s) }"

definition query_is :: "u64 \<Rightarrow> (u64 \<times> u32 \<Rightarrow> bool) \<Rightarrow> check" where
  "query_is a ok s = Some (case paging_query a True True s of None \<Rightarrow> False | Some r \<Rightarrow> ok r, s)"

text \<open>A query that must fail, with the values its out variables have then.\<close>

definition query_fails :: "u64 \<Rightarrow> u64 \<times> u32 \<Rightarrow> (u64 \<times> u32 \<Rightarrow> bool) \<Rightarrow> check" where
  "query_fails a old ok s = Some (case paging_query a True True s of None \<Rightarrow> ok old | Some r \<Rightarrow> False, s)"

definition alloc_page :: "paging \<Rightarrow> u64 option \<times> paging" where
  "alloc_page s = (case pmm_alloc True (pm s) of (r, p) \<Rightarrow> (r, s\<lparr>pm := p\<rparr>))"

definition free_page :: "u64 \<Rightarrow> paging \<Rightarrow> bool \<times> paging" where
  "free_page a s = (case pmm_free a (pm s) of (r, p) \<Rightarrow> (r, s\<lparr>pm := p\<rparr>))"


section \<open>The boot check\<close>

text \<open>\<open>info\<close> is the pointer \<open>kernel_boot_info\<close>.\<close>

definition map_stack_guard :: "u64 \<Rightarrow> u64 \<Rightarrow> paging \<Rightarrow> bool \<times> paging" where
  "map_stack_guard info v s =
     paging_map v (stack_base (load_BOOT_INFO (ram (mach s)) info) - 4096) PAGING_WRITE s"

definition rejects_invalid_mappings :: "layout \<Rightarrow> u64 \<Rightarrow> u64 \<Rightarrow> check" where
  "rejects_invalid_mappings L info p =
     (let v = PAGING_DYNAMIC_BASE in
      all_of [
        refuses (paging_map v (kernel_text_start L) PAGING_WRITE),
        refuses (paging_map v (kernel_rodata_start L) PAGING_WRITE),
        refuses (map_stack_guard info v),
        refuses (paging_map v (double_fault_guard_low L) PAGING_WRITE),
        refuses (paging_map 0x100000 p 0),
        refuses (paging_map (v + 1) p 0),
        refuses (paging_map (v + PAGING_DYNAMIC_SIZE) p 0),
        refuses (paging_map 0x800000000000 p 0),
        refuses (paging_map v (p + 1) 0),
        refuses (paging_map v 0 0),
        refuses (paging_map v p 4),
        refuses (paging_unmap v),
        refuses (paging_protect v 0),
        query_fails v (123, 123) (\<lambda>(result, flags). result = 123 \<and> flags = 123)])"

definition check_aliases_and_permissions :: "layout \<Rightarrow> u64 \<Rightarrow> check" where
  "check_aliases_and_permissions L info s =
     (let before = pmm_available (pm s); v = PAGING_DYNAMIC_BASE; other = v + 0x200000 in
      case alloc_page s of (None, s) \<Rightarrow> Some (False, s) | (Some p, s) \<Rightarrow>
      case alloc_page s of (None, s) \<Rightarrow> Some (False, s) | (Some q, s) \<Rightarrow>
      all_of [
        rejects_invalid_mappings L info p,
        succeeds (paging_map v p PAGING_WRITE),
        refuses (paging_map v q 0),
        succeeds (paging_map other p 0),
        stores v 0x123456789abcdef0,
        same_words p v, same_words other v,
        query_is v (\<lambda>(result, flags). result = p \<and> flags = PAGING_WRITE),
        succeeds (paging_protect v 0),
        query_is v (\<lambda>(result, flags). flags = 0),
        succeeds (paging_protect v PAGING_WRITE),
        stores v 42,
        succeeds (paging_unmap v),
        query_fails v (p, 0) (\<lambda>_. True),
        refuses (paging_unmap v),
        succeeds (paging_map v q PAGING_WRITE),
        stores v 99,
        word_is q 99, word_is p 42,
        succeeds (paging_unmap v),
        succeeds (paging_unmap other),
        succeeds (free_page p),
        succeeds (free_page q),
        (\<lambda>s. Some (pmm_available (pm s) = before, s))] s)"

text \<open>
  The two loops of \<open>check_failed_map_cleanup\<close>. The held pages form a list linked through their
  first words; \<open>Some (None, s)\<close> is the \<open>return false\<close> in the first loop.
\<close>

partial_function (option) hold_pages :: "u64 \<Rightarrow> paging \<Rightarrow> (u64 option \<times> paging) option" where
  "hold_pages held s =
     (if pmm_available (pm s) > 2 then
        case alloc_page s of
          (None, s) \<Rightarrow> Some (None, s)
        | (Some q, s) \<Rightarrow> Option.bind (store_at q held s) (hold_pages q)
      else Some (Some held, s))"

partial_function (option) release_held :: "u64 \<Rightarrow> paging \<Rightarrow> (bool \<times> paging) option" where
  "release_held held s =
     (if held \<noteq> 0 then
        Option.bind (load_at held s) (\<lambda>(q, s).
          case free_page held s of (r, s) \<Rightarrow> if r then release_held q s else Some (False, s))
      else Some (True, s))"

definition check_failed_map_cleanup :: check where
  "check_failed_map_cleanup s =
     (let before = pmm_available (pm s); v = PAGING_DYNAMIC_BASE in
      case alloc_page s of (None, s) \<Rightarrow> Some (False, s) | (Some p, s) \<Rightarrow> do {
        (held, s) \<leftarrow> hold_pages 0 s;
        case held of None \<Rightarrow> Some (False, s) | Some held \<Rightarrow>
        all_of [
          refuses (paging_map v p PAGING_WRITE),
          (\<lambda>s. Some (pmm_available (pm s) = 2, s)),
          query_fails v (0, 0) (\<lambda>_. True),
          release_held held,
          succeeds (paging_map v p PAGING_WRITE),
          succeeds (paging_unmap v),
          succeeds (free_page p),
          (\<lambda>s. Some (pmm_available (pm s) = before, s))] s })"

definition paging_boot_check :: "layout \<Rightarrow> u64 \<Rightarrow> check" where
  "paging_boot_check L info s = do {
     (r, s) \<leftarrow> check_aliases_and_permissions L info s;
     if \<not> r then Some (False, s) else check_failed_map_cleanup s }"


section \<open>Protection fixtures\<close>

text \<open>
  How a fixture ends: in a page fault at an address, spinning in \<open>check_failed\<close>, or by executing
  something else than the \<open>ret\<close> it expects.
\<close>

datatype fixture = Faults u64 | Spins | Runs u64

definition store_or_fault :: "u64 \<Rightarrow> u64 \<Rightarrow> (paging \<Rightarrow> fixture) \<Rightarrow> paging \<Rightarrow> fixture" where
  "store_or_fault a v k s = (case store_at a v s of None \<Rightarrow> Faults a | Some s \<Rightarrow> k s)"

text \<open>A call to a function whose first byte is expected to be \<open>ret\<close>.\<close>

definition call_at :: "u64 \<Rightarrow> (paging \<Rightarrow> fixture) \<Rightarrow> paging \<Rightarrow> fixture" where
  "call_at a k s = (case access executable a s of None \<Rightarrow> Faults a
     | Some (pa, s) \<Rightarrow> if ram (mach s) pa = 0xc3 then k s else Runs pa)"

definition read_or_fault :: "u64 \<Rightarrow> (paging \<Rightarrow> fixture) \<Rightarrow> paging \<Rightarrow> fixture" where
  "read_or_fault a k s = (case access (\<lambda>_. True) a s of None \<Rightarrow> Faults a | Some (_, s) \<Rightarrow> k s)"

definition check_failed :: "paging \<Rightarrow> fixture" where
  "check_failed s = Spins"

definition fault_check :: "nat \<Rightarrow> paging \<Rightarrow> fixture" where
  "fault_check mode s =
     (let v = PAGING_DYNAMIC_BASE in
      case alloc_page s of (None, s) \<Rightarrow> check_failed s | (Some p, s) \<Rightarrow>
      case paging_map v p PAGING_WRITE s of (r, s) \<Rightarrow>
      if \<not> r then check_failed s
      else store_or_fault v 0xc3 (\<lambda>s.
        if mode = 0 then
          case paging_protect v 0 s of (r, s) \<Rightarrow>
          if \<not> r then check_failed s else store_or_fault v 1 check_failed s
        else if mode = 1 then
          case paging_protect v PAGING_EXEC s of (r, s) \<Rightarrow>
          if \<not> r then check_failed s
          else call_at v (\<lambda>s.
            case paging_protect v 0 s of (r, s) \<Rightarrow>
            if \<not> r then check_failed s else call_at v check_failed s) s
        else
          case paging_unmap v s of (r, s) \<Rightarrow>
          if \<not> r then check_failed s else read_or_fault v check_failed s) s)"

definition write_byte_fixture :: "u64 \<Rightarrow> paging \<Rightarrow> fixture" where
  "write_byte_fixture a s = (case store_byte_at a 0 s of None \<Rightarrow> Faults a | Some s \<Rightarrow> check_failed s)"

definition paging_test_readonly :: "paging \<Rightarrow> fixture" where
  "paging_test_readonly = fault_check 0"

definition paging_test_nx :: "paging \<Rightarrow> fixture" where
  "paging_test_nx = fault_check 1"

definition paging_test_unmapped :: "paging \<Rightarrow> fixture" where
  "paging_test_unmapped = fault_check 2"

definition paging_test_text_write :: "layout \<Rightarrow> paging \<Rightarrow> fixture" where
  "paging_test_text_write L = write_byte_fixture (kernel_text_start L)"

definition paging_test_rodata_write :: "layout \<Rightarrow> paging \<Rightarrow> fixture" where
  "paging_test_rodata_write L = write_byte_fixture (kernel_rodata_start L)"

text \<open>The addresses of the static and of the local variable that hold the \<open>ret\<close> are arguments.\<close>

definition paging_test_data_exec :: "u64 \<Rightarrow> paging \<Rightarrow> fixture" where
  "paging_test_data_exec nx_data = call_at nx_data check_failed"

definition paging_test_stack_exec :: "u64 \<Rightarrow> paging \<Rightarrow> fixture" where
  "paging_test_stack_exec code s =
     (case store_byte_at code 0xc3 s of None \<Rightarrow> Faults code | Some s \<Rightarrow> call_at code check_failed s)"

definition paging_test_stack_low :: "u64 \<Rightarrow> paging \<Rightarrow> fixture" where
  "paging_test_stack_low info s =
     read_or_fault (stack_base (load_BOOT_INFO (ram (mach s)) info) - 4096) check_failed s"

definition paging_test_stack_high :: "u64 \<Rightarrow> paging \<Rightarrow> fixture" where
  "paging_test_stack_high info s =
     (let b = load_BOOT_INFO (ram (mach s)) info in
      read_or_fault (stack_base b + stack_size b) check_failed s)"

definition paging_test_df_low :: "layout \<Rightarrow> paging \<Rightarrow> fixture" where
  "paging_test_df_low L = read_or_fault (double_fault_guard_low L) check_failed"

definition paging_test_df_high :: "layout \<Rightarrow> paging \<Rightarrow> fixture" where
  "paging_test_df_high L = read_or_fault (double_fault_guard_high L) check_failed"

end
