(* ===== verification/PagingLive.thy ===== *)
theory PagingLive
  imports PagingInit
begin

text \<open>
  When \<open>paging_init\<close> succeeds. The tables that a set of mapped pages needs are the paths to
  them (\<open>paths\<close>), so the number of frames that the boot map takes is known beforehand; the
  loops of \<open>paging_init\<close> succeed exactly when this many frames are free.
\<close>

section \<open>Counting tables\<close>

text \<open>The paths to the tables that a set of mapped pages needs.\<close>

definition paths :: "u64 set \<Rightarrow> page_path set" where
  "paths M = (\<Union>w \<in> M. (\<lambda>j. take j (inner_path w)) ` {1..3})"

lemma finite_paths: "finite M \<Longrightarrow> finite (paths M)"
  by (simp add: paths_def)

lemma paths_insert: "paths (insert v M) = paths M \<union> (\<lambda>j. take j (inner_path v)) ` {1..3}"
  by (auto simp: paths_def)

lemma paths_mono: "M \<subseteq> N \<Longrightarrow> paths M \<subseteq> paths N"
  by (auto simp: paths_def)

lemma missing_count:
  assumes iff: "\<And>j. 0 < j \<Longrightarrow> take j (inner_path v) \<in> paths M \<longleftrightarrow> f (take j (inner_path v)) \<noteq> None"
    and fin: "finite M"
  shows "card (paths M) + missing f v 0 = card (paths (insert v M))"
proof -
  let ?new = "{j. 0 < j \<and> j \<le> 3 \<and> f (take j (inner_path v)) = None}"
  have "paths (insert v M) = paths M \<union> (\<lambda>j. take j (inner_path v)) ` ?new"
    unfolding paths_insert using iff by (auto simp: image_iff)
  moreover have "inj_on (\<lambda>j. take j (inner_path v)) ?new"
    by (rule inj_onI) (metis (mono_tags, lifting) length_inner_path length_take mem_Collect_eq min.absorb2)
  then have "card ((\<lambda>j. take j (inner_path v)) ` ?new) = missing f v 0"
    by (simp add: card_image missing_def)
  moreover have "finite ?new" by (rule finite_subset [of _ "{..3}"]) auto
  moreover have "paths M \<inter> (\<lambda>j. take j (inner_path v)) ` ?new = {}" using iff by auto
  ultimately show ?thesis using finite_paths [OF fin] by (simp add: card_Un_disjoint)
qed

lemma card_tree:
  assumes "page_tree m root T f"
  shows "card T = card (dom f)" and "finite T \<Longrightarrow> finite (dom f)"
proof -
  have "bij_betw (\<lambda>p. the (f p)) (dom f) T"
  proof (rule bij_betwI')
    fix p q assume "p \<in> dom f" "q \<in> dom f"
    then show "(the (f p) = the (f q)) = (p = q)" using page_tree_inj [OF assms] by auto
  next
    fix p assume "p \<in> dom f"
    then show "the (f p) \<in> T" using page_tree_addr [OF assms] by auto
  next
    fix t assume "t \<in> T"
    then show "\<exists>p \<in> dom f. t = the (f p)" using page_tree_reach [OF assms] by force
  qed
  then show "card T = card (dom f)" and "finite T \<Longrightarrow> finite (dom f)"
    using bij_betw_same_card bij_betw_finite by metis+
qed


section \<open>The boot map\<close>

text \<open>Every table of the boot map lies on the path to a mapped page.\<close>

definition tight :: "layout \<Rightarrow> u64 set \<Rightarrow> paging \<Rightarrow> table_tree \<Rightarrow> bool" where
  "tight L P s f \<longleftrightarrow> ident L P s f \<and> dom f = insert [] (paths P)"

text \<open>\<open>A\<close> are the frames that were free before the first table was made.\<close>

definition drawn :: "u64 set \<Rightarrow> paging \<Rightarrow> bool" where
  "drawn A s \<longleftrightarrow> tables s \<subseteq> A \<and> pmm_avail (pm s) = A - tables s"

definition fits :: "u64 set \<Rightarrow> u64 set \<Rightarrow> bool" where
  "fits A P \<longleftrightarrow> card (paths P) < 4096 \<and> card (paths P) < card A"

lemma fits_mono: "fits A Q \<Longrightarrow> P \<subseteq> Q \<Longrightarrow> fits A P"
  using card_mono [OF finite_paths paths_mono, of Q P] by (auto simp: fits_def)

lemma drawn_ext: "drawn A s \<Longrightarrow> alloc_ext s s' \<Longrightarrow> drawn A s'"
  by (auto simp: drawn_def alloc_ext_def)

lemma tight_card:
  assumes "tight L P s f"
  shows "card (tables s) = Suc (card (paths P))"
proof -
  have "page_tree (ram (mach s)) (paging_root s) (tables s) f" using assms by (simp add: tight_def ident_def pt_inv_def)
  moreover have "[] \<notin> paths P" by (auto simp: paths_def inner_path_def take_Cons')
  ultimately show ?thesis using card_tree(1) assms finite_paths [of P] by (simp add: tight_def)
qed

lemma tight_fits:
  assumes t: "tight L P s f" and d: "drawn A s"
  shows "fits A P" and "missing f w 0 \<le> budget s \<longleftrightarrow> fits A (insert w P)"
proof -
  note c = tight_card [OF t]
  have "card (tables s) \<le> 4096"
    using t card_tables [of s] by (simp add: tight_def ident_def pt_inv_def tab_inv_def)
  moreover have "card (tables s) \<le> card A" using d by (intro card_mono) (simp_all add: drawn_def)
  ultimately show fits: "fits A P" using c by (simp add: fits_def)
  have "card (paths P) + missing f w 0 = card (paths (insert w P))"
  proof (rule missing_count)
    fix j :: nat assume "0 < j"
    then have "take j (inner_path w) \<noteq> []" by (auto simp: inner_path_def)
    then show "take j (inner_path w) \<in> paths P \<longleftrightarrow> f (take j (inner_path w)) \<noteq> None"
      using t by (auto simp: tight_def domIff set_eq_iff)
  qed simp
  moreover have "card (pmm_avail (pm s)) = card A - card (tables s)"
    using d by (simp add: drawn_def card_Diff_subset)
  ultimately show "missing f w 0 \<le> budget s \<longleftrightarrow> fits A (insert w P)"
    using c fits by (auto simp: budget_def fits_def)
qed

lemma map_page_tight:
  assumes t: "tight L P s f" and d: "drawn A s" and w: "frame_addr w" and run: "map_page L w s = (r, s')"
  shows "(r \<longleftrightarrow> fits A (insert w P)) \<and> drawn A s' \<and> (r \<longrightarrow> (\<exists>f'. tight L (insert w P) s' f'))"
proof -
  have id: "ident L P s f" using t by (simp add: tight_def)
  obtain f' where f': "ident L (if r then insert w P else P) s' f'" "alloc_ext s s'" "r \<longleftrightarrow> missing f w 0 \<le> budget s"
    "f \<subseteq>\<^sub>m f'" "\<forall>p. f p = None \<longrightarrow> f' p \<noteq> None \<longrightarrow> on_path w p"
    using map_page_ok [OF id w] run by auto
  have "tight L (insert w P) s' f'" if r
  proof -
    have i: "ident L (insert w P) s' f'" using f'(1) that by simp
    then have tree: "page_tree (ram (mach s')) (paging_root s') (tables s') f'" by (simp add: ident_def pt_inv_def)
    have "leaf (ram (mach s')) f' w \<noteq> 0" by (rule ident_nonzero [OF i]) simp
    then obtain u where u: "f' (inner_path w) = Some u" using leaf_table by blast
    have "f' (take j (inner_path w)) \<noteq> None" if "j \<le> 3" for j
      using path_prefix [OF tree, of 3 w u j] u that by simp
    then have "(\<lambda>j. take j (inner_path w)) ` {1..3} \<subseteq> dom f'" by auto
    moreover have "dom f \<subseteq> dom f'" using f'(4) by (metis domIff map_le_def subsetI)
    moreover have "p \<in> insert [] (paths (insert w P))" if "p \<in> dom f'" for p
    proof (cases "f p")
      case None
      then obtain j where "j \<le> 3" "p = take j (inner_path w)" using f'(5) \<open>p \<in> dom f'\<close> by (auto simp: on_path_def)
      then show ?thesis by (cases "j = 0") (auto simp: paths_insert)
    next
      case (Some t)
      then have "p \<in> dom f" by blast
      then show ?thesis using t by (auto simp: tight_def paths_insert)
    qed
    ultimately show ?thesis using i t by (auto simp: tight_def paths_insert)
  qed
  then show ?thesis using f'(3) tight_fits(2) [OF t d] drawn_ext [OF d f'(2)] by auto
qed

lemma map_run_tight:
  assumes "tight L P s f" and "drawn A s" and "page_aligned b" and "0x100000 \<le> b" and "e \<le> PMM_LIMIT"
  shows "case for_pages b e (\<lambda>page s. case map_page L page s of
        (True, s) \<Rightarrow> Inr s | (False, s) \<Rightarrow> Inl (False, s)) s of
      Inr s' \<Rightarrow> drawn A s' \<and> (\<exists>f'. tight L (P \<union> page_run b e) s' f')
    | Inl _ \<Rightarrow> \<not> fits A (P \<union> page_run b e)"
  using assms
proof (induction b e "\<lambda>page s. case map_page L page s of (True, s) \<Rightarrow> Inr s | (False, s) \<Rightarrow> Inl (False, s)" s
    arbitrary: P f rule: for_pages.induct)
  case (1 b e s)
  let ?body = "\<lambda>page s. case map_page L page s of (True, s) \<Rightarrow> Inr s | (False, s) \<Rightarrow> Inl (False, s)"
  show ?case
  proof (cases "b < e")
    case False
    then show ?thesis using 1(2,3) by (subst for_pages.simps) (auto simp: page_run_empty)
  next
    case True
    then have lt: "b < e \<and> e \<le> PMM_LIMIT" using 1(6) by simp
    have fr: "frame_addr b" using 1(4,5,6) True by (simp add: frame_addr_def)
    obtain r s1 where r: "map_page L b s = (r, s1)" by (cases "map_page L b s")
    note step = map_page_tight [OF 1(2,3) fr r] and st = page_run_step [OF 1(4) True 1(6)]
    have un: "insert b P \<union> page_run (b + 4096) e = P \<union> page_run b e" using st(2) by auto
    show ?thesis
    proof (cases r)
      case False
      then have "\<not> fits A (P \<union> page_run b e)" using step fits_mono [of A "P \<union> page_run b e" "insert b P"] un by auto
      then show ?thesis using r lt False by (subst for_pages.simps) simp
    next
      case ok: True
      then obtain f1 where f1: "tight L (insert b P) s1 f1" "drawn A s1" using step by blast
      have body: "?body b s = Inr s1" using r ok by simp
      have unfold: "for_pages b e ?body s = for_pages (b + 4096) e ?body s1"
        by (subst for_pages.simps) (simp only: lt body if_True simp_thms sum.case)
      have "0x100000 \<le> b + 4096" using 1(5) st(3) by (rule order_trans)
      from 1(1) [OF lt body f1 st(1) this 1(6)] show ?thesis unfolding unfold un .
    qed
  qed
qed


lemma map_descriptor_tight:
  assumes t: "tight L P s f" and d: "drawn A s" and vd: "valid_descriptor d"
    and wb: "desc_frames d \<noteq> {} \<longrightarrow> attributes d AND 8 \<noteq> 0" and fits: "fits A (P \<union> desc_frames d)"
  shows "\<exists>s' f'. map_descriptor L d s = Inr s' \<and> drawn A s' \<and> tight L (P \<union> desc_frames d) s' f'"
proof (cases "mappable d")
  case False
  then have "map_descriptor L d s = Inr s"
    using attr_63 [of d] by (auto simp: map_descriptor_def mappable_def)
  then show ?thesis using t d False by (auto simp: desc_frames_def)
next
  case True
  define b where "b = (if physical_start d < 0x100000 then 0x100000 else physical_start d)"
  define e0 where "e0 = physical_start d + number_of_pages d * 4096"
  define e where "e = (if e0 > PMM_LIMIT then PMM_LIMIT else e0)"
  note vr = valid_descriptor_range [OF vd]
  have e0: "unat e0 = unat (physical_start d) + unat (number_of_pages d) * 4096"
    unfolding e0_def by (rule vr(4))
  have b: "page_aligned b" "0x100000 \<le> b"
    using vr(1) unfolding b_def by (auto simp: page_aligned_unat)
  have e: "e \<le> PMM_LIMIT" by (auto simp: e_def not_less)
  have frames: "page_run b e = desc_frames d"
    using True e0 unfolding page_run_def desc_frames_def frame_addr_def b_def e_def desc_range_def
    by (auto simp: word_le_nat_alt word_less_nat_alt split: if_splits)
  have unfold: "map_descriptor L d s = (if b \<ge> e then Inr s else if attributes d AND 8 = 0 then Inl (False, s)
      else for_pages b e (\<lambda>page s. case map_page L page s of
        (True, s) \<Rightarrow> Inr s | (False, s) \<Rightarrow> Inl (False, s)) s)"
    using True attr_63 [of d] unfolding map_descriptor_def Let_def mappable_def b_def e_def e0_def by auto
  have "b < e \<Longrightarrow> desc_frames d \<noteq> {}" using frames b(1) by (auto simp: page_run_def)
  then show ?thesis
    using t d fits wb map_run_tight [OF t d b e] page_run_empty [of b e]
    unfolding unfold frames [symmetric] by (auto simp: not_less split: sum.splits)
qed

lemma map_boot_ram_tight:
  assumes ctx: "boot_ctx m p F" and s0: "tables s0 \<union> pmm_avail (pm s0) \<subseteq> F" and m: "outside (tables s0) m (ram (mach s0))"
  defines "info \<equiv> load_BOOT_INFO m p"
  assumes wb: "\<forall>i < desc_count info. desc_frames (descriptor m info (of_nat i)) \<noteq> {} \<longrightarrow>
      attributes (descriptor m info (of_nat i)) AND 8 \<noteq> 0"
    and fits: "fits A (boot_ram m info)"
    and i: "i \<le> desc_count info" and ext: "alloc_ext s0 s" and t: "tight L P s f" and d: "drawn A s"
    and P: "P \<subseteq> boot_ram m info"
  shows "\<exists>s'. map_boot_ram_from L p (of_nat i * descriptor_size info) s = Some (True, s')
    \<and> card (tables s') \<le> Suc (card (paths (boot_ram m info)))"
  using i ext t d P
proof (induction "desc_count info - i" arbitrary: i s P f)
  case (0 i s P f)
  have id: "ident L P s f" using 0(4) by (simp add: tight_def)
  obtain r s' where run: "map_boot_ram_from L p (of_nat i * descriptor_size info) s = Some (r, s')"
    using map_boot_ram_ok [OF ctx s0 m _ 0(3) id, of i] 0(2) unfolding info_def by blast
  have out: "outside (tables s) m (ram (mach s))" and sub: "tables s \<subseteq> F"
    using alloc_ext_tables [OF 0(3) s0 m] by simp_all
  have off: "unat (of_nat i * descriptor_size info) = unat (memory_map_size info)"
    using desc_offset [OF ctx 0(2) [unfolded info_def]] 0(1,2) boot_map_layout(2) ctx
    by (simp add: info_def boot_ctx_def)
  have "map_boot_ram_from L p (of_nat i * descriptor_size info) s = Some (True, s)"
    using boot_info_stable [OF ctx out sub] off
    by (subst map_boot_ram_from.simps) (simp add: info_def word_less_nat_alt)
  moreover have "card (tables s) \<le> Suc (card (paths (boot_ram m info)))"
    using tight_card [OF 0(4)] card_mono [OF finite_paths paths_mono [OF 0(6)]] by simp
  ultimately show ?case by blast
next
  case (Suc n i s P f)
  have lt: "i < desc_count info" using Suc.hyps(2) by simp
  have v: "valid_boot_info m p" using ctx by (simp add: boot_ctx_def)
  note lay = boot_map_layout [OF v, folded info_def]
  have out: "outside (tables s) m (ram (mach s))" and sub: "tables s \<subseteq> F"
    using alloc_ext_tables [OF Suc.prems(2) s0 m] by simp_all
  let ?d = "descriptor m info (of_nat i)"
  have off: "of_nat i * descriptor_size info < memory_map_size info"
    using desc_offset [OF ctx Suc.prems(1) [unfolded info_def]] lt lay(1,2)
    by (simp add: info_def word_less_nat_alt)
  have info: "load_BOOT_INFO (ram (mach s)) p = info"
    using boot_info_stable [OF ctx out sub] by (simp add: info_def)
  have dsc: "load_DESCRIPTOR (ram (mach s)) (memory_map info + of_nat i * descriptor_size info) = ?d"
    using descriptor_stable [OF ctx out sub] lt by (simp add: info_def)
  have vd: "valid_descriptor ?d" using ctx lt by (simp add: boot_ctx_def valid_map_ranges_iff info_def)
  have sub': "P \<union> desc_frames ?d \<subseteq> boot_ram m info" using Suc.prems(5) lt by (auto simp: boot_ram_def)
  obtain s' f' where s': "map_descriptor L ?d s = Inr s'" "drawn A s'" "tight L (P \<union> desc_frames ?d) s' f'"
    using map_descriptor_tight [OF Suc.prems(3,4) vd] wb lt fits_mono [OF fits sub'] by blast
  have "ident L P s f" using Suc.prems(3) by (simp add: tight_def)
  from map_descriptor_ok [OF this vd] have ext': "alloc_ext s0 s'" using s'(1) alloc_ext_trans [OF Suc.prems(2)] by auto
  have "load_BOOT_INFO (ram (mach s')) p = info"
    unfolding info_def using alloc_ext_tables [OF ext' s0 m]
    by (elim conjE) (rule boot_info_stable [OF ctx])
  then have run: "map_boot_ram_from L p (of_nat i * descriptor_size info) s =
      map_boot_ram_from L p (of_nat (Suc i) * descriptor_size info) s'"
    using off info dsc s'(1)
    by (subst map_boot_ram_from.simps) (simp add: distrib_right add.commute)
  have "n = desc_count info - Suc i" "Suc i \<le> desc_count info" using Suc.hyps(2) lt by simp_all
  from Suc.hyps(1) [OF this ext' s'(3,2) sub'] show ?case unfolding run .
qed


section \<open>The checks on the finished map\<close>

lemma mapped_range_holds:
  assumes id: "ident L P s f" and b: "0x100000 \<le> b" "0 < unat sz" "unat b + unat sz \<le> 0x100000000"
    and P: "page_run (b AND NOT 4095) (b + sz) \<subseteq> P"
  shows "mapped_range s b sz"
proof -
  have e: "unat (b + sz) = unat b + unat sz" using b(3) by (intro unat_add_no_wrap) simp
  then have e': "b + sz \<le> PMM_LIMIT" using b(3) by (simp add: word_le_nat_alt)
  have lt: "b < PMM_LIMIT" using b(2,3) by (simp add: word_less_nat_alt)
  have "unat (PMM_LIMIT - b) = 0x100000000 - unat b" using lt by (simp add: unat_sub)
  then have "sz \<le> PMM_LIMIT - b" using b(3) by (simp add: word_le_nat_alt)
  moreover have "identity_leaf s w 39 (paging_root s)" if "w \<in> page_run (b AND NOT 4095) (b + sz)" for w
  proof -
    have "w \<in> P" using that P by blast
    moreover from this have "frame_addr w" using id by (auto simp: ident_def)
    then have "vpage w" "w \<noteq> 0" using frame_vpage frame_table_addr by (auto simp: table_addr_def)
    ultimately show ?thesis using identity_leaf_ident [OF id] by blast
  qed
  moreover have "sz \<noteq> 0" using b(2) by auto
  ultimately show ?thesis
    using b(1) lt for_pages_all [OF base_aligned e', of b "\<lambda>w. identity_leaf s w 39 (paging_root s)"]
    by (simp add: mapped_range_def not_less del: not_eq_complement)
qed

lemma page_run_one:
  assumes "frame_addr g"
  shows "page_run (g AND NOT 4095) (g + 4096) = {g}"
proof -
  have g: "page_aligned g" "g < 0x100000000" using assms by (simp_all add: frame_addr_def)
  then have lt: "g < g + 4096" by (simp add: word_less_nat_alt unat_add_no_wrap)
  have "g + 4096 \<le> PMM_LIMIT"
  proof -
    obtain q where "unat g = 4096 * q" using g(1) by (rule page_alignedE)
    then show ?thesis using g(2) by (simp add: word_le_nat_alt word_less_nat_alt unat_add_no_wrap)
  qed
  then have "page_run g (g + 4096) = insert g (page_run (g + 4096) (g + 4096))" by (rule page_run_step(2) [OF g(1) lt])
  then show ?thesis unfolding page_base [OF g(1)] by (simp add: page_run_empty)
qed

lemma mapped_frame:
  assumes "ident L P s f" and "g \<in> P"
  shows "mapped_range s g 4096"
proof -
  have g: "frame_addr g" using assms by (auto simp: ident_def)
  then obtain q where "unat g = 4096 * q" by (auto simp: frame_addr_def elim: page_alignedE)
  then show ?thesis
    using g assms(2) page_run_one [OF g] by (intro mapped_range_holds [OF assms(1)])
      (auto simp: frame_addr_def word_less_nat_alt simp del: not_eq_complement)
qed

lemma unmap_guards_succeed:
  "ident L P s f \<Longrightarrow> distinct gs \<Longrightarrow> set gs \<subseteq> P \<Longrightarrow> fst (unmap_guards gs s)"
proof (induction gs arbitrary: s P f)
  case (Cons g gs)
  have g: "g \<in> P" "frame_addr g" using Cons.prems by (auto simp: ident_def)
  note mr = mapped_frame [OF Cons.prems(1) g(1)]
  let ?s = "snd (unmap_guards [g] s)"
  have run: "unmap_guards [g] s = (True, ?s)" and eq: "unmap_guards (g # gs) s = unmap_guards gs ?s" using mr by simp_all
  obtain P' f' where "ident L P' ?s f'" "P' = P - {g}"
    using unmap_guards_ok [OF Cons.prems(1) run] page_base [of g] g(2) by (auto simp: frame_addr_def)
  moreover have "set gs \<subseteq> P - {g}" "distinct gs" using Cons.prems by auto
  ultimately show ?case unfolding eq using Cons.IH by blast
qed simp


section \<open>Success of the initialisation\<close>

text \<open>A region that \<open>required_regions_mapped\<close> accepts.\<close>

definition region_in :: "u64 set \<Rightarrow> u64 \<Rightarrow> u64 \<Rightarrow> bool" where
  "region_in R b sz \<longleftrightarrow> 0x100000 \<le> b \<and> 0 < unat sz \<and> unat b + unat sz \<le> 0x100000000 \<and> region_pages b sz \<subseteq> R"

definition guard_list :: "layout \<Rightarrow> BOOT_INFO \<Rightarrow> u64 list" where
  "guard_list L info = [stack_base info - 4096, stack_base info + stack_size info,
     double_fault_guard_low L, double_fault_guard_high L]"

lemma required_regions_hold:
  assumes id: "ident L R s f" and info: "load_BOOT_INFO (ram (mach s)) p = info" and tabs: "tab_inv s" "tables s \<subseteq> R"
    and reg: "region_in R (kernel_base info) (kernel_size info)" "region_in R (stack_base info) (stack_size info)"
      "region_in R p sizeof_BOOT_INFO" "region_in R (memory_map info) (memory_map_size info)"
  shows "required_regions_mapped p s"
proof -
  have mr: "mapped_range s b sz" if "region_in R b sz" for b sz
    using that mapped_range_holds [OF id, of b sz] by (simp only: region_in_def region_pages_def)
  have "mapped_range s (table_pages s ! unat (of_nat k :: u64)) 4096" if k: "k < unat (paging_table_count s)" for k
  proof -
    have "unat (of_nat k :: u64) = k" using k tabs by (simp add: tab_inv_def unat_of_nat64)
    moreover have "table_pages s ! k \<in> tables s"
      using k tabs(1) by (auto simp: table_list_def tab_inv_def in_set_conv_nth)
    ultimately show ?thesis using mapped_frame [OF id] tabs(2) by auto
  qed
  then show ?thesis using mr reg info by (auto simp: required_regions_mapped_def Let_def for_ret_search_unit)
qed

lemma paging_init_lives:
  assumes free: "boot_free (ram m) p pm0" and cpu: "supported_cpu_state (cr4 m) m"
  defines "info \<equiv> load_BOOT_INFO (ram m) p" and "R \<equiv> boot_ram (ram m) (load_BOOT_INFO (ram m) p)"
  assumes wb: "\<forall>i < desc_count info. desc_frames (descriptor (ram m) info (of_nat i)) \<noteq> {} \<longrightarrow>
      attributes (descriptor (ram m) info (of_nat i)) AND 8 \<noteq> 0"
    and room: "card (paths R) < 4096" "card (paths R) < card (pmm_avail pm0)"
    and reg: "region_in R (kernel_base info) (kernel_size info)" "region_in R (stack_base info) (stack_size info)"
      "region_in R p sizeof_BOOT_INFO" "region_in R (memory_map info) (memory_map_size info)"
    and guards: "distinct (guard_list L info)" "set (guard_list L info) \<subseteq> R"
  shows "\<exists>s'. paging_init L p (paging_bss m pm0) = Some (True, s') \<and> card (tables s') \<le> Suc (card (paths R))"
proof -
  have ctx: "boot_ctx (ram m) p (pmm_avail pm0)" using free by (simp add: boot_free_def)
  have av: "pmm_avail pm0 \<noteq> {}" using room(2) by auto
  have "pmm_total pm0 \<noteq> 0"
    using av free
    by (auto simp: pmm_total_def boot_free_def pmm_inv_def pmm_avail_def free_set_def)
  from paging_init_steps [OF free this cpu av, of L] obtain root s1 r2 s2 P2 f2 ok t where
    st: "boot_started m p pm0 s1" "tables s1 = {root}" "ident L {} s1 [[] \<mapsto> root]"
    and m2: "map_boot_ram L p s1 = Some (r2, s2)" "alloc_ext s1 s2" "ident L P2 s2 f2" "r2 \<longrightarrow> P2 = R"
    and g: "unmap_stack_guards L p s2 = (ok, t)"
    and run: "paging_init L p (paging_bss m pm0) = Some (if \<not> r2 \<or> \<not> required_regions_mapped p s2
        then (False, discard_page_tables s2) else if \<not> ok then (False, discard_page_tables t)
        else (True, activate_page_tables (cr4 m) t))"
    unfolding R_def by metis
  have d: "drawn (pmm_avail pm0) s1" using st(1) by (auto simp: drawn_def boot_started_def)
  have tight: "tight L {} s1 [[] \<mapsto> root]" using st(3) by (simp add: tight_def paths_def)
  have s1: "tables s1 \<union> pmm_avail (pm s1) \<subseteq> pmm_avail pm0" "outside (tables s1) (ram m) (ram (mach s1))"
    using st(1) by (auto simp: boot_started_def)
  have "fits (pmm_avail pm0) R" using room by (simp add: fits_def)
  then have "\<exists>s'. map_boot_ram L p s1 = Some (True, s') \<and> card (tables s') \<le> Suc (card (paths R))"
    using map_boot_ram_tight [OF ctx s1 _ _ _ alloc_ext_refl tight d, of 0] wb
    by (simp add: map_boot_ram_def info_def R_def)
  then have r2: r2 and id: "ident L R s2 f2" and c2: "card (tables s2) \<le> Suc (card (paths R))" using m2 by auto
  have "tables s2 \<subseteq> R"
    using alloc_ext_tables [OF m2(2) s1] free by (auto simp: R_def boot_free_def)
  moreover note info = boot_info_kept [OF st(1) m2(2), folded info_def]
  ultimately have req: "required_regions_mapped p s2"
    using required_regions_hold [OF id info _ _ reg] id by (simp add: ident_def pt_inv_def)
  have "tables t = tables s2" using g unfolding unmap_stack_guards_def Let_def by (rule guards_tables)
  then have "tables (activate_page_tables (cr4 m) t) = tables s2"
    by (simp add: activate_page_tables_def Let_def table_list_def)
  moreover have "ok" using unmap_guards_succeed [OF id guards] g info by (simp add: unmap_stack_guards_def guard_list_def)
  ultimately show ?thesis using run r2 req c2 by simp
qed


section \<open>A machine that boots\<close>

text \<open>
  256 KiB of loader data at 1 MiB (kernel, then boot information, memory map and stack between two guard
  pages, as the loader lays them out), then 256 KiB of conventional memory.
\<close>

definition live_info :: BOOT_INFO where
  "live_info = \<lparr>magic = BOOT_INFO_MAGIC, version = 2, info_size = 88, memory_map = 0x111000,
     memory_map_size = 96, descriptor_size = 48, descriptor_version = 1, reserved = 0,
     kernel_base = 0x100000, kernel_size = 0x8000, stack_base = 0x122000, stack_size = 0x10000,
     info_flags = 1\<rparr>"

definition live_descriptors :: "BOOT_MEMORY_DESCRIPTOR list" where
  "live_descriptors = [
     \<lparr>dtype = 2, padding = 0, physical_start = 0x100000, virtual_start = 0, number_of_pages = 64, attributes = 8\<rparr>,
     \<lparr>dtype = 7, padding = 0, physical_start = 0x140000, virtual_start = 0, number_of_pages = 64, attributes = 8\<rparr>]"

definition live_layout :: layout where
  "live_layout = \<lparr>kernel_text_start = 0x100000, kernel_text_end = 0x102000, kernel_rodata_start = 0x102000,
     kernel_rodata_end = 0x103000, double_fault_guard_low = 0x104000, double_fault_guard_high = 0x107000\<rparr>"

definition live_pmm_of :: "memory \<Rightarrow> pmm" where
  "live_pmm_of m = snd (pmm_init m 0x110000 pmm_bss)"

lemma live_count: "desc_count live_info = 2"
  by (simp add: desc_count_def live_info_def)

lemma low_path:
  assumes "w < 0x200000"
  shows "inner_path w = [0, 0, 0]"
proof -
  have "unat w < 0x200000" using assms by (simp add: word_less_nat_alt)
  then have "unat (pt_index w 39) = 0" "unat (pt_index w 30) = 0" "unat (pt_index w 21) = 0"
    unfolding unat_pt_index by simp_all
  then show ?thesis by (simp add: inner_path_def unat_eq_0)
qed

text \<open>Every memory that holds this information at \<open>0x110000\<close> meets the demands.\<close>

locale live_map =
  fixes m :: memory
  assumes info: "load_BOOT_INFO m 0x110000 = live_info"
    and desc0: "load_DESCRIPTOR m 0x111000 = live_descriptors ! 0"
    and desc1: "load_DESCRIPTOR m 0x111030 = live_descriptors ! 1"
begin

lemma descriptors:
  "descriptor m live_info 0 = live_descriptors ! 0" "descriptor m live_info 1 = live_descriptors ! 1"
  using desc0 desc1 by (simp_all add: descriptor_def live_info_def)

lemma init_ok: "pmm_init m 0x110000 pmm_bss = (True, live_pmm_of m)"
proof -
  have "valid_boot_info m 0x110000"
    by (simp add: valid_boot_info_def info live_info_def valid_range_def le_max_minus_iff)
  moreover have "valid_map_ranges m live_info"
    using descriptors
    by (auto simp: valid_map_ranges_iff live_count less_2_cases_iff valid_descriptor_def live_descriptors_def desc_range_def)
  ultimately have "fst (pmm_init m 0x110000 pmm_bss)" by (simp add: pmm_init_accepts info pmm_bss_def)
  then show ?thesis by (simp add: live_pmm_of_def prod_eq_iff)
qed

lemma free_set_eq: "free_set (live_pmm_of m) = {0x140..<0x180}"
proof -
  have "usable_pages m live_info = {0x140..<0x180}"
    using descriptors
    by (auto simp: usable_pages_def live_count less_2_cases_iff conventional_def desc_range_def live_descriptors_def
        bit_numeral_rec)
  moreover have "reserved_pages live_info 0x110000 = {0x100..<0x108} \<union> {0x110} \<union> {0x111} \<union> {0x122..<0x132}"
    by (simp add: reserved_pages_def touched_eq live_info_def) auto
  ultimately show ?thesis
    using pmm_init_spec(1,2) [OF pmm_bss_inv init_ok] unfolding info by (auto simp: free_set_def)
qed

lemma avail: "pmm_avail (live_pmm_of m) = frame ` {0x140..<0x180}" "card (pmm_avail (live_pmm_of m)) = 64"
proof -
  show "pmm_avail (live_pmm_of m) = frame ` {0x140..<0x180}" by (simp add: pmm_avail_def free_set_eq)
  have "pmm_inv (live_pmm_of m)" using pmm_init_spec(4) [OF pmm_bss_inv init_ok] .
  then show "card (pmm_avail (live_pmm_of m)) = 64"
    using card_pmm_avail [of "live_pmm_of m"] free_set_eq by (simp add: pmm_available_def pmm_inv_def)
qed

lemma boot_ram_eq: "boot_ram m live_info = {w. page_aligned w \<and> 0x100000 \<le> w \<and> w < 0x180000}"
proof -
  have d: "desc_frames d = {w. page_aligned w \<and> of_nat lo \<le> w \<and> w < of_nat hi}"
    if "mappable d" "desc_range d = {lo..<hi}" "0x100000 \<le> lo" "lo \<le> hi" "hi \<le> 0x180000" for d lo hi
    using that by (auto simp: desc_frames_def frame_addr_def word_le_nat_alt word_less_nat_alt unat_of_nat64)
  have d0: "desc_frames (live_descriptors ! 0) = {w. page_aligned w \<and> 0x100000 \<le> w \<and> w < 0x140000}"
    using d [of "live_descriptors ! 0" "0x100000" "0x140000"]
    by (simp add: mappable_def desc_range_def live_descriptors_def bit_numeral_rec)
  have d1: "desc_frames (live_descriptors ! 1) = {w. page_aligned w \<and> 0x140000 \<le> w \<and> w < 0x180000}"
    using d [of "live_descriptors ! 1" "0x140000" "0x180000"]
    by (simp add: mappable_def desc_range_def live_descriptors_def bit_numeral_rec)
  have "{..<2 :: nat} = {0, 1}" by auto
  then have "boot_ram m live_info = desc_frames (live_descriptors ! 0) \<union> desc_frames (live_descriptors ! 1)"
    unfolding boot_ram_def live_count using descriptors by simp
  also have "\<dots> = {w. page_aligned w \<and> 0x100000 \<le> w \<and> w < 0x180000}"
    unfolding d0 d1 by (rule set_eqI) (simp add: word_le_nat_alt word_less_nat_alt, linarith)
  finally show ?thesis .
qed

lemma paths_card: "card (paths (boot_ram m live_info)) = 3"
proof -
  let ?R = "boot_ram m live_info"
  have n: "{1..3 :: nat} = {1, 2, 3}" by auto
  have "inner_path w = [0, 0, 0]" if "w \<in> ?R" for w
    using that boot_ram_eq low_path [of w] by (auto simp: word_less_nat_alt)
  moreover have "(0x100000 :: u64) \<in> ?R" using boot_ram_eq by (simp add: page_aligned_unat)
  ultimately have "paths ?R = (\<lambda>j. take j [0, 0, 0]) ` {1..3}" unfolding paths_def by auto
  also have "\<dots> = {[0], [0, 0], [0, 0, 0]}" unfolding n by (simp add: take_Cons' numeral_2_eq_2 numeral_3_eq_3)
  finally show ?thesis by simp
qed

lemma region:
  assumes "0x100000 \<le> b" and "0 < unat sz" and "unat b + unat sz \<le> 0x180000"
  shows "region_in (boot_ram m live_info) b sz"
proof -
  have e: "unat (b + sz) = unat b + unat sz" using assms(3) by (intro unat_add_no_wrap) simp
  have "w \<in> boot_ram m live_info" if w: "w \<in> page_run (b AND NOT 4095) (b + sz)" for w
  proof -
    have "page_aligned w" "b AND NOT 4095 \<le> w" "w < b + sz" using w by (simp_all only: page_run_def mem_Collect_eq)
    moreover note base_low [OF assms(1)]
    ultimately show ?thesis unfolding boot_ram_eq mem_Collect_eq using e assms(3)
      by (simp add: word_le_nat_alt word_less_nat_alt)
  qed
  then show ?thesis using assms by (auto simp only: region_in_def region_pages_def)
qed

lemma write_back:
  "\<forall>i < desc_count live_info. desc_frames (descriptor m live_info (of_nat i)) \<noteq> {} \<longrightarrow>
     attributes (descriptor m live_info (of_nat i)) AND 8 \<noteq> 0"
  using descriptors by (auto simp: live_count less_2_cases_iff live_descriptors_def)

lemma regions:
  "region_in (boot_ram m live_info) (kernel_base live_info) (kernel_size live_info)"
  "region_in (boot_ram m live_info) (stack_base live_info) (stack_size live_info)"
  "region_in (boot_ram m live_info) 0x110000 sizeof_BOOT_INFO"
  "region_in (boot_ram m live_info) (memory_map live_info) (memory_map_size live_info)"
  by (rule region; simp add: live_info_def)+

lemma guards:
  "distinct (guard_list live_layout live_info)" "set (guard_list live_layout live_info) \<subseteq> boot_ram m live_info"
  unfolding boot_ram_eq by (simp_all add: guard_list_def live_layout_def live_info_def page_aligned_unat)

lemma room:
  "card (paths (boot_ram m live_info)) < 4096"
  "card (paths (boot_ram m live_info)) < card (pmm_avail (live_pmm_of m))"
  by (simp_all add: paths_card avail(2))

lemmas demands = write_back room regions guards

end

definition live_memory :: memory where
  "live_memory = store_DESCRIPTOR 0x111030 (live_descriptors ! 1) (store_DESCRIPTOR 0x111000 (live_descriptors ! 0)
     (store_BOOT_INFO 0x110000 live_info (\<lambda>_. 0)))"

interpretation live: live_map live_memory
proof
  have "load_BOOT_INFO live_memory 0x110000 = load_BOOT_INFO (store_BOOT_INFO 0x110000 live_info (\<lambda>_. 0)) 0x110000"
    unfolding live_memory_def store_DESCRIPTOR_def load_BOOT_INFO_def by (simp add: c_simps)
  then show "load_BOOT_INFO live_memory 0x110000 = live_info" by simp
  have "load_DESCRIPTOR live_memory 0x111000 = load_DESCRIPTOR (store_DESCRIPTOR 0x111000 (live_descriptors ! 0)
      (store_BOOT_INFO 0x110000 live_info (\<lambda>_. 0))) 0x111000"
    unfolding live_memory_def store_DESCRIPTOR_def load_DESCRIPTOR_def by (simp add: c_simps)
  then show "load_DESCRIPTOR live_memory 0x111000 = live_descriptors ! 0" by simp
  show "load_DESCRIPTOR live_memory 0x111030 = live_descriptors ! 1" by (simp add: live_memory_def)
qed

definition live_pmm :: pmm where
  "live_pmm = live_pmm_of live_memory"

definition live_machine :: machine where
  "live_machine = demo_machine\<lparr>ram := live_memory, msr := (\<lambda>_. 6),
     cpuid := (\<lambda>_ _. \<lparr>eax = 0x80000008, ebx = 0, ecx = 0, edx = 0x100000\<rparr>)\<rparr>"

lemma live_init_facts:
  "pmm_init (ram live_machine) 0x110000 pmm_bss = (True, live_pmm)" "supported_cpu_state (cr4 live_machine) live_machine"
  "ram live_machine = live_memory"
  using live.init_ok
  by (simp_all add: supported_cpu_state_def live_machine_def demo_machine_def x86_read_rflags_def x86_cpuid_def live_pmm_def)

lemmas live_demands = live.demands [folded live_pmm_def]
lemmas live_avail = live.avail [folded live_pmm_def]

lemma live_free: "boot_free (ram live_machine) 0x110000 live_pmm"
  by (rule boot_free_init [OF live_init_facts(1)])

definition live_paging :: paging where
  "live_paging = snd (the (paging_init live_layout 0x110000 (paging_bss live_machine live_pmm)))"

lemma live_boots:
  "paging_init live_layout 0x110000 (paging_bss live_machine live_pmm) = Some (True, live_paging)"
  "card (tables live_paging) \<le> 4"
  using paging_init_lives [OF live_free live_init_facts(2), of live_layout, unfolded live_init_facts(3) live.info, OF live_demands]
  by (auto simp: live_paging_def live.paths_card)


section \<open>Property\<close>

text \<open>
  C36: \<open>paging_init\<close> succeeds on a machine that meets its demands: a supported processor state,
  write-back memory in every descriptor it maps, the kernel, stack, boot information and memory
  map in boot RAM from 1 MiB up to 4 GiB, four distinct guard pages in boot RAM, and free frames for
  the root table and one table per path to a mapped page. It takes no more frames than
  these.
\<close>

theorem paging_init_succeeds:
  assumes init: "pmm_init (ram m) p pmm_bss = (True, pm0)" and cpu: "supported_cpu_state (cr4 m) m"
  defines "info \<equiv> load_BOOT_INFO (ram m) p" and "R \<equiv> boot_ram (ram m) (load_BOOT_INFO (ram m) p)"
  assumes wb: "\<forall>i < desc_count info. desc_frames (descriptor (ram m) info (of_nat i)) \<noteq> {} \<longrightarrow>
      attributes (descriptor (ram m) info (of_nat i)) AND 8 \<noteq> 0"
    and room: "card (paths R) < 4096" "card (paths R) < card (pmm_avail pm0)"
    and reg: "region_in R (kernel_base info) (kernel_size info)" "region_in R (stack_base info) (stack_size info)"
      "region_in R p sizeof_BOOT_INFO" "region_in R (memory_map info) (memory_map_size info)"
    and guards: "distinct (guard_list L info)" "set (guard_list L info) \<subseteq> R"
  shows "\<exists>s'. paging_init L p (paging_bss m pm0) = Some (True, s') \<and> card (tables s') \<le> Suc (card (paths R))"
  using wb room reg guards unfolding info_def R_def by (rule paging_init_lives [OF boot_free_init [OF init] cpu])

theorem paging_init_succeeds_witness:
  "\<exists>s'. paging_init live_layout 0x110000 (paging_bss live_machine live_pmm) = Some (True, s') \<and> card (tables s') \<le> 4"
  using paging_init_succeeds [OF live_init_facts(1,2), of live_layout, unfolded live_init_facts(3) live.info,
        OF live_demands] by (simp add: live.paths_card)

end
