(* ===== verification/PmmCheck.thy ===== *)
theory PmmCheck
  imports Pmm PageMem
begin

text \<open>
  The RAM check of \<open>kernel/pmm_check.c\<close>. It runs on the allocator and on memory; a
  result is the returned flag with both states as they are at that return. The client of
  the allocator contract proved here: the check passes whenever three pages are free,
  and leaves every page free that was free before.
\<close>

definition fill_pattern :: "u64 \<Rightarrow> memory \<Rightarrow> memory" where
  "fill_pattern page = for_up 0 512 (\<lambda>j. set_entry page j (page XOR j))"

definition holds_pattern :: "memory \<Rightarrow> u64 \<Rightarrow> bool" where
  "holds_pattern m page =
     (case for_ret 0 512 (\<lambda>j _. if get_entry m page j \<noteq> (page XOR j) then Inl False else Inr ()) () of
        Inl r \<Rightarrow> r | Inr _ \<Rightarrow> True)"

text \<open>The first loop: allocate page \<open>i\<close>, compare it with the earlier ones, fill it.\<close>

primrec check_allocate ::
  "nat \<Rightarrow> u64 list \<Rightarrow> memory \<Rightarrow> pmm \<Rightarrow> (u64 list option) \<times> memory \<times> pmm" where
  "check_allocate 0 ps m s = (Some ps, m, s)"
| "check_allocate (Suc n) ps m s =
     (case pmm_alloc True s of
        (None, s') \<Rightarrow> (None, m, s')
      | (Some a, s') \<Rightarrow>
          if a \<in> set ps then (None, m, s')
          else check_allocate n (ps @ [a]) (fill_pattern a m) s')"

definition pmm_boot_check :: "memory \<Rightarrow> pmm \<Rightarrow> bool \<times> memory \<times> pmm" where
  "pmm_boot_check m s0 =
     (let before = pmm_available s0 in
      if before < 3 then (False, m, s0)
      else case check_allocate 3 [] m s0 of
        (None, m, s) \<Rightarrow> (False, m, s)
      | (Some ps, m, s) \<Rightarrow>
          if \<not> list_all (holds_pattern m) ps then (False, m, s)
          else if pmm_available s \<noteq> before - 3 then (False, m, s)
          else let (r1, s) = pmm_free (ps ! 0 + 1) s in if r1 then (False, m, s)
          else let (r2, s) = pmm_free 0 s in if r2 then (False, m, s)
          else let (r3, s) = pmm_free (ps ! 1) s in if \<not> r3 then (False, m, s)
          else let (r4, s) = pmm_free (ps ! 1) s in if r4 then (False, m, s)
          else case pmm_alloc True s of
            (None, s) \<Rightarrow> (False, m, s)
          | (Some again, s) \<Rightarrow>
              if again \<noteq> ps ! 1 then (False, m, s)
              else let (r5, s) = pmm_free (ps ! 0) s in if \<not> r5 then (False, m, s)
              else let (r6, s) = pmm_free again s in if \<not> r6 then (False, m, s)
              else let (r7, s) = pmm_free (ps ! 2) s in if \<not> r7 then (False, m, s)
              else (pmm_available s = before, m, s))"

lemma holds_pattern_iff: "holds_pattern m page \<longleftrightarrow> (\<forall>j < 512. get_entry m page j = (page XOR j))"
proof -
  have "holds_pattern m page \<longleftrightarrow> (\<forall>k < 512. get_entry m page (of_nat k) = (page XOR of_nat k))"
    unfolding holds_pattern_def for_ret_search_unit by simp
  moreover have "(\<forall>k < 512. P (of_nat k)) \<longleftrightarrow> (\<forall>j < 512. P j)" for P :: "u64 \<Rightarrow> bool"
  proof (intro iffI allI impI)
    fix j :: u64 assume "\<forall>k < 512. P (of_nat k)" "j < 512"
    moreover from this have "unat j < 512" by (simp add: word_less_nat_alt)
    ultimately have "P (of_nat (unat j))" by blast
    then show "P j" by simp
  next
    fix k :: nat assume "\<forall>j < 512. P j" "k < 512"
    then show "P (of_nat k)" by (simp add: word_less_nat_alt unat_of_nat64)
  qed
  ultimately show ?thesis by simp
qed

lemma fill_pattern_holds:
  "page_aligned page \<Longrightarrow> holds_pattern (fill_pattern page m) page"
  by (simp add: holds_pattern_iff fill_pattern_def pw.fill_same)

lemma fill_pattern_other:
  "page_aligned page \<Longrightarrow> page_aligned other \<Longrightarrow> page \<noteq> other \<Longrightarrow>
   holds_pattern (fill_pattern page m) other = holds_pattern m other"
  by (simp add: holds_pattern_iff fill_pattern_def pw.fill_other)

text \<open>The loop allocates like \<open>alloc_many\<close> and every page it returns holds its pattern.\<close>

lemma check_allocate_spec:
  assumes "pmm_inv s" and "n \<le> card (pmm_avail s)" and "distinct ps"
    and "set ps \<subseteq> pmm_used s" and "\<forall>p \<in> set ps. holds_pattern m p"
  shows "\<exists>qs m' s'. check_allocate n ps m s = (Some (ps @ qs), m', s')
    \<and> alloc_many (pmm_alloc True) n s = Some (qs, s') \<and> (\<forall>p \<in> set (ps @ qs). holds_pattern m' p)"
  using assms
proof (induction n arbitrary: ps m s)
  case 0
  then show ?case by simp
next
  case (Suc n)
  then have "pmm_avail s \<noteq> {}" by auto
  with Suc.prems(1) obtain a t where a: "pmm_alloc True s = (Some a, t)"
    using pmm_fa.alloc_succeeds by blast
  note step = pmm_fa.alloc_Some [OF Suc.prems(1) a] and fresh = pmm_fa.alloc_fresh [OF Suc.prems(1) a]
  have al: "page_aligned x" if "x \<in> insert a (set ps)" for x
    using that fresh Suc.prems(4) pmm_fa.frames [OF Suc.prems(1), of x] by (auto simp: frame_addr_def)
  have new: "a \<notin> set ps" using fresh Suc.prems(4) by auto
  have "\<forall>p \<in> set (ps @ [a]). holds_pattern (fill_pattern a m) p"
  proof
    fix p assume p: "p \<in> set (ps @ [a])"
    show "holds_pattern (fill_pattern a m) p"
      using p al Suc.prems(5) new
      by (cases "p = a") (auto simp: fill_pattern_holds fill_pattern_other)
  qed
  moreover have "set (ps @ [a]) \<subseteq> pmm_used t" using step Suc.prems(4) by auto
  moreover have "n \<le> card (pmm_avail t)"
    using pmm_fa.alloc_card [OF Suc.prems(1) a] Suc.prems(2) by simp
  ultimately obtain qs m' s' where "check_allocate n (ps @ [a]) (fill_pattern a m) t = (Some ((ps @ [a]) @ qs), m', s')"
    "alloc_many (pmm_alloc True) n t = Some (qs, s')" "\<forall>p \<in> set ((ps @ [a]) @ qs). holds_pattern m' p"
    using Suc.IH [of t "ps @ [a]" "fill_pattern a m"] step new Suc.prems(3) by auto
  then show ?case using a new by (intro exI [of _ "a # qs"] exI [of _ m'] exI [of _ s']) simp
qed

lemma not_frame_addr: "frame_addr a \<Longrightarrow> \<not> frame_addr (a + 1)" "\<not> frame_addr 0"
proof -
  assume "frame_addr a"
  then obtain q where q: "unat a = 4096 * q" by (auto simp: frame_addr_def elim: page_alignedE)
  moreover have "unat (a + 1) = unat a + 1"
    using \<open>frame_addr a\<close> by (simp add: frame_addr_def unat_succ [of a "0x100000000"])
  ultimately have "unat (a + 1) mod 4096 = 1" by simp
  then have "\<not> 4096 dvd unat (a + 1)" by (simp add: dvd_eq_mod_eq_0)
  then show "\<not> frame_addr (a + 1)" by (simp add: frame_addr_def page_aligned_unat)
qed (simp add: frame_addr_def)

lemma pmm_available_minus:
  assumes "pmm_inv s" and "pmm_inv t" and "card (pmm_avail t) + n = card (pmm_avail s)"
  shows "pmm_available t = pmm_available s - of_nat n"
proof -
  have "unat (pmm_available t) + n = unat (pmm_available s)"
    using assms by (simp add: card_pmm_avail)
  then have "of_nat (unat (pmm_available t) + n) = (of_nat (unat (pmm_available s)) :: u64)"
    by (simp only:)
  then show ?thesis by (simp add: eq_diff_eq)
qed

lemma pmm_boot_check_few:
  "pmm_available s < 3 \<Longrightarrow> pmm_boot_check m s = (False, m, s)"
  by (simp add: pmm_boot_check_def)

lemma pmm_boot_check_passes:
  assumes inv: "pmm_inv s" and av: "3 \<le> pmm_available s"
  shows "\<exists>m' s'. pmm_boot_check m s = (True, m', s') \<and> pmm_inv s'
    \<and> pmm_used s' = pmm_used s \<and> pmm_avail s' = pmm_avail s"
proof -
  have c3: "3 \<le> card (pmm_avail s)" using av by (simp add: card_pmm_avail inv word_le_nat_alt)
  obtain qs m1 s1 where ca: "check_allocate 3 [] m s = (Some qs, m1, s1)"
    and am: "alloc_many (pmm_alloc True) 3 s = Some (qs, s1)" and hp: "\<forall>p \<in> set qs. holds_pattern m1 p"
    using check_allocate_spec [OF inv c3, of "[]" m] by auto
  have sets: "length qs = 3" "set qs \<subseteq> pmm_avail s" "pmm_used s1 = pmm_used s \<union> set qs"
    "pmm_avail s1 = pmm_avail s - set qs" "pmm_inv s1"
    using pmm_fa.alloc_many_ok [OF inv c3] am by auto
  obtain p0 p1 p2 where qs: "qs = [p0, p1, p2]"
    using sets(1) by (auto simp: length_Suc_conv numeral_3_eq_3)
  have ord: "p0 < p1" "p1 < p2" "\<And>b. b \<in> pmm_avail s1 \<Longrightarrow> p1 < b"
    using pmm_fa.alloc_many_sorted [OF inv am] by (auto simp: qs)
  have dj: "pmm_used s \<inter> set qs = {}" using pmm_fa.disjoint [OF inv] sets(2) by auto
  have "card (set qs) = 3" using pmm_fa.alloc_many_ok [OF inv c3] am by (auto simp: distinct_card)
  then have "card (pmm_avail s1) + 3 = card (pmm_avail s)"
    using sets(2) c3 by (simp add: sets(4) card_Diff_subset)
  then have cnt: "pmm_available s1 = pmm_available s - 3"
    using pmm_available_minus [OF inv sets(5), of 3] by simp
  have bad: "pmm_free (p0 + 1) s1 = (False, s1)" "pmm_free 0 s1 = (False, s1)"
    using pmm_fa.frames [OF sets(5)] sets(3) not_frame_addr(1) [of p0] not_frame_addr(2) qs
    by (auto intro!: pmm_fa.free_unused [OF sets(5)])
  have "p1 \<in> pmm_used s1" using sets(3) qs by simp
  with sets(5) obtain s2 where f1: "pmm_free p1 s1 = (True, s2)" "pmm_used s2 = pmm_used s1 - {p1}"
    "pmm_avail s2 = insert p1 (pmm_avail s1)" "pmm_inv s2" by (rule pmm_fa.free_ok)
  have f1': "pmm_free p1 s2 = (False, s2)" using f1 by (intro pmm_fa.free_unused) simp_all
  obtain r s3 where al: "pmm_alloc True s2 = (r, s3)" by (cases "pmm_alloc True s2")
  have r: "r = Some p1"
    using pmm_fa.free_then_alloc [OF sets(5) \<open>p1 \<in> pmm_used s1\<close> ord(3) f1(1) al] .
  have s3: "pmm_used s3 = pmm_used s1" "pmm_avail s3 = pmm_avail s1" "pmm_inv s3"
    using pmm_fa.alloc_Some [OF f1(4), of p1 s3] al r f1 \<open>p1 \<in> pmm_used s1\<close> pmm_fa.disjoint [OF sets(5)]
    by auto
  have "p0 \<in> pmm_used s3" using s3 sets(3) qs by simp
  with s3(3) obtain s4 where f4: "pmm_free p0 s3 = (True, s4)" "pmm_used s4 = pmm_used s3 - {p0}"
    "pmm_avail s4 = insert p0 (pmm_avail s3)" "pmm_inv s4" by (rule pmm_fa.free_ok)
  have "p1 \<in> pmm_used s4" using f4 s3 sets(3) qs ord by auto
  with f4(4) obtain s5 where f5: "pmm_free p1 s4 = (True, s5)" "pmm_used s5 = pmm_used s4 - {p1}"
    "pmm_avail s5 = insert p1 (pmm_avail s4)" "pmm_inv s5" by (rule pmm_fa.free_ok)
  have "p2 \<in> pmm_used s5" using f5 f4 s3 sets(3) qs ord by auto
  with f5(4) obtain s6 where f6: "pmm_free p2 s5 = (True, s6)" "pmm_used s6 = pmm_used s5 - {p2}"
    "pmm_avail s6 = insert p2 (pmm_avail s5)" "pmm_inv s6" by (rule pmm_fa.free_ok)
  have fin: "pmm_used s6 = pmm_used s" "pmm_avail s6 = pmm_avail s"
    using f6 f5 f4 s3 sets qs dj by auto
  then have "pmm_available s6 = pmm_available s"
    using pmm_available_minus [OF inv f6(4), of 0] by simp
  moreover have "pmm_boot_check m s = (pmm_available s6 = pmm_available s, m1, s6)"
    using leD [OF av] ca hp cnt bad f1(1) f1' al r f4(1) f5(1) f6(1)
    by (simp add: pmm_boot_check_def qs Let_def)
  ultimately show ?thesis using fin f6(4) by simp
qed


section \<open>Properties\<close>

text \<open>
  C16: With at least three pages free, the RAM check always passes, whatever memory held
  before and wherever the cursor stands, and afterwards exactly the same pages are
  allocated and free as before; with fewer it fails and touches nothing.
\<close>

theorem pmm_boot_check_result:
  assumes "pmm_inv s"
  shows "\<exists>m' s'. pmm_boot_check m s = (3 \<le> pmm_available s, m', s') \<and> pmm_inv s'
    \<and> pmm_used s' = pmm_used s \<and> pmm_avail s' = pmm_avail s
    \<and> (pmm_available s < 3 \<longrightarrow> m' = m \<and> s' = s)"
proof (cases "pmm_available s < 3")
  case True
  then show ?thesis using assms pmm_boot_check_few [of s m] by (simp add: not_le)
next
  case False
  then show ?thesis using pmm_boot_check_passes [OF assms, of m] by (auto simp: not_less)
qed

theorem pmm_boot_check_result_witness:
  "fst (pmm_boot_check demo_memory demo_pmm) \<and> \<not> fst (pmm_boot_check (\<lambda>_. 0) pmm_bss)"
proof -
  have "3 \<le> pmm_available demo_pmm" by (simp add: word_le_nat_alt demo_available)
  moreover have "\<not> 3 \<le> pmm_available pmm_bss" by (simp add: pmm_available_def pmm_bss_def)
  ultimately show ?thesis
    using pmm_boot_check_result [OF pmm_bss_inv, of "\<lambda>_. 0"]
      pmm_boot_check_result [OF demo_pmm_inv, of demo_memory] by auto
qed

end
