(* ===== verification/PagingClient.thy ===== *)
theory PagingClient
  imports PagingCheck PagingLive PmmCheck
begin

text \<open>
  A client of the dynamic window. \<open>sits s0 f0 B D c s\<close> describes the states of a
  client that started in \<open>s0\<close>: the window holds exactly the mappings
  \<open>B\<close>, the client owns the frames \<open>D\<close> and the first word of each is given by \<open>c\<close>. One rule
  per operation (paging operation, memory access, page allocation) moves from one such
  description to the next.
\<close>

section \<open>Tables of the window\<close>

definition window :: "u64 \<Rightarrow> bool" where
  "window v \<longleftrightarrow> page_aligned v \<and> v \<ge> PAGING_DYNAMIC_BASE \<and> v - PAGING_DYNAMIC_BASE < PAGING_DYNAMIC_SIZE"

definition running :: "paging \<Rightarrow> bool" where
  "running s \<longleftrightarrow> active s \<and> \<not> bit (rflags (mach s)) 9 \<and> cr3 (mach s) = paging_root s"

lemma dynamic_window: "running s \<Longrightarrow> dynamic_address v s \<longleftrightarrow> window v"
  using bit9_iff [of "rflags (mach s)"]
  by (auto simp: running_def dynamic_address_def window_def x86_read_rflags_def and_4095_iff)

lemma window_vpage: "window v \<Longrightarrow> vpage v"
  by (simp add: window_def vpage_def canonical_def)

lemma path_under_window:
  assumes f: "vm_tree s f" and run: "running s" and p: "f p = Some t" "p \<noteq> []" "hd p = 256"
  shows "\<exists>w. window w \<and> vmap s w \<noteq> None \<and> take (length p) (inner_path w) = p"
proof -
  have inv: "pt_inv s f" and c: "compact (ram (mach s)) f" using f by (simp_all add: vm_tree_def)
  note tree = pt_inv_tree [OF inv]
  obtain q j where q: "length q = 3" "j < 512" "take (length p) q = p" "leaf_at (ram (mach s)) f q j \<noteq> 0"
    using compact_leaf [OF tree c p] by blast
  obtain i0 i1 i2 where q3: "q = [i0, i1, i2]" using q(1) by (auto simp: numeral_3_eq_3 length_Suc_conv)
  have i0: "i0 = 256" using p(2,3) q(3) q3 by (cases p) auto
  have fq: "f ([256, i1] @ [i2]) \<noteq> None" using q(4) q3 i0 by (auto simp: leaf_at_def split: option.splits)
  then have "i2 < 512" "f ([256] @ [i1]) \<noteq> None"
    using tree_shape_parent [OF page_tree_shape [OF tree] fq] by auto
  then have "i1 < 512" using tree_shape_parent [OF page_tree_shape [OF tree], of "[256]" i1] by auto
  then obtain w where w: "inner_path w = q" "pt_index w 12 = j" "window w"
    using window_address [OF _ \<open>i2 < 512\<close> q(2), of i1] q3 i0 unfolding window_def by metis
  moreover have "leaf (ram (mach s)) f w \<noteq> 0" using w q(4) by (simp add: leaf_def)
  ultimately show ?thesis using vmap_None [OF inv window_vpage] q(3) by blast
qed

lemma window_paths:
  assumes f: "vm_tree s f" and run: "running s"
  shows "{p \<in> dom f. p \<noteq> [] \<and> hd p = 256} = paths {w. window w \<and> vmap s w \<noteq> None}"
proof (intro set_eqI iffI)
  have inv: "pt_inv s f" using f by (simp add: vm_tree_def)
  note tree = pt_inv_tree [OF inv]
  fix p
  {
    assume "p \<in> {p \<in> dom f. p \<noteq> [] \<and> hd p = 256}"
    then obtain t where p: "f p = Some t" "p \<noteq> []" "hd p = 256" by auto
    then obtain w where "window w" "vmap s w \<noteq> None" "take (length p) (inner_path w) = p"
      using path_under_window [OF f run] by blast
    moreover have "1 \<le> length p" "length p \<le> 3" using p(2) page_tree_length [OF tree p(1)] by (simp_all add: Suc_leI)
    ultimately show "p \<in> paths {w. window w \<and> vmap s w \<noteq> None}"
      unfolding paths_def by (intro UN_I [of w] image_eqI [of _ _ "length p"]) simp_all
  next
    assume "p \<in> paths {w. window w \<and> vmap s w \<noteq> None}"
    then obtain w j where w: "window w" "vmap s w \<noteq> None" "p = take j (inner_path w)" "1 \<le> j" "j \<le> 3"
      by (auto simp: paths_def)
    have "leaf (ram (mach s)) f w \<noteq> 0" using w vmap_None [OF inv window_vpage] by simp
    then obtain t where "f (inner_path w) = Some t" using leaf_table by blast
    then have "f p \<noteq> None" using path_prefix [OF tree, of 3 w t j] w by auto
    moreover have "p \<noteq> []" "hd p = pt_index w 39"
      using w(3,4) by (auto simp: inner_path_def take_Cons' split: if_splits)
    ultimately show "p \<in> {p \<in> dom f. p \<noteq> [] \<and> hd p = 256}"
      using dynamic_root_index [of w s] dynamic_window [OF run] w(1) by auto
  }
qed

lemma missing_paths:
  assumes f: "vm_tree s f" and run: "running s" and v: "window v"
    and M: "M = {w. window w \<and> vmap s w \<noteq> None}" "finite M"
  shows "card (paths M) + missing f v 0 = card (paths (insert v M))"
proof (rule missing_count [OF _ M(2)])
  fix j :: nat assume j: "0 < j"
  have hd: "hd (take j (inner_path v)) = 256" "take j (inner_path v) \<noteq> []"
    using j dynamic_root_index [of v s] dynamic_window [OF run] v
    by (auto simp: inner_path_def take_Cons' split: if_splits)
  have "paths M = {p \<in> dom f. p \<noteq> [] \<and> hd p = 256}" using window_paths [OF f run] M(1) by simp
  then show "take j (inner_path v) \<in> paths M \<longleftrightarrow> f (take j (inner_path v)) \<noteq> None"
    using hd by (simp only: mem_Collect_eq domIff) blast
qed


section \<open>A client of the window\<close>

definition frames :: "paging \<Rightarrow> u64 set" where
  "frames s = pmm_used (pm s) \<union> pmm_avail (pm s)"

text \<open>An empty window, and every managed frame mapped to itself for writing.\<close>

definition start :: "paging \<Rightarrow> table_tree \<Rightarrow> bool" where
  "start s0 f0 \<longleftrightarrow> vm_tree s0 f0 \<and> running s0 \<and> (\<forall>v. window v \<longrightarrow> vmap s0 v = None)
     \<and> (\<forall>a \<in> frames s0. \<exists>mp. vmap s0 a = Some mp \<and> frame_of mp = a \<and> writable mp)"

definition sits ::
  "paging \<Rightarrow> table_tree \<Rightarrow> (u64 \<rightharpoonup> mapping) \<Rightarrow> u64 set \<Rightarrow> (u64 \<Rightarrow> u64) \<Rightarrow> paging \<Rightarrow> bool" where
  "sits s0 f0 B D c s \<longleftrightarrow> running s \<and> cr0 (mach s) = cr0 (mach s0) \<and> paging_root s = paging_root s0
     \<and> same_io (mach s0) (mach s)
     \<and> (\<exists>f. vm_tree s f \<and> (\<forall>p. p = [] \<or> hd p \<noteq> 256 \<longrightarrow> f p = f0 p))
     \<and> dom B \<subseteq> Collect window \<and> vmap s = vmap s0 ++ B \<and> frames s = frames s0
     \<and> pmm_used (pm s) = D \<union> tables s \<and> D \<inter> tables s = {}
     \<and> (\<forall>a \<in> D. load64 (ram (mach s)) a = c a)
     \<and> agree {t. page_aligned t \<and> t \<notin> frames s0} (ram (mach s0)) (ram (mach s))"

lemma sits_mapped:
  assumes "start s0 f0" and "sits s0 f0 B D c s"
  shows "{w. window w \<and> vmap s w \<noteq> None} = dom B"
  using assms by (auto simp: start_def sits_def map_add_def split: option.splits)

lemma sits_tables:
  assumes start: "start s0 f0" and s: "sits s0 f0 B D c s" and fin: "finite (dom B)"
  shows "card (tables s) = card (tables s0) + card (paths (dom B))"
proof -
  obtain f where f: "vm_tree s f" and same: "\<forall>p. p = [] \<or> hd p \<noteq> 256 \<longrightarrow> f p = f0 p"
    using s by (auto simp: sits_def)
  have f0: "vm_tree s0 f0" and run: "running s" "running s0" using s start by (simp_all add: sits_def start_def)
  have tree: "page_tree (ram (mach s)) (paging_root s) (tables s) f"
    "page_tree (ram (mach s0)) (paging_root s0) (tables s0) f0"
    using f f0 by (simp_all add: vm_tree_def pt_inv_def)
  have none: "{p \<in> dom f0. p \<noteq> [] \<and> hd p = 256} = {}"
    using window_paths [OF f0 run(2)] start by (auto simp: start_def paths_def)
  have "dom f = {p \<in> dom f. p = [] \<or> hd p \<noteq> 256} \<union> {p \<in> dom f. p \<noteq> [] \<and> hd p = 256}" by auto
  also have "{p \<in> dom f. p = [] \<or> hd p \<noteq> 256} = dom f0"
  proof (intro set_eqI)
    fix p
    show "p \<in> {p \<in> dom f. p = [] \<or> hd p \<noteq> 256} \<longleftrightarrow> p \<in> dom f0"
      using spec [OF same, of p] none by (cases "p = [] \<or> hd p \<noteq> 256") (simp_all only: domIff mem_Collect_eq, blast+)
  qed
  also have "{p \<in> dom f. p \<noteq> [] \<and> hd p = 256} = paths (dom B)"
    using window_paths [OF f run(1)] sits_mapped [OF start s] by simp
  finally have dom: "dom f = dom f0 \<union> paths (dom B)" .
  have "dom f0 \<inter> paths (dom B) = {}"
    using none window_paths [OF f run(1)] sits_mapped [OF start s] by auto
  then show ?thesis
    using card_tree [OF tree(1)] card_tree [OF tree(2)] dom finite_paths [OF fin] by (simp add: card_Un_disjoint)
qed

lemma sits_avail:
  assumes start: "start s0 f0" and s: "sits s0 f0 B D c s"
  shows "card (pmm_avail (pm s)) + card D + card (tables s) = card (frames s0)"
    and "pmm_inv (pm s)" and "D \<subseteq> frames s0" and "unat (pmm_available (pm s)) = card (pmm_avail (pm s))"
proof -
  show inv: "pmm_inv (pm s)" using s by (auto simp: sits_def vm_tree_def pt_inv_def tab_inv_def)
  have "frames s0 = (D \<union> tables s) \<union> pmm_avail (pm s)" "D \<inter> tables s = {}" using s by (auto simp: sits_def frames_def)
  moreover have "(D \<union> tables s) \<inter> pmm_avail (pm s) = {}"
    using pmm_fa.disjoint [OF inv] s by (auto simp: sits_def)
  ultimately show "card (pmm_avail (pm s)) + card D + card (tables s) = card (frames s0)"
    by (simp add: card_Un_disjoint)
  show "D \<subseteq> frames s0" using s by (auto simp: sits_def frames_def)
  show "unat (pmm_available (pm s)) = card (pmm_avail (pm s))" using inv by (simp add: card_pmm_avail)
qed

text \<open>Room for the tables that one more mapped page needs.\<close>

definition room :: "paging \<Rightarrow> u64 set \<Rightarrow> u64 set \<Rightarrow> bool" where
  "room s0 M D \<longleftrightarrow> card (tables s0) + card (paths M) \<le> 4096
     \<and> card D + card (tables s0) + card (paths M) \<le> card (frames s0)"

lemma sits_room:
  assumes start: "start s0 f0" and s: "sits s0 f0 B D c s" and fin: "finite (dom B)"
    and f: "vm_tree s f" and v: "window v"
  shows "missing f v 0 \<le> budget s \<longleftrightarrow> room s0 (insert v (dom B)) D"
proof -
  have run: "running s" using s by (simp add: sits_def)
  have "card (paths (dom B)) + missing f v 0 = card (paths (insert v (dom B)))"
    using missing_paths [OF f run v] sits_mapped [OF start s] fin by simp
  moreover have "card (tables s) \<le> 4096"
    using f card_tables [of s] by (simp add: vm_tree_def pt_inv_def tab_inv_def)
  ultimately show ?thesis
    using sits_tables [OF start s fin] sits_avail(1) [OF start s] by (auto simp: room_def budget_def)
qed


section \<open>Only tables and free pages are written\<close>

lemma leaf_write_kept:
  assumes "pt_inv s f" and "f p = Some t"
  shows "kept s (invalidate a (wr t (pt_index v 12) e s))"
proof -
  have "kept s (wr t (pt_index v 12) e s)"
    using page_tree_addr [OF pt_inv_tree [OF assms(1)] assms(2)] by (intro kept_wr) auto
  then show ?thesis by (rule kept_trans) simp
qed

lemma paging_map_kept:
  assumes inv: "pt_inv s f"
  shows "kept s (snd (paging_map v p fl s))"
proof -
  note eq = paging_map_eq [OF pt_inv_tab [OF inv], of v p fl]
  obtain r s1 where r: "map_tables v 39 (paging_root s) [] s = (r, s1)"
    by (cases "map_tables v 39 (paging_root s) [] s")
  have loop: "case (r, s1) of (Some u, s') \<Rightarrow> tables_made v (missing f v 0) s f u s'
      | (None, s') \<Rightarrow> budget s < missing f v 0 \<and> (\<exists>f'. shrunk s f {} s' f')"
    using map_tables_ok [OF inv, of "[]" 0 v "paging_root s"] page_tree_root [OF pt_inv_tree [OF inv]] r
    by (auto split: option.splits)
  show ?thesis
  proof (cases r)
    case None
    then have "kept s s1" using loop by (auto simp: shrunk_def)
    then show ?thesis unfolding eq using r None by simp
  next
    case (Some u)
    then obtain f' where f': "grown s f s1 f'" "f' (inner_path v) = Some u"
      using loop by (auto simp: tables_made_def)
    then have "pt_inv s1 f'" and k: "kept s s1" by (simp_all add: grown_def)
    note k2 = kept_trans [OF k leaf_write_kept [OF this(1) f'(2), of v v "p OR leaf_flags fl"]]
    show ?thesis unfolding eq using r Some k k2 by simp
  qed
qed

lemma paging_unmap_kept:
  assumes inv: "pt_inv s f"
  shows "kept s (snd (paging_unmap v s))"
proof (cases "dynamic_address v s \<and> leaf (ram (mach s)) f v \<noteq> 0")
  case False
  then show ?thesis using paging_unmap_fails [OF inv False] by simp
next
  case True
  note tree = pt_inv_tree [OF inv]
  obtain t where t: "f (inner_path v) = Some t" using leaf_table True by blast
  let ?ts = "map (path_table f v) [0..<4]" and ?is = "inner_path v @ [pt_index v 12]"
  let ?s1 = "invalidate v (wr t (pt_index v 12) 0 s)"
  have run: "paging_unmap v s = (True, prune v ?ts ?is 3 ?s1)"
    using True path_ok [OF inv, of v] leaf_present [OF tree] path_last [OF inv t]
    by (simp add: paging_unmap_def)
  have inv1: "pt_inv ?s1 f"
    using inv page_tree_set_leaf [OF tree t, of "pt_index v 12" 0] by (simp add: pt_inv_def)
  have "f (take 3 (inner_path v)) \<noteq> None" using t by simp
  moreover have "\<forall>j \<le> 3. ?ts ! j = path_table f v j" by simp
  moreover have "\<forall>j < 3. ?is ! j = inner_path v ! j" by (simp add: nth_append)
  ultimately obtain f' D n where "shrunk ?s1 f D (prune v ?ts ?is 3 ?s1) f'"
    using prune_ok [OF inv1, of 3 v ?ts ?is] by blast
  then have "kept ?s1 (prune v ?ts ?is 3 ?s1)" by (simp add: shrunk_def)
  from kept_trans [OF leaf_write_kept [OF inv t] this] show ?thesis using run by simp
qed

lemma paging_protect_kept:
  assumes inv: "pt_inv s f"
  shows "kept s (snd (paging_protect v fl s))"
proof (cases "dynamic_address v s \<and> valid_flags fl \<and> leaf (ram (mach s)) f v \<noteq> 0")
  case False
  then show ?thesis using paging_protect_fails [OF inv False] by simp
next
  case True
  obtain t where t: "f (inner_path v) = Some t"
    and leaf: "leaf (ram (mach s)) f v = get_entry (ram (mach s)) t (pt_index v 12)"
    using leaf_table True by blast
  have "\<exists>e. paging_protect v fl s = (True, invalidate v (wr t (pt_index v 12) e s))"
    using True path_ok [OF inv, of v] leaf_present [OF pt_inv_tree [OF inv], of v] path_last [OF inv t] leaf
    by (simp add: paging_protect_def valid_flags_def) (rule exI, rule refl)
  then show ?thesis using leaf_write_kept [OF inv t] by auto
qed


section \<open>One rule per operation\<close>

definition passes :: "(paging \<Rightarrow> bool) \<Rightarrow> check \<Rightarrow> (paging \<Rightarrow> bool) \<Rightarrow> bool" where
  "passes P x Q \<longleftrightarrow> (\<forall>s. P s \<longrightarrow> (\<exists>s'. x s = Some (True, s') \<and> Q s'))"

lemma passes_Nil: "passes P (all_of []) P"
  by (simp add: passes_def)

lemma passes_Cons: "passes P x Q \<Longrightarrow> passes Q (all_of xs) R \<Longrightarrow> passes P (all_of (x # xs)) R"
  unfolding passes_def by fastforce

lemma sits_op:
  assumes start: "start s0 f0" and s: "sits s0 f0 B D c s"
    and f': "vm_tree s' f'" "\<forall>p. p = [] \<or> hd p \<noteq> 256 \<longrightarrow> f' p = f0 p"
    and ctl: "same_ctl s s'" and kept: "kept s s'"
    and B': "dom B' \<subseteq> Collect window" "vmap s' = vmap s0 ++ B'"
    and T: "frames s' = frames s" "pmm_used (pm s') = (pmm_used (pm s) - tables s) \<union> tables s'"
  shows "sits s0 f0 B' D c s'"
proof -
  have "pmm_inv (pm s)" using sits_avail(2) [OF start s] .
  then have D: "D \<inter> (tables s \<union> pmm_avail (pm s)) = {}" "\<forall>a \<in> D. page_aligned a"
    using s pmm_fa.disjoint [of "pm s"] pmm_fa.frames [of "pm s"] by (auto simp: sits_def frame_addr_def)
  have "load64 (ram (mach s')) a = load64 (ram (mach s)) a" if "a \<in> D" for a
  proof -
    have "get_entry (ram (mach s')) a 0 = get_entry (ram (mach s)) a 0"
      using kept D that by (auto simp: kept_def agree_def)
    then show ?thesis by (simp add: get_entry_def)
  qed
  moreover have "tables s \<union> pmm_avail (pm s) \<subseteq> frames s0" using s by (auto simp: sits_def frames_def)
  then have "agree {t. page_aligned t \<and> t \<notin> frames s0} (ram (mach s)) (ram (mach s'))"
    using kept by (auto simp: kept_def agree_def)
  then have "agree {t. page_aligned t \<and> t \<notin> frames s0} (ram (mach s0)) (ram (mach s'))"
    using s agree_trans unfolding sits_def by blast
  moreover have "D \<inter> tables s' = {}" using kept D by (auto simp: kept_def)
  moreover have "pmm_used (pm s') = D \<union> tables s'" using T(2) s by (auto simp: sits_def)
  moreover have "running s'" using ctl s by (simp add: running_def same_ctl_def sits_def)
  moreover have "same_io (mach s0) (mach s)" using s by (simp add: sits_def)
  from same_io_trans [OF this same_ctl_io [OF ctl]] have "same_io (mach s0) (mach s')" .
  ultimately show ?thesis using s f' ctl B' T by (auto simp: sits_def same_ctl_def)
qed


lemma sits_window:
  assumes "start s0 f0" and "sits s0 f0 B D c s" and "window v"
  shows "vmap s v = B v"
  using assms by (auto simp: sits_def start_def map_add_def split: option.splits)

lemma sits_possible:
  assumes start: "start s0 f0" and s: "sits s0 f0 B D c s" and fin: "finite (dom B)" and f: "vm_tree s f"
  shows "map_possible v p fl s f \<longleftrightarrow> window v \<and> valid_flags fl \<and> p \<in> D \<and> B v = None
    \<and> room s0 (insert v (dom B)) D"
proof (cases "window v")
  case True
  have inv: "pt_inv s f" using f by (simp add: vm_tree_def)
  have run: "running s" using s by (simp add: sits_def)
  have "leaf (ram (mach s)) f v = 0 \<longleftrightarrow> B v = None"
    using vmap_None [OF inv window_vpage [OF True]] sits_window [OF start s True] by simp
  moreover have "p \<in> pmm_used (pm s) \<and> p \<notin> tables s \<longleftrightarrow> p \<in> D" using s by (auto simp: sits_def)
  ultimately show ?thesis
    using True dynamic_window [OF run] sits_room [OF start s fin f True] by (auto simp: map_possible_def map_guard_def)
next
  case False
  then show ?thesis using dynamic_window [of s v] s by (auto simp: sits_def map_possible_def map_guard_def)
qed

lemma sits_tree:
  assumes "sits s0 f0 B D c s"
  obtains f where "vm_tree s f" "\<forall>p. p = [] \<or> hd p \<noteq> 256 \<longrightarrow> f p = f0 p" "pt_inv s f" "pmm_inv (pm s)" "running s"
  using assms by (auto simp: sits_def vm_tree_def pt_inv_def tab_inv_def)

lemma map_passes:
  assumes start: "start s0 f0" and fin: "finite (dom B)" and v: "window v" "B v = None" "valid_flags fl" "p \<in> D"
    and room: "room s0 (insert v (dom B)) D"
  shows "passes (sits s0 f0 B D c) (succeeds (paging_map v p fl)) (sits s0 f0 (B(v \<mapsto> make_mapping p fl)) D c)"
  unfolding passes_def
proof (intro allI impI)
  fix s assume s: "sits s0 f0 B D c s"
  obtain f where f: "vm_tree s f" "\<forall>p. p = [] \<or> hd p \<noteq> 256 \<longrightarrow> f p = f0 p" "pt_inv s f" "pmm_inv (pm s)" "running s"
    by (rule sits_tree [OF s])
  have poss: "map_possible v p fl s f" using sits_possible [OF start s fin f(1)] v room by simp
  obtain s' f' where s': "paging_map v p fl s = (True, s')" "vm_tree s' f'" "same_ctl s s'"
    "vmap s' = apply_op (Map v p fl) (vmap s)" "f \<subseteq>\<^sub>m f'"
    "\<forall>q. f q = None \<longrightarrow> f' q \<noteq> None \<longrightarrow> on_path v q" "tables s \<subseteq> tables s'"
    "tables s' - tables s \<subseteq> pmm_avail (pm s)"
    "pmm_used (pm s') = pmm_used (pm s) \<union> (tables s' - tables s)"
    "pmm_avail (pm s') = pmm_avail (pm s) - (tables s' - tables s)"
    using vm_map_ok [OF f(1) poss] by (elim exE conjE)
  have "sits s0 f0 (B(v \<mapsto> make_mapping p fl)) D c s'"
  proof (rule sits_op [OF start s s'(2) _ s'(3)])
    show "\<forall>p. p = [] \<or> hd p \<noteq> 256 \<longrightarrow> f' p = f0 p"
    proof (intro allI impI)
      fix q :: page_path assume q: "q = [] \<or> hd q \<noteq> 256"
      have "f' q = f q"
      proof (cases "f q")
        case None
        then have "f' q \<noteq> None \<Longrightarrow> q = []"
          using s'(6) q on_path_hd [of v q s] dynamic_window [OF f(5)] v(1) by blast
        then show ?thesis using None page_tree_root [OF pt_inv_tree [OF f(3)]] by (cases "f' q") auto
      next
        case (Some t)
        then show ?thesis using s'(5) by (metis domI map_le_def)
      qed
      then show "f' q = f0 q" using f(2) q by simp
    qed
    show "kept s s'" using paging_map_kept [OF f(3), of v p fl] s'(1) by simp
    show "dom (B(v \<mapsto> make_mapping p fl)) \<subseteq> Collect window" using s v by (auto simp: sits_def)
    show "vmap s' = vmap s0 ++ B(v \<mapsto> make_mapping p fl)" using s s'(4) by (simp add: sits_def)
    show "frames s' = frames s" using s'(8-10) by (auto simp: frames_def)
    show "pmm_used (pm s') = pmm_used (pm s) - tables s \<union> tables s'"
      using s'(7,9) s by (auto simp: sits_def)
  qed
  then show "\<exists>s'. succeeds (paging_map v p fl) s = Some (True, s') \<and> sits s0 f0 (B(v \<mapsto> make_mapping p fl)) D c s'"
    using s'(1) by (auto simp: succeeds_def)
qed

lemma map_refused:
  assumes start: "start s0 f0" and fin: "finite (dom B)"
    and no: "\<not> (window v \<and> valid_flags fl \<and> p \<in> D \<and> B v = None \<and> room s0 (insert v (dom B)) D)"
  shows "passes (sits s0 f0 B D c) (refuses (paging_map v p fl)) (sits s0 f0 B D c)"
  unfolding passes_def
proof (intro allI impI)
  fix s assume s: "sits s0 f0 B D c s"
  obtain f where f: "vm_tree s f" "\<forall>p. p = [] \<or> hd p \<noteq> 256 \<longrightarrow> f p = f0 p" "pt_inv s f" "pmm_inv (pm s)" "running s"
    by (rule sits_tree [OF s])
  have no: "\<not> map_possible v p fl s f" using sits_possible [OF start s fin f(1)] no by blast
  obtain s' where s': "paging_map v p fl s = (False, s')" "vm_tree s' f" "same_ctl s s'" "vmap s' = vmap s"
    "tables s' = tables s" "pmm_used (pm s') = pmm_used (pm s)" "pmm_avail (pm s') = pmm_avail (pm s)"
    using vm_map_fail [OF f(1) no] by (elim exE conjE)
  have "sits s0 f0 B D c s'"
  proof (rule sits_op [OF start s s'(2) f(2) s'(3)])
    show "kept s s'" using paging_map_kept [OF f(3), of v p fl] s'(1) by simp
    show "dom B \<subseteq> Collect window" "vmap s' = vmap s0 ++ B" using s s'(4) by (simp_all add: sits_def)
    show "frames s' = frames s" using s' by (simp add: frames_def)
    show "pmm_used (pm s') = pmm_used (pm s) - tables s \<union> tables s'" using s' s by (auto simp: sits_def)
  qed
  then show "\<exists>s'. refuses (paging_map v p fl) s = Some (True, s') \<and> sits s0 f0 B D c s'"
    using s'(1) by (auto simp: refuses_def)
qed


lemma unmap_passes:
  assumes start: "start s0 f0" and v: "window v" "B v \<noteq> None"
  shows "passes (sits s0 f0 B D c) (succeeds (paging_unmap v)) (sits s0 f0 (B(v := None)) D c)"
  unfolding passes_def
proof (intro allI impI)
  fix s assume s: "sits s0 f0 B D c s"
  obtain f where f: "vm_tree s f" "\<forall>p. p = [] \<or> hd p \<noteq> 256 \<longrightarrow> f p = f0 p" "pt_inv s f" "pmm_inv (pm s)" "running s"
    by (rule sits_tree [OF s])
  have dyn: "dynamic_address v s" "vmap s v \<noteq> None"
    using dynamic_window [OF f(5)] sits_window [OF start s v(1)] v by simp_all
  obtain s' f' where s': "paging_unmap v s = (True, s')" "vm_tree s' f'" "same_ctl s s'"
    "vmap s' = apply_op (Unmap v) (vmap s)" "f' \<subseteq>\<^sub>m f"
    "\<forall>q. f q \<noteq> None \<longrightarrow> f' q = None \<longrightarrow> q \<noteq> [] \<and> on_path v q" "tables s' \<subseteq> tables s"
    "pmm_used (pm s') = pmm_used (pm s) - (tables s - tables s')"
    "pmm_avail (pm s') = pmm_avail (pm s) \<union> (tables s - tables s')"
    using vm_unmap_ok [OF f(1) dyn] by (elim exE conjE)
  have "sits s0 f0 (B(v := None)) D c s'"
  proof (rule sits_op [OF start s s'(2) _ s'(3)])
    show "\<forall>p. p = [] \<or> hd p \<noteq> 256 \<longrightarrow> f' p = f0 p"
    proof (intro allI impI)
      fix q :: page_path assume q: "q = [] \<or> hd q \<noteq> 256"
      have "f' q = f q"
      proof (cases "f' q")
        case None
        then have "f q = None" using s'(6) q on_path_hd [of v q s] dyn(1) by blast
        then show ?thesis using None by simp
      next
        case (Some t)
        then show ?thesis using s'(5) by (metis domI map_le_def)
      qed
      then show "f' q = f0 q" using f(2) q by simp
    qed
    show "kept s s'" using paging_unmap_kept [OF f(3), of v] s'(1) by simp
    show "dom (B(v := None)) \<subseteq> Collect window" using s by (auto simp: sits_def)
    have "vmap s0 v = None" using start v(1) by (simp add: start_def)
    then show "vmap s' = vmap s0 ++ B(v := None)" using s s'(4) by (auto simp: sits_def map_add_def fun_eq_iff)
    show "frames s' = frames s" using s'(7-9) s by (auto simp: frames_def sits_def)
    show "pmm_used (pm s') = pmm_used (pm s) - tables s \<union> tables s'"
      using s'(7,8) s by (auto simp: sits_def)
  qed
  then show "\<exists>s'. succeeds (paging_unmap v) s = Some (True, s') \<and> sits s0 f0 (B(v := None)) D c s'"
    using s'(1) by (auto simp: succeeds_def)
qed

lemma protect_passes:
  assumes start: "start s0 f0" and v: "window v" "B v = Some mp" "valid_flags fl"
  shows "passes (sits s0 f0 B D c) (succeeds (paging_protect v fl))
    (sits s0 f0 (B(v \<mapsto> make_mapping (frame_of mp) fl)) D c)"
  unfolding passes_def
proof (intro allI impI)
  fix s assume s: "sits s0 f0 B D c s"
  obtain f where f: "vm_tree s f" "\<forall>p. p = [] \<or> hd p \<noteq> 256 \<longrightarrow> f p = f0 p" "pt_inv s f" "pmm_inv (pm s)" "running s"
    by (rule sits_tree [OF s])
  have at: "vmap s v = Some mp" using sits_window [OF start s v(1)] v by simp
  then have dyn: "dynamic_address v s" "vmap s v \<noteq> None" using dynamic_window [OF f(5)] v(1) by simp_all
  obtain s' where s': "paging_protect v fl s = (True, s')" "vm_tree s' f" "same_ctl s s'"
    "vmap s' = apply_op (Protect v fl) (vmap s)" "tables s' = tables s" "pm s' = pm s"
    using vm_protect_ok [OF f(1) dyn(1) v(3) dyn(2)] by (elim exE conjE)
  have "sits s0 f0 (B(v \<mapsto> make_mapping (frame_of mp) fl)) D c s'"
  proof (rule sits_op [OF start s s'(2) f(2) s'(3)])
    show "kept s s'" using paging_protect_kept [OF f(3), of v fl] s'(1) by simp
    show "dom (B(v \<mapsto> make_mapping (frame_of mp) fl)) \<subseteq> Collect window" using s v by (auto simp: sits_def)
    show "vmap s' = vmap s0 ++ B(v \<mapsto> make_mapping (frame_of mp) fl)" using s s'(4) at by (simp add: sits_def)
    show "frames s' = frames s" using s' by (simp add: frames_def)
    show "pmm_used (pm s') = pmm_used (pm s) - tables s \<union> tables s'" using s' s by (auto simp: sits_def)
  qed
  then show "\<exists>s'. succeeds (paging_protect v fl) s = Some (True, s')
      \<and> sits s0 f0 (B(v \<mapsto> make_mapping (frame_of mp) fl)) D c s'"
    using s'(1) by (auto simp: succeeds_def)
qed

text \<open>Requests at a page that is not mapped.\<close>

lemma unmapped_refused:
  assumes start: "start s0 f0" and v: "window v" "B v = None"
  shows "passes (sits s0 f0 B D c) (refuses (paging_unmap v)) (sits s0 f0 B D c)"
    and "passes (sits s0 f0 B D c) (refuses (paging_protect v fl)) (sits s0 f0 B D c)"
    and "ok old \<Longrightarrow> passes (sits s0 f0 B D c) (query_fails v old ok) (sits s0 f0 B D c)"
proof -
  have "paging_unmap v s = (False, s) \<and> paging_protect v fl s = (False, s) \<and> paging_query v True True s = None"
    if s: "sits s0 f0 B D c s" for s
  proof -
    obtain f where f: "vm_tree s f" "pt_inv s f" by (rule sits_tree [OF s])
    have none: "vmap s v = None" using sits_window [OF start s v(1)] v(2) by simp
    moreover have "vm_inv s" using f(1) by (auto simp: vm_inv_def)
    ultimately show ?thesis using vm_unmap_fail [OF f(1)] vm_protect_fail [OF f(1)] vm.query_law [of s v] by auto
  qed
  then show "passes (sits s0 f0 B D c) (refuses (paging_unmap v)) (sits s0 f0 B D c)"
    "passes (sits s0 f0 B D c) (refuses (paging_protect v fl)) (sits s0 f0 B D c)"
    "ok old \<Longrightarrow> passes (sits s0 f0 B D c) (query_fails v old ok) (sits s0 f0 B D c)"
    by (simp_all add: passes_def refuses_def query_fails_def)
qed

lemma query_passes:
  assumes start: "start s0 f0" and v: "window v" "B v = Some mp" and ok: "ok (frame_of mp, flags_of mp)"
  shows "passes (sits s0 f0 B D c) (query_is v ok) (sits s0 f0 B D c)"
  unfolding passes_def
proof (intro allI impI)
  fix s assume s: "sits s0 f0 B D c s"
  obtain f where f: "vm_tree s f" "running s" by (rule sits_tree [OF s])
  have "vm_inv s" using f(1) by (auto simp: vm_inv_def)
  then have "paging_query v True True s = Some (frame_of mp, flags_of mp)"
    using vm.query_law [of s v] dynamic_window [OF f(2)] v sits_window [OF start s v(1)] by simp
  then show "\<exists>s'. query_is v ok s = Some (True, s') \<and> sits s0 f0 B D c s'"
    using s ok by (simp add: query_is_def)
qed


section \<open>Memory accesses\<close>

lemma page_start_aligned: "page_aligned a \<Longrightarrow> page_start a = a"
  unfolding page_start_def by (rule page_base)

lemma page_mapping_vmap:
  assumes f: "vm_tree s f" and run: "running s" and a: "canonical a" "vpage (page_start a)"
  shows "page_mapping (mach s) a = vmap s (page_start a)"
proof -
  have "translate (ram (mach s)) (paging_root s) w = decode (pte (ram (mach s)) (paging_root s) w)" for w
    using translate_pte [of "ram (mach s)" "paging_root s" "tables s" f w] f by (simp add: vm_tree_def pt_inv_def)
  moreover have "tlb (mach s) (page_start a) = Some e \<Longrightarrow> e = pte (ram (mach s)) (paging_root s) (page_start a)" for e
    using f by (auto simp: vm_tree_def tlb_ok_def)
  ultimately show ?thesis
    using a run by (auto simp: page_mapping_def vmap_def running_def split: option.splits)
qed

lemma access_eq:
  assumes f: "vm_tree s f" and run: "running s" and a: "vpage a"
  shows "access allowed a s = (case vmap s a of None \<Rightarrow> None
    | Some mp \<Rightarrow> if allowed mp then Some (frame_of mp, s\<lparr>mach := warm a (mach s)\<rparr>) else None)"
proof -
  have "page_start a = a" "a AND 4095 = 0" using a page_start_aligned [of a] by (simp_all add: vpage_def and_4095_iff)
  then show ?thesis using page_mapping_vmap [OF f run, of a] a by (simp add: access_def vpage_def split: option.split)
qed

lemma sits_warm:
  assumes s: "sits s0 f0 B D c s" and a: "vpage a"
  shows "sits s0 f0 B D c (s\<lparr>mach := warm a (mach s)\<rparr>)"
proof -
  obtain f where f: "vm_tree s f" "\<forall>p. p = [] \<or> hd p \<noteq> 256 \<longrightarrow> f p = f0 p" "running s" by (rule sits_tree [OF s])
  let ?s = "s\<lparr>mach := warm a (mach s)\<rparr>"
  have same: "ram (mach ?s) = ram (mach s)" "cr3 (mach ?s) = cr3 (mach s)" "cr0 (mach ?s) = cr0 (mach s)"
    "rflags (mach ?s) = rflags (mach s)" "paging_root ?s = paging_root s" "pm ?s = pm s" "active ?s = active s"
    "same_io (mach s0) (mach ?s) = same_io (mach s0) (mach s)"
    by (simp_all add: warm_def same_io_def)
  have "page_start a = a" using a page_start_aligned [of a] by (simp add: vpage_def)
  then have "tlb_ok ?s"
    using f(1,3) a by (auto simp: vm_tree_def tlb_ok_def warm_def running_def split: if_splits option.splits)
  then have "vm_tree ?s f" using f(1) same by (simp add: vm_tree_def pt_inv_def)
  moreover have "vmap ?s w = vmap s w" for w unfolding vmap_def using same by simp
  then have "vmap ?s = vmap s" by blast
  moreover have "frames ?s = frames s" "running ?s = running s" using same by (simp_all add: frames_def running_def)
  ultimately show ?thesis using s f(2) same by (auto simp: sits_def)
qed

text \<open>Writing outside the tables, and moving frames that are no tables.\<close>

lemma vm_tree_agree:
  assumes f: "vm_tree s f" and agree: "agree (tables s) (ram (mach s)) m" and pm': "pmm_inv p" "tables s \<subseteq> pmm_used p"
    and s'_def: "s' = s\<lparr>mach := (mach s)\<lparr>ram := m\<rparr>, pm := p\<rparr>"
  shows "vm_tree s' f" and "vmap s' = vmap s"
proof -
  have inv: "pt_inv s f" using f by (simp add: vm_tree_def)
  note tree = pt_inv_tree [OF inv]
  have ram: "ram (mach s') = m" by (simp add: s'_def)
  note same = leaf_agree [OF tree agree]
  have "tab_inv s'" using pt_inv_tab [OF inv] pm' by (simp add: tab_inv_def s'_def table_list_def)
  then have inv': "pt_inv s' f" using page_tree_agree [OF tree agree] by (simp add: pt_inv_def s'_def)
  have "compact m f"
    using f same page_tree_length [OF tree] unfolding vm_tree_def compact_def same_leaves_def
    by (metis (no_types, lifting) le_neq_implies_less)
  moreover have "tlb_ok s'"
    using f same by (intro tlb_ok_same_leaves [OF inv inv']) (simp_all add: vm_tree_def s'_def)
  ultimately show "vm_tree s' f" using inv' by (simp add: vm_tree_def ram)
  show "vmap s' = vmap s" using same by (intro vmap_same_leaves [OF inv inv']) (simp add: ram)
qed

lemma vm_tree_store:
  assumes f: "vm_tree s f" and b: "page_aligned b" "b \<notin> tables s"
  shows "vm_tree (s\<lparr>mach := (mach s)\<lparr>ram := store64 b x (ram (mach s))\<rparr>\<rparr>) f"
    and "vmap (s\<lparr>mach := (mach s)\<lparr>ram := store64 b x (ram (mach s))\<rparr>\<rparr>) = vmap s"
proof -
  have tab: "tab_inv s" using f by (simp add: vm_tree_def pt_inv_def)
  have "agree (tables s) (ram (mach s)) (set_entry b 0 x (ram (mach s)))"
    using b tab_inv_addr [OF tab] by (auto simp: agree_def pw.get_put)
  then have "agree (tables s) (ram (mach s)) (store64 b x (ram (mach s)))" by (simp add: set_entry_def)
  moreover have "pmm_inv (pm s)" "tables s \<subseteq> pmm_used (pm s)" using tab by (simp_all add: tab_inv_def)
  moreover have "s\<lparr>mach := (mach s)\<lparr>ram := store64 b x (ram (mach s))\<rparr>\<rparr>
      = s\<lparr>mach := (mach s)\<lparr>ram := store64 b x (ram (mach s))\<rparr>, pm := pm s\<rparr>" by simp
  ultimately show "vm_tree (s\<lparr>mach := (mach s)\<lparr>ram := store64 b x (ram (mach s))\<rparr>\<rparr>) f"
    and "vmap (s\<lparr>mach := (mach s)\<lparr>ram := store64 b x (ram (mach s))\<rparr>\<rparr>) = vmap s"
    using f by (blast intro: vm_tree_agree)+
qed

lemma sits_store:
  assumes start: "start s0 f0" and s: "sits s0 f0 B D c s" and b: "b \<in> D"
  shows "sits s0 f0 B D (c(b := x)) (s\<lparr>mach := (mach s)\<lparr>ram := store64 b x (ram (mach s))\<rparr>\<rparr>)"
proof -
  obtain f where f: "vm_tree s f" "\<forall>p. p = [] \<or> hd p \<noteq> 256 \<longrightarrow> f p = f0 p" "pmm_inv (pm s)" by (rule sits_tree [OF s])
  have al: "page_aligned a" "a \<notin> tables s" if "a \<in> D" for a
    using that s pmm_fa.frames [OF f(3), of a] by (auto simp: sits_def frame_addr_def)
  let ?s = "s\<lparr>mach := (mach s)\<lparr>ram := store64 b x (ram (mach s))\<rparr>\<rparr>"
  have "load64 (ram (mach ?s)) a = (c(b := x)) a" if "a \<in> D" for a
  proof -
    have "get_entry (set_entry b 0 x (ram (mach s))) a 0 = (if b = a then x else get_entry (ram (mach s)) a 0)"
      using al [OF b] al [OF that] by (simp add: pw.get_put)
    then show ?thesis using that s by (auto simp: sits_def get_entry_def set_entry_def)
  qed
  moreover note vm_tree_store [OF f(1) al [OF b], of x]
  moreover have "b \<in> frames s0" using sits_avail(3) [OF start s] b by blast
  then have "agree {t. page_aligned t \<and> t \<notin> frames s0} (ram (mach s)) (set_entry b 0 x (ram (mach s)))"
    using al [OF b] by (auto simp: agree_def pw.get_put)
  then have "agree {t. page_aligned t \<and> t \<notin> frames s0} (ram (mach s0)) (ram (mach ?s))"
    using s by (auto simp: sits_def agree_def set_entry_def)
  moreover have "frames ?s = frames s" "running ?s = running s" by (simp_all add: frames_def running_def)
  moreover have "same_io (mach s0) (mach ?s) = same_io (mach s0) (mach s)" by (simp add: same_io_def)
  ultimately show ?thesis using s f(2) by (auto simp: sits_def)
qed


text \<open>\<open>sees s0 B a b\<close>: the address \<open>a\<close> is the frame \<open>b\<close>, through the window or the identity map.\<close>

definition sees :: "paging \<Rightarrow> (u64 \<rightharpoonup> mapping) \<Rightarrow> u64 \<Rightarrow> u64 \<Rightarrow> bool" where
  "sees s0 B a b \<longleftrightarrow> window a \<and> map_option frame_of (B a) = Some b \<or> a = b \<and> b \<in> frames s0"

definition may_store :: "paging \<Rightarrow> (u64 \<rightharpoonup> mapping) \<Rightarrow> u64 \<Rightarrow> bool" where
  "may_store s0 B a \<longleftrightarrow> (window a \<longrightarrow> map_option writable (B a) = Some True)"

lemma frame_not_window: "frame_addr a \<Longrightarrow> \<not> window a"
  by (auto simp: frame_addr_def window_def word_le_nat_alt word_less_nat_alt)

lemma sits_sees:
  assumes start: "start s0 f0" and s: "sits s0 f0 B D c s" and see: "sees s0 B a b"
  obtains mp where "vmap s a = Some mp" "frame_of mp = b" "vpage a" "may_store s0 B a \<Longrightarrow> writable mp"
proof (cases "window a")
  case True
  have "pmm_inv (pm s)" by (rule sits_tree [OF s])
  moreover have "frames s = frames s0" using s by (simp add: sits_def)
  ultimately have "a \<notin> frames s0" using True frame_not_window pmm_fa.frames [of "pm s" a] by (auto simp: frames_def)
  then obtain mp where "B a = Some mp" "frame_of mp = b" using see True by (auto simp: sees_def)
  then show ?thesis using that True sits_window [OF start s True] window_vpage by (auto simp: may_store_def)
next
  case False
  then have ab: "a = b" "b \<in> frames s0" using see by (auto simp: sees_def)
  obtain mp where mp: "vmap s0 a = Some mp" "frame_of mp = a" "writable mp" using start ab by (auto simp: start_def)
  have "B a = None" using s False by (auto simp: sits_def)
  then have "vmap s a = Some mp" using s mp by (simp add: sits_def map_add_def)
  moreover have "vpage a" using mp by (auto simp: vmap_def split: if_splits)
  ultimately show ?thesis using that mp ab by blast
qed

lemma sits_load:
  assumes start: "start s0 f0" and s: "sits s0 f0 B D c s" and see: "sees s0 B a b" and b: "b \<in> D"
  shows "\<exists>s'. load_at a s = Some (c b, s') \<and> sits s0 f0 B D c s'"
proof -
  obtain mp where mp: "vmap s a = Some mp" "frame_of mp = b" "vpage a" by (rule sits_sees [OF start s see])
  obtain f where f: "vm_tree s f" "running s" by (rule sits_tree [OF s])
  note w = sits_warm [OF s mp(3)]
  have "load64 (ram (mach (s\<lparr>mach := warm a (mach s)\<rparr>))) b = c b" using w b by (auto simp: sits_def)
  then show ?thesis using w access_eq [OF f mp(3)] mp by (simp add: load_at_def)
qed

lemma sits_stores:
  assumes start: "start s0 f0" and s: "sits s0 f0 B D c s" and see: "sees s0 B a b" "may_store s0 B a" and b: "b \<in> D"
  shows "\<exists>s'. store_at a x s = Some s' \<and> sits s0 f0 B D (c(b := x)) s'"
proof -
  obtain mp where mp: "vmap s a = Some mp" "frame_of mp = b" "vpage a" "writable mp"
    using sits_sees [OF start s see(1)] see(2) by metis
  obtain f where f: "vm_tree s f" "running s" by (rule sits_tree [OF s])
  note w = sits_store [OF start sits_warm [OF s mp(3)] b, of x]
  then show ?thesis using access_eq [OF f mp(3)] mp by (simp add: store_at_def may_write_def)
qed

lemma stores_passes:
  assumes "start s0 f0" and "sees s0 B a b" "may_store s0 B a" "b \<in> D"
  shows "passes (sits s0 f0 B D c) (stores a x) (sits s0 f0 B D (c(b := x)))"
  using sits_stores [OF assms(1) _ assms(2-4)] by (fastforce simp: passes_def stores_def)

lemma word_passes:
  assumes "start s0 f0" and "sees s0 B a b" "b \<in> D" "c b = x"
  shows "passes (sits s0 f0 B D c) (word_is a x) (sits s0 f0 B D c)"
  using sits_load [OF assms(1) _ assms(2,3)] assms(4) by (fastforce simp: passes_def word_is_def)

lemma same_words_passes:
  assumes "start s0 f0" and "sees s0 B a p" "sees s0 B b p" "p \<in> D"
  shows "passes (sits s0 f0 B D c) (same_words a b) (sits s0 f0 B D c)"
  unfolding passes_def
proof (intro allI impI)
  fix s assume s: "sits s0 f0 B D c s"
  obtain s1 where s1: "load_at a s = Some (c p, s1)" "sits s0 f0 B D c s1"
    using sits_load [OF assms(1) s assms(2,4)] by blast
  obtain s2 where "load_at b s1 = Some (c p, s2)" "sits s0 f0 B D c s2"
    using sits_load [OF assms(1) s1(2) assms(3,4)] by blast
  then show "\<exists>s'. same_words a b s = Some (True, s') \<and> sits s0 f0 B D c s'" using s1 by (simp add: same_words_def)
qed


section \<open>Frames\<close>

lemma sits_pm:
  assumes s: "sits s0 f0 B D c s" and inv: "pmm_inv p"
    and D': "pmm_used p = D' \<union> tables s" "D' \<inter> tables s = {}" "pmm_used p \<union> pmm_avail p = frames s"
    and c': "\<forall>a \<in> D'. load64 (ram (mach s)) a = c' a"
  shows "sits s0 f0 B D' c' (s\<lparr>pm := p\<rparr>)"
proof -
  obtain f where f: "vm_tree s f" "\<forall>p. p = [] \<or> hd p \<noteq> 256 \<longrightarrow> f p = f0 p" by (rule sits_tree [OF s])
  have "vm_tree (s\<lparr>pm := p\<rparr>) f"
    using f(1) inv D'(1) by (auto simp: vm_tree_def pt_inv_def tab_inv_def tlb_ok_def)
  moreover have "vmap (s\<lparr>pm := p\<rparr>) w = vmap s w" for w by (simp add: vmap_def)
  then have "vmap (s\<lparr>pm := p\<rparr>) = vmap s" by blast
  moreover have "frames (s\<lparr>pm := p\<rparr>) = frames s" "running (s\<lparr>pm := p\<rparr>) = running s"
    using D'(3) by (simp_all add: frames_def running_def)
  ultimately show ?thesis using s f(2) D' c' by (auto simp: sits_def)
qed

lemma sits_alloc:
  assumes start: "start s0 f0" and s: "sits s0 f0 B D c s" and av: "pmm_avail (pm s) \<noteq> {}"
  obtains p s' where "alloc_page s = (Some p, s')" "p \<in> pmm_avail (pm s)" "p \<notin> D" "p \<in> frames s0" "p \<noteq> 0" "mach s' = mach s"
    "sits s0 f0 B (insert p D) (c(p := load64 (ram (mach s)) p)) s'" "pmm_avail (pm s') = pmm_avail (pm s) - {p}"
proof -
  have inv: "pmm_inv (pm s)" by (rule sits_tree [OF s])
  obtain p q where p: "pmm_alloc True (pm s) = (Some p, q)" using pmm_fa.alloc_succeeds [OF inv av] by blast
  note al = pmm_fa.alloc_Some [OF inv p] and fr = pmm_fa.alloc_fresh [OF inv p]
  have "p \<noteq> 0" using fr by (auto simp: frame_addr_def word_le_nat_alt)
  have new: "p \<notin> D" "p \<notin> tables s" "p \<in> frames s0" using s fr al by (auto simp: sits_def frames_def)
  have "sits s0 f0 B (insert p D) (c(p := load64 (ram (mach s)) p)) (s\<lparr>pm := q\<rparr>)"
    using s al new by (intro sits_pm [OF s]) (auto simp: sits_def frames_def)
  then show ?thesis using that [of p "s\<lparr>pm := q\<rparr>"] p new \<open>p \<noteq> 0\<close> al by (simp add: alloc_page_def)
qed

lemma free_passes:
  assumes start: "start s0 f0" and p: "p \<in> D"
  shows "passes (sits s0 f0 B D c) (succeeds (free_page p)) (sits s0 f0 B (D - {p}) c)"
  unfolding passes_def
proof (intro allI impI)
  fix s assume s: "sits s0 f0 B D c s"
  have inv: "pmm_inv (pm s)" by (rule sits_tree [OF s])
  have "p \<in> pmm_used (pm s)" using s p by (auto simp: sits_def)
  then obtain q where q: "pmm_free p (pm s) = (True, q)" "pmm_used q = pmm_used (pm s) - {p}"
    "pmm_avail q = insert p (pmm_avail (pm s))" "pmm_inv q" using pmm_fa.free_ok [OF inv] by blast
  have "sits s0 f0 B (D - {p}) c (s\<lparr>pm := q\<rparr>)"
    using s q p by (intro sits_pm [OF s]) (auto simp: sits_def frames_def)
  then show "\<exists>s'. succeeds (free_page p) s = Some (True, s') \<and> sits s0 f0 B (D - {p}) c s'"
    using q(1) by (simp add: succeeds_def free_page_def)
qed

lemma available_passes:
  assumes start: "start s0 f0" and fin: "finite (dom B)"
    and n: "unat n + card D + card (tables s0) + card (paths (dom B)) = card (frames s0)"
  shows "passes (sits s0 f0 B D c) (\<lambda>s. Some (pmm_available (pm s) = n, s)) (sits s0 f0 B D c)"
proof -
  have "pmm_available (pm s) = n" if s: "sits s0 f0 B D c s" for s
    using sits_avail(1,4) [OF start s] sits_tables [OF start s fin] n by (simp add: word_unat_eq_iff)
  then show ?thesis by (simp add: passes_def)
qed


section \<open>The boot information outside the managed frames\<close>

lemma page_offset: "page_start a + take_bit 12 a = a"
proof -
  have b: "bit (page_start a) k \<longleftrightarrow> bit a k \<and> 12 \<le> k" for k unfolding page_start_def by (rule base_bit)
  have and0: "page_start a AND take_bit 12 a = 0"
    by (intro bit_word_eqI) (auto simp: b bit_and_iff bit_take_bit_iff)
  have "page_start a OR take_bit 12 a = a"
    by (intro bit_word_eqI) (auto simp: b bit_or_iff bit_take_bit_iff not_less)
  then show ?thesis using disjunctive_add_eq_or [OF and0] by simp
qed

lemma word_entry:
  assumes "aligned8 a"
  shows "\<exists>i < 512. a = page_start a + 8 * i"
proof -
  have x: "unat (take_bit 12 a) = unat a mod 4096" by (simp add: take_bit_eq_mod unat_mod)
  define n where "n = unat a mod 4096 div 8"
  have n: "n < 512" by (simp add: n_def less_mult_imp_div_less)
  have "8 dvd unat a mod 4096" using assms by (simp add: aligned8_def dvd_mod)
  then have "unat (take_bit 12 a) = 8 * n" using x by (simp add: n_def)
  moreover have "of_nat (unat (take_bit 12 a)) = take_bit 12 a" by simp
  ultimately have "take_bit 12 a = of_nat (8 * n)" by simp
  then have "a = page_start a + 8 * of_nat n" using page_offset [of a] by simp
  moreover have "(of_nat n :: u64) < 512" using n by (simp add: word_less_nat_alt unat_of_nat64)
  ultimately show ?thesis by blast
qed

lemma sits_outer_word:
  assumes s: "sits s0 f0 B D c s" and a: "aligned8 a" "page_start a \<notin> frames s0"
  shows "load64 (ram (mach s)) a = load64 (ram (mach s0)) a"
proof -
  obtain i where i: "i < 512" "a = page_start a + 8 * i" using word_entry [OF a(1)] by blast
  have "page_aligned (page_start a)" unfolding page_start_def by (rule base_aligned)
  then have "get_entry (ram (mach s)) (page_start a) i = get_entry (ram (mach s0)) (page_start a) i"
    using s i(1) a(2) by (auto simp: sits_def agree_def)
  then show ?thesis using i(2) by (simp add: get_entry_def)
qed

lemma load64_byte:
  assumes "load64 m a = load64 m' a" and "i < 8"
  shows "m (a + of_nat i) = m' (a + of_nat i)"
proof (rule bit_word_eqI)
  fix k assume "k < LENGTH(8)"
  then have k: "k < 8" by simp
  have "bit (load64 m a) (8 * i + k) = bit (load64 m' a) (8 * i + k)" using assms(1) by simp
  then show "bit (m (a + of_nat i)) k = bit (m' (a + of_nat i)) k"
    using k assms(2) by (simp add: load64_def bit_load_le)
qed

lemma page_of_start: "page_of (page_start a) = page_of a"
proof -
  have "drop_bit 12 (page_start a) = drop_bit 12 a"
    unfolding page_start_def by (rule bit_word_eqI) (simp only: bit_drop_bit_eq comp_def base_bit, simp)
  then have "unat (drop_bit 12 (page_start a)) = unat (drop_bit 12 a)" by simp
  then show ?thesis unfolding unat_drop_bit_eq page_of_def by (simp add: drop_bit_eq_div)
qed

lemma agree_outside:
  assumes "agree {t. page_aligned t \<and> t \<notin> F} m m'"
  shows "outside F m m'"
  unfolding outside_def
proof (intro allI impI)
  fix a assume a: "page_of a \<notin> page_of ` F"
  define b where "b = a - take_bit 3 a"
  have u: "unat (take_bit 3 a) = unat a mod 8" by (simp add: take_bit_eq_mod unat_mod)
  then have "take_bit 3 a \<le> a" by (simp add: word_le_nat_alt)
  then have b: "unat b = unat a - unat a mod 8" unfolding b_def by (simp add: unat_sub u)
  then have al: "aligned8 b" by (simp add: aligned8_def minus_mod_eq_mult_div)
  have "unat b div 4096 = unat a div 4096"
    using b div_mult2_eq [of "unat a" 8 512] div_mult2_eq [of "unat b" 8 512] by (simp add: minus_mod_eq_mult_div)
  then have "page_of (page_start b) = page_of a" by (simp add: page_of_start) (simp add: page_of_def)
  then have "page_start b \<notin> F" using a by (metis imageI)
  moreover have "page_aligned (page_start b)" unfolding page_start_def by (rule base_aligned)
  moreover obtain i where i: "i < 512" "b = page_start b + 8 * i" using word_entry [OF al] by blast
  ultimately have "get_entry m' (page_start b) i = get_entry m (page_start b) i" using assms by (simp add: agree_def)
  then have "load64 m' b = load64 m b" using i(2) by (simp add: get_entry_def)
  moreover have "unat (take_bit 3 a) < 8" using u by simp
  ultimately show "m' a = m a" using load64_byte [of m' b m "unat (take_bit 3 a)"] by (simp add: b_def)
qed

lemma sits_outside: "sits s0 f0 B D c s \<Longrightarrow> outside (frames s0) (ram (mach s0)) (ram (mach s))"
  unfolding sits_def by (elim conjE) (rule agree_outside)

end
