(* ===== verification/PagingCheckProps.thy ===== *)
theory PagingCheckProps
  imports PagingClient
begin

text \<open>
  The boot check of the page tables passes: its sequence of tests, followed with the rules of
  \<open>PagingClient\<close> from the state that \<open>paging_init\<close> leaves.
\<close>

section \<open>The boot check passes\<close>

abbreviation (input) other_page :: u64 where
  "other_page \<equiv> 0xffff800000200000"

lemma window_pages: "window PAGING_DYNAMIC_BASE" "window other_page" "\<not> window 0x100000"
  "\<not> window 0xffff800000000001" "\<not> window 0xffff808000000000" "\<not> window 0x800000000000"
  by (simp_all add: window_def page_aligned_unat)

lemma window_tables:
  "card (paths {}) = 0" "card (paths {PAGING_DYNAMIC_BASE}) = 3"
  "card (paths {PAGING_DYNAMIC_BASE, other_page}) = 4" "card (paths {other_page}) = 3"
proof -
  have i: "inner_path PAGING_DYNAMIC_BASE = [256, 0, 0]" "inner_path other_page = [256, 0, 1]"
    by (simp_all add: inner_path_def pt_index_def)
  have n: "{1..3 :: nat} = {1, 2, 3}" by auto
  have p: "paths {PAGING_DYNAMIC_BASE} = {[256], [256, 0], [256, 0, 0]}"
    "paths {PAGING_DYNAMIC_BASE, other_page} = {[256], [256, 0], [256, 0, 0], [256, 0, 1]}"
    "paths {other_page} = {[256], [256, 0], [256, 0, 1]}"
    unfolding paths_def n using i by (auto simp: take_Cons' numeral_2_eq_2 numeral_3_eq_3)
  show "card (paths {}) = 0" by (simp add: paths_def)
  show "card (paths {PAGING_DYNAMIC_BASE}) = 3"
    "card (paths {PAGING_DYNAMIC_BASE, other_page}) = 4" "card (paths {other_page}) = 3" unfolding p by simp_all
qed

text \<open>
  What the check relies on besides the state of the window: the boot information lies outside
  the managed frames, and none of the four addresses that it tries to alias is a frame.
\<close>

definition check_setting :: "layout \<Rightarrow> u64 \<Rightarrow> paging \<Rightarrow> bool" where
  "check_setting L info s0 \<longleftrightarrow> aligned8 (info + 64) \<and> page_start (info + 64) \<notin> frames s0
     \<and> kernel_text_start L \<notin> frames s0 \<and> kernel_rodata_start L \<notin> frames s0
     \<and> double_fault_guard_low L \<notin> frames s0
     \<and> stack_base (load_BOOT_INFO (ram (mach s0)) info) - 4096 \<notin> frames s0"

lemma guard_refused:
  assumes start: "start s0 f0" and set: "check_setting L info s0" and fin: "finite (dom B)"
  shows "passes (sits s0 f0 B D c) (refuses (map_stack_guard info v)) (sits s0 f0 B D c)"
  unfolding passes_def
proof (intro allI impI)
  fix s assume s: "sits s0 f0 B D c s"
  let ?g = "stack_base (load_BOOT_INFO (ram (mach s0)) info) - 4096"
  have "stack_base (load_BOOT_INFO (ram (mach s)) info) = stack_base (load_BOOT_INFO (ram (mach s0)) info)"
    using sits_outer_word [OF s, of "info + 64"] set by (simp add: load_BOOT_INFO_def check_setting_def)
  then have "refuses (map_stack_guard info v) s = refuses (paging_map v ?g PAGING_WRITE) s"
    by (simp add: refuses_def map_stack_guard_def)
  moreover have "?g \<notin> D" using set sits_avail(3) [OF start s] by (auto simp: check_setting_def)
  ultimately show "\<exists>s'. refuses (map_stack_guard info v) s = Some (True, s') \<and> sits s0 f0 B D c s'"
    using map_refused [OF start fin, of v PAGING_WRITE ?g D c] s unfolding passes_def by auto
qed

lemma rejects_passes:
  assumes start: "start s0 f0" and set: "check_setting L info s0" and p: "p \<in> D" and D: "D \<subseteq> frames s0"
    "\<forall>a \<in> D. frame_addr a"
  shows "passes (sits s0 f0 Map.empty D c) (rejects_invalid_mappings L info p) (sits s0 f0 Map.empty D c)"
proof -
  note refused = map_refused [OF start, of Map.empty, simplified]
  have bad: "kernel_text_start L \<notin> D" "kernel_rodata_start L \<notin> D" "double_fault_guard_low L \<notin> D"
    using set D(1) by (auto simp: check_setting_def)
  have "p + 1 \<notin> D" "0 \<notin> D" using not_frame_addr D(2) p by blast+
  moreover have "\<not> valid_flags 4" by (simp add: valid_flags_def)
  ultimately show ?thesis
    unfolding rejects_invalid_mappings_def Let_def using bad window_pages
    by (intro passes_Cons [OF refused] passes_Cons [OF guard_refused [OF start set]]
        passes_Cons [OF unmapped_refused(1) [OF start]] passes_Cons [OF unmapped_refused(2) [OF start]]
        passes_Cons [OF unmapped_refused(3) [OF start]] passes_Nil) simp_all
qed


lemma passes_append: "passes P (all_of xs) Q \<Longrightarrow> passes Q (all_of ys) R \<Longrightarrow> passes P (all_of (xs @ ys)) R"
proof (induction xs arbitrary: P)
  case Nil
  then show ?case by (simp add: passes_def)
next
  case (Cons x xs)
  have x: "passes P x (\<lambda>s. \<exists>s'. all_of xs s = Some (True, s') \<and> Q s')"
    using Cons.prems(1) unfolding passes_def
    by (auto simp: bind_eq_Some_conv split: if_splits)
  have "passes (\<lambda>s. \<exists>s'. all_of xs s = Some (True, s') \<and> Q s') (all_of xs) Q" by (auto simp: passes_def)
  from passes_Cons [OF x Cons.IH [OF this Cons.prems(2)]] show ?case by (simp only: append_Cons)
qed

lemma sits_cong: "sits s0 f0 B D c s \<Longrightarrow> \<forall>a \<in> D. c a = c' a \<Longrightarrow> sits s0 f0 B D c' s"
  by (auto simp: sits_def)

lemma flags_of_simps [simp]:
  "flags_of (make_mapping p 0) = 0" "flags_of (make_mapping p 1) = 1"
  "writable (make_mapping p 1)" "frame_of (make_mapping p fl) = p"
  by (simp_all add: flags_of_def make_mapping_def)

lemma valid_flags_01 [simp]: "valid_flags 0" "valid_flags 1"
  by (simp_all add: valid_flags_def)

text \<open>The window while both pages are mapped.\<close>

abbreviation both :: "u64 \<Rightarrow> mapping \<Rightarrow> (u64 \<rightharpoonup> mapping)" where
  "both p x \<equiv> [other_page \<mapsto> make_mapping p 0, PAGING_DYNAMIC_BASE \<mapsto> x]"

lemma both_sees:
  "sees s0 (both p x) PAGING_DYNAMIC_BASE (frame_of x)" "sees s0 (both p x) other_page p"
  "may_store s0 (both p (make_mapping q 1)) PAGING_DYNAMIC_BASE"
  using window_pages by (simp_all add: sees_def may_store_def)

lemma aliases_map:
  assumes start: "start s0 f0" and pq: "p \<in> D" "q \<in> D" and room: "card D + card (tables s0) + 4 \<le> card (frames s0)"
    "card (tables s0) + 4 \<le> 4096"
  shows "passes (sits s0 f0 Map.empty D c) (all_of [
      succeeds (paging_map PAGING_DYNAMIC_BASE p PAGING_WRITE), refuses (paging_map PAGING_DYNAMIC_BASE q 0),
      succeeds (paging_map other_page p 0)]) (sits s0 f0 (both p (make_mapping p 1)) D c)"
proof -
  let ?v = PAGING_DYNAMIC_BASE
  have r: "room s0 {?v} D" "room s0 {other_page, ?v} D"
    using room window_tables by (simp_all add: room_def insert_commute)
  have 1: "passes (sits s0 f0 Map.empty D c) (succeeds (paging_map ?v p PAGING_WRITE)) (sits s0 f0 [?v \<mapsto> make_mapping p 1] D c)"
    using window_pages r pq by (intro map_passes [OF start]) simp_all
  have 2: "passes (sits s0 f0 [?v \<mapsto> make_mapping p 1] D c) (refuses (paging_map ?v q 0)) (sits s0 f0 [?v \<mapsto> make_mapping p 1] D c)"
    by (intro map_refused [OF start]) simp_all
  have "passes (sits s0 f0 [?v \<mapsto> make_mapping p 1] D c) (succeeds (paging_map other_page p 0))
      (sits s0 f0 [?v \<mapsto> make_mapping p 1, other_page \<mapsto> make_mapping p 0] D c)"
    using window_pages r pq by (intro map_passes [OF start]) simp_all
  then have 3: "passes (sits s0 f0 [?v \<mapsto> make_mapping p 1] D c) (succeeds (paging_map other_page p 0))
      (sits s0 f0 (both p (make_mapping p 1)) D c)" by (simp add: fun_upd_twist)
  show ?thesis by (intro passes_Cons [OF 1] passes_Cons [OF 2] passes_Cons [OF 3] passes_Nil)
qed

lemma aliases_protect:
  assumes start: "start s0 f0" and p: "p \<in> D" "p \<in> frames s0"
  shows "passes (sits s0 f0 (both p (make_mapping p 1)) D c) (all_of [
      stores PAGING_DYNAMIC_BASE 0x123456789abcdef0, same_words p PAGING_DYNAMIC_BASE,
      same_words other_page PAGING_DYNAMIC_BASE,
      query_is PAGING_DYNAMIC_BASE (\<lambda>(result, flags). result = p \<and> flags = PAGING_WRITE),
      succeeds (paging_protect PAGING_DYNAMIC_BASE 0), query_is PAGING_DYNAMIC_BASE (\<lambda>(result, flags). flags = 0),
      succeeds (paging_protect PAGING_DYNAMIC_BASE PAGING_WRITE), stores PAGING_DYNAMIC_BASE 42])
    (sits s0 f0 (both p (make_mapping p 1)) D (c(p := 42)))"
proof -
  let ?v = PAGING_DYNAMIC_BASE and ?c = "c(p := 0x123456789abcdef0)"
  let ?S = "\<lambda>x. sits s0 f0 (both p (make_mapping p x)) D"
  have see: "sees s0 (both p x) p p" for x using p(2) by (simp add: sees_def)
  have st: "passes (?S 1 d) (stores ?v x) (?S 1 (d(p := x)))" for d x
    using both_sees(1) [where p = p and x = "make_mapping p 1"] both_sees(3) [where p = p and q = p] p by (intro stores_passes [OF start]) simp_all
  have w: "passes (?S 1 ?c) (same_words p ?v) (?S 1 ?c)" "passes (?S 1 ?c) (same_words other_page ?v) (?S 1 ?c)"
    using see both_sees(1,2) [where p = p and x = "make_mapping p 1"] p by (intro same_words_passes [OF start]; simp)+
  have q: "passes (?S 1 ?c) (query_is ?v (\<lambda>(result, flags). result = p \<and> flags = PAGING_WRITE)) (?S 1 ?c)"
    "passes (?S 0 ?c) (query_is ?v (\<lambda>(result, flags). flags = 0)) (?S 0 ?c)"
    using query_passes [OF start window_pages(1), where mp = "make_mapping p 1"]
      query_passes [OF start window_pages(1), where mp = "make_mapping p 0"] by simp_all
  have pr: "passes (?S x ?c) (succeeds (paging_protect ?v y)) (?S y ?c)" if "valid_flags y" for x y
    using protect_passes [OF start, of ?v "both p (make_mapping p x)" "make_mapping p x" y D ?c] window_pages that by simp
  have st42: "passes (?S 1 ?c) (stores ?v 42) (?S 1 (c(p := 42)))" using st [of ?c 42] by simp
  show ?thesis
    by (intro passes_Cons [OF st] passes_Cons [OF w(1)] passes_Cons [OF w(2)] passes_Cons [OF q(1)]
        passes_Cons [OF pr [OF valid_flags_01(1)]] passes_Cons [OF q(2)] passes_Cons [OF pr [OF valid_flags_01(2)]]
        passes_Cons [OF st42] passes_Nil)
qed


lemma aliases_remap:
  assumes start: "start s0 f0" and pq: "p \<in> D" "p \<in> frames s0" "q \<in> D" "q \<in> frames s0" "p \<noteq> q"
    and room: "card D + card (tables s0) + 4 \<le> card (frames s0)" "card (tables s0) + 4 \<le> 4096"
  shows "passes (sits s0 f0 (both p (make_mapping p 1)) D (c(p := 42))) (all_of [
      succeeds (paging_unmap PAGING_DYNAMIC_BASE), query_fails PAGING_DYNAMIC_BASE (p, 0) (\<lambda>_. True),
      refuses (paging_unmap PAGING_DYNAMIC_BASE), succeeds (paging_map PAGING_DYNAMIC_BASE q PAGING_WRITE),
      stores PAGING_DYNAMIC_BASE 99, word_is q 99, word_is p 42])
    (sits s0 f0 (both p (make_mapping q 1)) D (c(p := 42, q := 99)))"
proof -
  let ?v = PAGING_DYNAMIC_BASE and ?c = "c(p := 42)" and ?d = "c(p := 42, q := 99)"
  let ?O = "[other_page \<mapsto> make_mapping p 0]" and ?Q = "both p (make_mapping q 1)"
  have r: "room s0 {?v, other_page} D" using room window_tables by (simp add: room_def)
  have see: "sees s0 ?Q a a" if "a \<in> frames s0" for a using that by (simp add: sees_def)
  have "?O(?v := None) = ?O" by (simp add: fun_upd_idem)
  then have 1: "passes (sits s0 f0 (both p (make_mapping p 1)) D ?c) (succeeds (paging_unmap ?v)) (sits s0 f0 ?O D ?c)"
    using unmap_passes [OF start window_pages(1), of "both p (make_mapping p 1)" D ?c] by simp
  have 2: "passes (sits s0 f0 ?O D ?c) (query_fails ?v (p, 0) (\<lambda>_. True)) (sits s0 f0 ?O D ?c)"
    "passes (sits s0 f0 ?O D ?c) (refuses (paging_unmap ?v)) (sits s0 f0 ?O D ?c)"
    using unmapped_refused [OF start window_pages(1), of ?O] by simp_all
  have 3: "passes (sits s0 f0 ?O D ?c) (succeeds (paging_map ?v q PAGING_WRITE)) (sits s0 f0 ?Q D ?c)"
    using r pq by (intro map_passes [OF start _ window_pages(1)]) simp_all
  have 4: "passes (sits s0 f0 ?Q D ?c) (stores ?v 99) (sits s0 f0 ?Q D ?d)"
    using both_sees(1) [where p = p and x = "make_mapping q 1"] both_sees(3) [where p = p and q = q] pq
    by (intro stores_passes [OF start]) simp_all
  have 5: "passes (sits s0 f0 ?Q D ?d) (word_is q 99) (sits s0 f0 ?Q D ?d)"
    "passes (sits s0 f0 ?Q D ?d) (word_is p 42) (sits s0 f0 ?Q D ?d)"
    using word_passes [OF start see [OF pq(4)] pq(3), of ?d 99] word_passes [OF start see [OF pq(2)] pq(1), of ?d 42] pq(5)
    by simp_all
  show ?thesis
    by (intro passes_Cons [OF 1] passes_Cons [OF 2(1)] passes_Cons [OF 2(2)] passes_Cons [OF 3] passes_Cons [OF 4]
        passes_Cons [OF 5(1)] passes_Cons [OF 5(2)] passes_Nil)
qed

lemma aliases_release:
  assumes start: "start s0 f0" and pq: "p \<in> D" "q \<in> D" "p \<noteq> q"
    and n: "unat n + card (D - {p} - {q}) + card (tables s0) = card (frames s0)"
  shows "passes (sits s0 f0 (both p (make_mapping q 1)) D c) (all_of [
      succeeds (paging_unmap PAGING_DYNAMIC_BASE), succeeds (paging_unmap other_page), succeeds (free_page p),
      succeeds (free_page q), (\<lambda>s. Some (pmm_available (pm s) = n, s))])
    (sits s0 f0 Map.empty (D - {p} - {q}) c)"
proof -
  let ?v = PAGING_DYNAMIC_BASE and ?O = "[other_page \<mapsto> make_mapping p 0]"
  have "?O(?v := None) = ?O" by (simp add: fun_upd_idem)
  then have 1: "passes (sits s0 f0 (both p (make_mapping q 1)) D c) (succeeds (paging_unmap ?v)) (sits s0 f0 ?O D c)"
    using unmap_passes [OF start window_pages(1), of "both p (make_mapping q 1)" D c] by simp
  have 2: "passes (sits s0 f0 ?O D c) (succeeds (paging_unmap other_page)) (sits s0 f0 Map.empty D c)"
    using unmap_passes [OF start window_pages(2), of ?O D c] by simp
  have 3: "passes (sits s0 f0 Map.empty D c) (succeeds (free_page p)) (sits s0 f0 Map.empty (D - {p}) c)"
    by (rule free_passes [OF start pq(1)])
  have 4: "passes (sits s0 f0 Map.empty (D - {p}) c) (succeeds (free_page q)) (sits s0 f0 Map.empty (D - {p} - {q}) c)"
    using pq by (intro free_passes [OF start]) simp
  have 5: "passes (sits s0 f0 Map.empty (D - {p} - {q}) c) (\<lambda>s. Some (pmm_available (pm s) = n, s))
      (sits s0 f0 Map.empty (D - {p} - {q}) c)"
    using n window_tables(1) by (intro available_passes [OF start]) simp_all
  show ?thesis
    by (intro passes_Cons [OF 1] passes_Cons [OF 2] passes_Cons [OF 3] passes_Cons [OF 4] passes_Cons [OF 5] passes_Nil)
qed

lemma aliases_pass:
  assumes start: "start s0 f0" and set: "check_setting L info s0" and s: "sits s0 f0 Map.empty D c s"
    and room: "card D + card (tables s0) + 6 \<le> card (frames s0)" "card (tables s0) + 4 \<le> 4096"
  shows "\<exists>s'. check_aliases_and_permissions L info s = Some (True, s') \<and> sits s0 f0 Map.empty D c s'"
proof -
  let ?n = "pmm_available (pm s)"
  have count: "unat ?n + card D + card (tables s0) = card (frames s0)"
    using sits_avail(1,4) [OF start s] sits_tables [OF start s] window_tables(1) by simp
  then have "2 < card (pmm_avail (pm s))" using room(1) sits_avail(4) [OF start s] by linarith
  then have "pmm_avail (pm s) \<noteq> {}" by auto
  then obtain p s1 where p: "alloc_page s = (Some p, s1)" "p \<in> pmm_avail (pm s)" "p \<notin> D" "p \<in> frames s0"
    "sits s0 f0 Map.empty (insert p D) (c(p := load64 (ram (mach s)) p)) s1" "pmm_avail (pm s1) = pmm_avail (pm s) - {p}"
    using sits_alloc [OF start s] by metis
  have "\<not> pmm_avail (pm s) \<subseteq> {p}" using card_mono [of "{p}" "pmm_avail (pm s)"] \<open>2 < card (pmm_avail (pm s))\<close> by auto
  then have "pmm_avail (pm s1) \<noteq> {}" using p(6) by auto
  then obtain q s2 c2 where q: "alloc_page s1 = (Some q, s2)" "q \<notin> insert p D" "q \<in> frames s0"
    "sits s0 f0 Map.empty (insert q (insert p D)) c2 s2" "\<forall>a \<in> D. c2 a = c a"
    using sits_alloc [OF start p(5)] p(3) by (metis (no_types, lifting) fun_upd_other insertCI)
  have pq: "p \<noteq> q" "q \<noteq> p" using q(2) by auto
  let ?D = "insert q (insert p D)"
  have D: "?D \<subseteq> frames s0" "\<forall>a \<in> ?D. frame_addr a" "card ?D = card D + 2" "?D - {p} - {q} = D"
    using sits_avail(2,3) [OF start q(4)] pmm_fa.frames [of "pm s2"] q(4,2) p(3) by (auto simp: sits_def)
  note r = rejects_passes [OF start set, of p ?D c2] aliases_map [OF start, of p ?D q c2]
    aliases_protect [OF start, of p ?D c2] aliases_remap [OF start, of p ?D q c2]
    aliases_release [OF start, of p ?D q ?n "c2(p := 42, q := 99)"]
  have "passes (sits s0 f0 Map.empty ?D c2) (all_of ([rejects_invalid_mappings L info p] @ xs)) R"
    if "passes (sits s0 f0 Map.empty ?D c2) (all_of xs) R" for xs R
    using r(1) D that passes_Cons by simp
  note this [OF passes_append [OF r(2) passes_append [OF r(3) passes_append [OF r(4) r(5)]]]]
  then have "\<exists>s'. check_aliases_and_permissions L info s = Some (True, s')
      \<and> sits s0 f0 Map.empty D (c2(p := 42, q := 99)) s'"
    using pq q D p(4) count room
    by (simp add: passes_def check_aliases_and_permissions_def p(1) q(1) insert_Diff_if del: all_of.simps)
  moreover have "\<forall>a \<in> D. (c2(p := 42, q := 99)) a = c a" using q(2,5) p(3) by auto
  ultimately show ?thesis using sits_cong by blast
qed


text \<open>The list of held pages, linked through their first words.\<close>

primrec linked :: "(u64 \<Rightarrow> u64) \<Rightarrow> u64 \<Rightarrow> u64 list \<Rightarrow> bool" where
  "linked c h [] \<longleftrightarrow> h = 0"
| "linked c h (p # ps) \<longleftrightarrow> h = p \<and> p \<noteq> 0 \<and> linked c (c p) ps"

lemma linked_cong: "\<forall>a \<in> set ps. c a = c' a \<Longrightarrow> linked c h ps = linked c' h ps"
  by (induction ps arbitrary: h) auto

lemma sits_identity:
  assumes start: "start s0 f0" and s: "sits s0 f0 B D c s" and q: "q \<in> frames s0"
  shows "sees s0 B q q \<and> may_store s0 B q"
proof -
  have "q \<in> frames s" using s q by (simp add: sits_def)
  then have "\<not> window q"
    using frame_not_window pmm_fa.frames [OF sits_avail(2) [OF start s]] by (auto simp: frames_def)
  then show ?thesis using q by (simp add: sees_def may_store_def)
qed

text \<open>Pages \<open>ps\<close> held beside \<open>D\<close>.\<close>

definition holding :: "paging \<Rightarrow> table_tree \<Rightarrow> u64 set \<Rightarrow> (u64 \<Rightarrow> u64) \<Rightarrow> u64 list \<Rightarrow> u64 \<Rightarrow> paging \<Rightarrow> bool" where
  "holding s0 f0 D c ps h s \<longleftrightarrow> (\<exists>c'. sits s0 f0 Map.empty (set ps \<union> D) c' s \<and> linked c' h ps
     \<and> (\<forall>a \<in> D. c' a = c a)) \<and> distinct ps \<and> set ps \<inter> D = {}"

lemma hold_step:
  assumes start: "start s0 f0" and h: "holding s0 f0 D c ps h s" and av: "pmm_avail (pm s) \<noteq> {}"
  obtains q s1 s2 where "alloc_page s = (Some q, s1)" "store_at q h s1 = Some s2" "holding s0 f0 D c (q # ps) q s2"
    "card (pmm_avail (pm s)) = Suc (card (pmm_avail (pm s2)))"
proof -
  obtain c' where c': "sits s0 f0 Map.empty (set ps \<union> D) c' s" "linked c' h ps" "\<forall>a \<in> D. c' a = c a"
    and d: "distinct ps" "set ps \<inter> D = {}" using h by (auto simp: holding_def)
  obtain q s1 where q: "alloc_page s = (Some q, s1)" "q \<in> pmm_avail (pm s)" "q \<notin> set ps \<union> D" "q \<in> frames s0" "q \<noteq> 0"
    "sits s0 f0 Map.empty (insert q (set ps \<union> D)) (c'(q := load64 (ram (mach s)) q)) s1"
    "pmm_avail (pm s1) = pmm_avail (pm s) - {q}"
    by (rule sits_alloc [OF start c'(1) av])
  obtain s2 where s2: "store_at q h s1 = Some s2"
    "sits s0 f0 Map.empty (insert q (set ps \<union> D)) (c'(q := h)) s2"
    using sits_stores [OF start q(6), of q q h] sits_identity [OF start q(6,4)] by auto
  have "linked (c'(q := h)) h ps" using c'(2) q(3) linked_cong [of ps "c'(q := h)" c'] by auto
  moreover have "\<forall>a \<in> D. (c'(q := h)) a = c a" using c'(3) q(3) by auto
  ultimately have "holding s0 f0 D c (q # ps) q s2"
    using s2(2) q(3,5) d unfolding holding_def by (intro conjI exI [of _ "c'(q := h)"]) auto
  moreover have "pm s2 = pm s1" using s2(1) by (auto simp: store_at_def access_def split: option.splits if_splits)
  moreover have "finite (pmm_avail (pm s))" by simp
  ultimately show ?thesis using that q(1,2,7) s2(1) card.remove [of "pmm_avail (pm s)" q] by simp
qed

lemma hold_pages_holds:
  assumes start: "start s0 f0"
  shows "holding s0 f0 D c ps h s \<Longrightarrow> card (pmm_avail (pm s)) = n + 2 \<Longrightarrow>
    \<exists>h' ps' s'. hold_pages h s = Some (Some h', s') \<and> holding s0 f0 D c ps' h' s' \<and> card (pmm_avail (pm s')) = 2"
proof (induction n arbitrary: h ps s)
  case 0
  have "unat (pmm_available (pm s)) = 2"
    using 0 sits_avail(4) [OF start] unfolding holding_def by force
  then have "\<not> 2 < pmm_available (pm s)" by (simp add: word_less_nat_alt)
  then show ?case using 0 hold_pages.simps [of h s] by auto
next
  case (Suc n)
  have "unat (pmm_available (pm s)) = Suc n + 2"
    using Suc.prems sits_avail(4) [OF start] unfolding holding_def by force
  then have more: "2 < pmm_available (pm s)" by (simp add: word_less_nat_alt)
  have av: "pmm_avail (pm s) \<noteq> {}" using Suc.prems(2) by auto
  obtain q s1 s2 where q: "alloc_page s = (Some q, s1)" "store_at q h s1 = Some s2" "holding s0 f0 D c (q # ps) q s2"
    "card (pmm_avail (pm s)) = Suc (card (pmm_avail (pm s2)))"
    by (rule hold_step [OF start Suc.prems(1) av])
  have "hold_pages h s = hold_pages q s2" using hold_pages.simps [of h s] more q(1,2) by simp
  then show ?case using Suc.IH [OF q(3)] q(4) Suc.prems(2) by simp
qed

lemma release_held_releases:
  assumes start: "start s0 f0"
  shows "sits s0 f0 Map.empty (set ps \<union> D) c s \<Longrightarrow> linked c h ps \<Longrightarrow> distinct ps \<Longrightarrow> set ps \<inter> D = {} \<Longrightarrow>
    \<exists>s'. release_held h s = Some (True, s') \<and> sits s0 f0 Map.empty D c s'"
proof (induction ps arbitrary: h s)
  case Nil
  then show ?case using release_held.simps [of h s] by simp
next
  case (Cons p ps)
  let ?E = "set (p # ps) \<union> D"
  have h: "h = p" "p \<noteq> 0" "linked c (c p) ps" using Cons.prems(2) by simp_all
  have p: "p \<in> ?E" "p \<in> frames s0" using sits_avail(3) [OF start Cons.prems(1)] by auto
  obtain s1 where s1: "load_at p s = Some (c p, s1)" "sits s0 f0 Map.empty ?E c s1"
    using sits_load [OF start Cons.prems(1) _ p(1), of p] sits_identity [OF start Cons.prems(1) p(2)] by auto
  obtain s2 where s2: "free_page p s1 = (True, s2)" "sits s0 f0 Map.empty (?E - {p}) c s2"
    using free_passes [OF start p(1), of Map.empty c] s1(2) by (auto simp: passes_def succeeds_def)
  have "?E - {p} = set ps \<union> D" using Cons.prems(3,4) by auto
  then obtain s' where "release_held (c p) s2 = Some (True, s')" "sits s0 f0 Map.empty D c s'"
    using Cons.IH [of s2 "c p"] s2(2) h Cons.prems by auto
  moreover have "release_held h s = release_held (c p) s2"
    using release_held.simps [of h s] h s1(1) s2(1) by simp
  ultimately show ?case by simp
qed


lemma cleanup_pass:
  assumes start: "start s0 f0" and s: "sits s0 f0 Map.empty D c s"
    and room: "card D + card (tables s0) + 4 \<le> card (frames s0)" "card (tables s0) + 3 \<le> 4096"
  shows "\<exists>s'. check_failed_map_cleanup s = Some (True, s') \<and> sits s0 f0 Map.empty D c s'"
proof -
  let ?v = PAGING_DYNAMIC_BASE and ?n = "pmm_available (pm s)"
  have count: "card (pmm_avail (pm t)) + card E + card (tables s0) = card (frames s0)"
    if "sits s0 f0 Map.empty E d t" for E d t
    using sits_avail(1) [OF start that] sits_tables [OF start that] window_tables(1) by simp
  have "pmm_avail (pm s) \<noteq> {}" using count [OF s] room(1) by auto
  then obtain p s1 where p: "alloc_page s = (Some p, s1)" "p \<notin> D" "p \<in> frames s0"
    "sits s0 f0 Map.empty (insert p D) (c(p := load64 (ram (mach s)) p)) s1"
    using sits_alloc [OF start s] by metis
  let ?c = "c(p := load64 (ram (mach s)) p)" and ?D = "insert p D"
  have c1: "card ?D = Suc (card D)" "?D - {p} = D" using p(2) by simp_all
  have "holding s0 f0 ?D ?c [] 0 s1" using p(4) by (auto simp: holding_def)
  moreover have "card (pmm_avail (pm s1)) = (card (pmm_avail (pm s1)) - 2) + 2" using count [OF p(4)] room(1) c1(1) by simp
  ultimately obtain h ps s2 where h: "hold_pages 0 s1 = Some (Some h, s2)" "holding s0 f0 ?D ?c ps h s2"
    "card (pmm_avail (pm s2)) = 2" using hold_pages_holds [OF start] by blast
  then obtain c' where c': "sits s0 f0 Map.empty (set ps \<union> ?D) c' s2" "linked c' h ps" "\<forall>a \<in> ?D. c' a = ?c a"
    "distinct ps" "set ps \<inter> ?D = {}" by (auto simp: holding_def)
  let ?E = "set ps \<union> ?D"
  have full: "2 + card ?E + card (tables s0) = card (frames s0)" using count [OF c'(1)] h(3) by simp
  have "\<not> room s0 {?v} ?E" using full window_tables(2) by (simp add: room_def)
  then have 1: "passes (sits s0 f0 Map.empty ?E c') (refuses (paging_map ?v p PAGING_WRITE)) (sits s0 f0 Map.empty ?E c')"
    by (intro map_refused [OF start]) simp_all
  have 2: "passes (sits s0 f0 Map.empty ?E c') (\<lambda>s. Some (pmm_available (pm s) = 2, s)) (sits s0 f0 Map.empty ?E c')"
    using full window_tables(1) by (intro available_passes [OF start]) simp_all
  have 3: "passes (sits s0 f0 Map.empty ?E c') (query_fails ?v (0, 0) (\<lambda>_. True)) (sits s0 f0 Map.empty ?E c')"
    by (rule unmapped_refused(3) [OF start window_pages(1)]) simp_all
  have 4: "passes (sits s0 f0 Map.empty ?E c') (release_held h) (sits s0 f0 Map.empty ?D c')"
    using release_held_releases [OF start, of ps ?D c'] c' by (simp add: passes_def)
  have "room s0 {?v} ?D" using room window_tables(2) c1 by (simp add: room_def)
  then have 5: "passes (sits s0 f0 Map.empty ?D c') (succeeds (paging_map ?v p PAGING_WRITE))
      (sits s0 f0 [?v \<mapsto> make_mapping p 1] ?D c')"
    by (intro map_passes [OF start _ window_pages(1)]) simp_all
  have 6: "passes (sits s0 f0 [?v \<mapsto> make_mapping p 1] ?D c') (succeeds (paging_unmap ?v)) (sits s0 f0 Map.empty ?D c')"
    using unmap_passes [OF start window_pages(1), of "[?v \<mapsto> make_mapping p 1]" ?D c'] by simp
  have 7: "passes (sits s0 f0 Map.empty ?D c') (succeeds (free_page p)) (sits s0 f0 Map.empty D c')"
    using free_passes [OF start, of p ?D Map.empty c'] c1(2) by simp
  have 8: "passes (sits s0 f0 Map.empty D c') (\<lambda>s. Some (pmm_available (pm s) = ?n, s)) (sits s0 f0 Map.empty D c')"
    using count [OF s] sits_avail(4) [OF start s] window_tables(1) by (intro available_passes [OF start]) simp_all
  have "\<exists>s'. check_failed_map_cleanup s = Some (True, s') \<and> sits s0 f0 Map.empty D c' s'"
    using passes_Cons [OF 1 passes_Cons [OF 2 passes_Cons [OF 3 passes_Cons [OF 4 passes_Cons [OF 5 passes_Cons [OF 6
      passes_Cons [OF 7 passes_Cons [OF 8 passes_Nil]]]]]]]] c'(1)
    by (simp add: passes_def check_failed_map_cleanup_def p(1) h(1) del: all_of.simps)
  moreover have "\<forall>a \<in> D. c' a = c a" using c'(3) p(2) by auto
  ultimately show ?thesis using sits_cong by blast
qed

text \<open>A client that gives everything back leaves the tables as they were.\<close>

lemma sits_end:
  assumes start: "start s0 f0" and s: "sits s0 f0 Map.empty D c s"
  shows "tables s = tables s0"
proof -
  obtain f where f: "vm_tree s f" "\<forall>p. p = [] \<or> hd p \<noteq> 256 \<longrightarrow> f p = f0 p" "running s" by (rule sits_tree [OF s])
  have f0: "vm_tree s0 f0" "running s0" using start by (simp_all add: start_def)
  have "{p \<in> dom f. p \<noteq> [] \<and> hd p = 256} = {}" "{p \<in> dom f0. p \<noteq> [] \<and> hd p = 256} = {}"
    using window_paths [OF f(1,3)] window_paths [OF f0] sits_mapped [OF start s] start
    by (auto simp: start_def paths_def)
  then have "f p = None" "f0 p = None" if "p \<noteq> []" "hd p = 256" for p using that by auto
  then have "f = f0" using f(2) by (intro ext) metis
  moreover have "ran f = tables s" "ran f0 = tables s0"
    using f(1) f0(1) by (simp_all add: vm_tree_def pt_inv_def page_tree_def tree_shape_def)
  ultimately show ?thesis by simp
qed

lemma sits_start:
  assumes "start s0 f0"
  shows "sits s0 f0 Map.empty (pmm_used (pm s0) - tables s0) (load64 (ram (mach s0))) s0"
  using assms by (auto simp: sits_def start_def vm_tree_def pt_inv_def tab_inv_def agree_def)


lemma boot_check_passes:
  assumes start: "start s f0" and set: "check_setting L info s"
    and room: "6 \<le> card (pmm_avail (pm s))" "card (tables s) + 4 \<le> 4096"
  shows "\<exists>s'. paging_boot_check L info s = Some (True, s') \<and> vm_inv s' \<and> running s' \<and> vmap s' = vmap s
    \<and> tables s' = tables s \<and> pmm_used (pm s') = pmm_used (pm s) \<and> pmm_avail (pm s') = pmm_avail (pm s)
    \<and> cr0 (mach s') = cr0 (mach s) \<and> outside (frames s) (ram (mach s)) (ram (mach s')) \<and> same_io (mach s) (mach s')"
proof -
  let ?D = "pmm_used (pm s) - tables s" and ?c = "load64 (ram (mach s))"
  note s0 = sits_start [OF start]
  have room': "card ?D + card (tables s) + 6 \<le> card (frames s)" "card ?D + card (tables s) + 4 \<le> card (frames s)"
    using sits_avail(1) [OF start s0] room(1) by simp_all
  obtain s1 where s1: "check_aliases_and_permissions L info s = Some (True, s1)" "sits s f0 Map.empty ?D ?c s1"
    using aliases_pass [OF start set s0 room'(1) room(2)] by blast
  obtain s2 where s2: "check_failed_map_cleanup s1 = Some (True, s2)" "sits s f0 Map.empty ?D ?c s2"
    using cleanup_pass [OF start s1(2) room'(2)] room(2) by auto
  have t: "tables s2 = tables s" by (rule sits_end [OF start s2(2)])
  have u: "pmm_used (pm s2) = pmm_used (pm s)"
    using s2(2) t start by (auto simp: sits_def start_def vm_tree_def pt_inv_def tab_inv_def)
  have "pmm_avail (pm s2) = frames s2 - pmm_used (pm s2)" "pmm_avail (pm s) = frames s - pmm_used (pm s)"
    using pmm_fa.disjoint [OF sits_avail(2) [OF start s2(2)]] pmm_fa.disjoint [OF sits_avail(2) [OF start s0]]
    by (auto simp: frames_def)
  then have "pmm_avail (pm s2) = pmm_avail (pm s)" using u s2(2) by (simp add: sits_def)
  moreover have "vmap s2 = vmap s" "running s2" "cr0 (mach s2) = cr0 (mach s)" "same_io (mach s) (mach s2)" using s2(2) by (simp_all add: sits_def)
  moreover note sits_outside [OF s2(2)]
  moreover have "vm_inv s2" by (rule sits_tree [OF s2(2)]) (auto simp: vm_inv_def)
  ultimately show ?thesis using s1(1) s2(1) t u by (simp add: paging_boot_check_def)
qed


section \<open>After the initialisation\<close>

text \<open>
  Where the linker and the loader put things: the sections and the two double fault guards are
  pages of the kernel image, and the two stack guards are not free memory.
\<close>

definition placed_well :: "layout \<Rightarrow> BOOT_INFO \<Rightarrow> u64 set \<Rightarrow> bool" where
  "placed_well L info A \<longleftrightarrow> (let K = {unat (kernel_base info)..<unat (kernel_base info) + unat (kernel_size info)} in
     {unat (kernel_text_start L)..<unat (kernel_text_end L)} \<subseteq> K
     \<and> {unat (kernel_rodata_start L)..<unat (kernel_rodata_end L)} \<subseteq> K
     \<and> (\<forall>a \<in> {kernel_text_start L, kernel_rodata_start L, double_fault_guard_low L, double_fault_guard_high L}.
          page_aligned a \<and> unat a \<in> K)
     \<and> stack_base info - 4096 \<notin> A \<and> stack_base info + stack_size info \<notin> A
     \<and> page_aligned (stack_base info) \<and> page_aligned (stack_size info))"

lemma reserved_not_free:
  assumes ctx: "boot_ctx m p A" and a: "a \<in> A"
  defines "info \<equiv> load_BOOT_INFO m p"
  shows "unat a \<notin> {unat (kernel_base info)..<unat (kernel_base info) + unat (kernel_size info)}"
    and "page_of a \<notin> touched p sizeof_BOOT_INFO"
proof -
  have none: "page_of a \<notin> reserved_pages info p" using ctx a unfolding info_def boot_ctx_def by blast
  then show "page_of a \<notin> touched p sizeof_BOOT_INFO" by (auto simp: reserved_pages_def)
  have "page_of a \<notin> touched (kernel_base info) (kernel_size info)" using none by (auto simp: reserved_pages_def)
  then show "unat a \<notin> {unat (kernel_base info)..<unat (kernel_base info) + unat (kernel_size info)}"
    by (auto simp: touched_def page_of_def)
qed

lemma info_word_reserved:
  assumes ctx: "boot_ctx m p A" and p: "aligned8 p"
  shows "aligned8 (p + 64)" and "page_start (p + 64) \<notin> A"
proof -
  have "valid_boot_info m p" using ctx by (simp add: boot_ctx_def)
  then have "unat p + unat (sizeof_BOOT_INFO :: u64) < 2 ^ 64" using valid_range_nat valid_boot_info_ranges(3) by blast
  then have u: "unat (p + 64) = unat p + 64" by (simp add: unat_add_no_wrap)
  then show "aligned8 (p + 64)" using p by (simp add: aligned8_def)
  note page_of_start [of "p + 64"]
  moreover have "page_of (p + 64) \<in> touched p sizeof_BOOT_INFO"
    using u by (auto simp: page_of_def touched_def)
  ultimately show "page_start (p + 64) \<notin> A" using reserved_not_free(2) [OF ctx] by metis
qed

lemma page_aligned_arith:
  assumes "page_aligned a" and "page_aligned b"
  shows "page_aligned (a + b)" and "page_aligned (a - b)"
  using assms by (auto simp: page_aligned_unat unat_word_ariths(1) unat_sub_if' dvd_mod dvd_diff_nat)

text \<open>A state whose map is the boot map.\<close>

definition boot_map :: "layout \<Rightarrow> BOOT_INFO \<Rightarrow> u64 set \<Rightarrow> paging \<Rightarrow> bool" where
  "boot_map L info R s \<longleftrightarrow> vm_inv s \<and> running s \<and> bit (cr0 (mach s)) 16
     \<and> (\<forall>w. vmap s w = (if w \<in> R - guard_pages L info then Some (section_mapping L w) else None))"

text \<open>
  And the tables are the only frames in use, of the frames \<open>A\<close> that were free when the boot
  information was in memory \<open>r\<close>; nothing else has been written since.
\<close>

definition settled :: "layout \<Rightarrow> u64 \<Rightarrow> memory \<Rightarrow> u64 set \<Rightarrow> paging \<Rightarrow> bool" where
  "settled L p r A s \<longleftrightarrow> boot_map L (load_BOOT_INFO r p) (boot_ram r (load_BOOT_INFO r p)) s
     \<and> pmm_used (pm s) = tables s \<and> pmm_avail (pm s) = A - tables s \<and> tables s \<subseteq> A
     \<and> outside A r (ram (mach s))"

lemma boot_start:
  assumes ctx: "boot_ctx r p A" and R: "A \<subseteq> boot_ram r (load_BOOT_INFO r p)" and st: "settled L p r A s"
    and p: "aligned8 p" and pl: "placed_well L (load_BOOT_INFO r p) A"
  shows "\<exists>f0. start s f0" and "check_setting L p s" and "frames s = A" and "load_BOOT_INFO (ram (mach s)) p = load_BOOT_INFO r p"
proof -
  let ?info = "load_BOOT_INFO r p"
  let ?K = "{unat (kernel_base ?info)..<unat (kernel_base ?info) + unat (kernel_size ?info)}"
  have s: "vm_inv s" "running s"
    "\<forall>w. vmap s w = (if w \<in> boot_ram r ?info - guard_pages L ?info then Some (section_mapping L w) else None)"
    "pmm_used (pm s) = tables s" "pmm_avail (pm s) = A - tables s" "tables s \<subseteq> A"
    "outside (A) r (ram (mach s))"
    using st unfolding settled_def boot_map_def by simp_all
  show fr: "frames s = A" using s(4-6) by (auto simp: frames_def)
  have out: "unat a \<notin> ?K" if "a \<in> A" for a using reserved_not_free(1) [OF ctx that] .
  have guards: "guard_pages L ?info = {stack_base ?info - 4096, stack_base ?info + stack_size ?info,
      double_fault_guard_low L, double_fault_guard_high L}"
  proof -
    have al: "page_aligned (stack_base ?info - 4096)" "page_aligned (stack_base ?info + stack_size ?info)"
      "page_aligned (double_fault_guard_low L)" "page_aligned (double_fault_guard_high L)"
      using pl page_aligned_arith(2) [of "stack_base ?info" 4096] page_aligned_arith(1) [of "stack_base ?info" "stack_size ?info"]
      by (auto simp: placed_well_def Let_def page_aligned_unat [of 4096])
    show ?thesis unfolding guard_pages_def using al by (simp only: page_base image_insert image_empty)
  qed
  have "writable (section_mapping L a) \<and> frame_of (section_mapping L a) = a \<and> a \<notin> guard_pages L ?info"
    if a: "a \<in> A" for a
    using out [OF a] pl a unfolding guards
    by (auto simp: placed_well_def Let_def section_mapping_def word_le_nat_alt word_less_nat_alt subset_iff)
  then have id: "\<forall>a \<in> frames s. \<exists>mp. vmap s a = Some mp \<and> frame_of mp = a \<and> writable mp"
    using R s(3) unfolding fr by auto
  have "boot_ram r ?info \<subseteq> Collect frame_addr" by (auto simp: boot_ram_def desc_frames_def split: if_splits)
  then have "\<forall>v. window v \<longrightarrow> vmap s v = None" using s(3) frame_not_window by auto
  then show "\<exists>f0. start s f0" using s(1,2) id by (auto simp: start_def vm_inv_def)
  show info: "load_BOOT_INFO (ram (mach s)) p = ?info" using s(7) by (rule boot_info_stable [OF ctx]) simp
  show "check_setting L p s"
    unfolding check_setting_def fr info using info_word_reserved [OF ctx p] out pl
    by (auto simp: placed_well_def Let_def)
qed

lemma settled_check:
  assumes ctx: "boot_ctx r p A" "A \<subseteq> boot_ram r (load_BOOT_INFO r p)" and st: "settled L p r A s"
    and pl: "aligned8 p" "placed_well L (load_BOOT_INFO r p) A"
    and room: "6 \<le> card (pmm_avail (pm s))" "card (tables s) + 4 \<le> 4096"
  shows "\<exists>s'. paging_boot_check L p s = Some (True, s') \<and> settled L p r A s' \<and> vmap s' = vmap s
    \<and> tables s' = tables s \<and> pmm_used (pm s') = pmm_used (pm s) \<and> pmm_avail (pm s') = pmm_avail (pm s)
    \<and> same_io (mach s) (mach s')"
proof -
  note b = boot_start [OF ctx st pl]
  obtain f0 where f0: "start s f0" using b(1) by blast
  obtain s' where s': "paging_boot_check L p s = Some (True, s')" "vm_inv s'" "running s'" "vmap s' = vmap s"
    "tables s' = tables s" "pmm_used (pm s') = pmm_used (pm s)" "pmm_avail (pm s') = pmm_avail (pm s)"
    "cr0 (mach s') = cr0 (mach s)" "outside (frames s) (ram (mach s)) (ram (mach s'))" "same_io (mach s) (mach s')"
    using boot_check_passes [OF f0 b(2) room] by blast
  have "outside A r (ram (mach s))" using st by (simp add: settled_def)
  from outside_trans [OF this s'(9)] have "outside A r (ram (mach s'))" using b(3) by simp
  then have "settled L p r A s'" using st s' by (simp add: settled_def boot_map_def)
  then show ?thesis using s' by blast
qed


lemma init_success:
  assumes free: "boot_free (ram m) p pm0" and run: "paging_init L p (paging_bss m pm0) = Some (True, s)"
  shows "settled L p (ram m) (pmm_avail pm0) s" and "same_io m (mach s)" and "boot_ctx (ram m) p (pmm_avail pm0)"
    and "pmm_avail pm0 \<subseteq> boot_ram (ram m) (load_BOOT_INFO (ram m) p)"
proof -
  have bm: "boot_mapped L p m pm0 s" using paging_init_result [OF free, of L] run by auto
  have "supported_cpu_state (cr4 m) m" using paging_init_early [OF free, of L] run by auto
  then have "\<not> bit (rflags m) 9"
    using bit9_iff [of "rflags m"] by (auto simp: supported_cpu_state_def Let_def x86_read_rflags_def split: if_splits)
  then show "settled L p (ram m) (pmm_avail pm0) s" "same_io m (mach s)"
    using bm unfolding boot_mapped_def Let_def settled_def boot_map_def running_def by simp_all
  show "boot_ctx (ram m) p (pmm_avail pm0)" "pmm_avail pm0 \<subseteq> boot_ram (ram m) (load_BOOT_INFO (ram m) p)"
    using free by (simp_all add: boot_free_def)
qed

text \<open>
  C37: The self-test of the page tables passes after every successful initialisation with at least
  six free frames and four free table slots: \<open>paging_boot_check\<close> returns (no access it makes
  faults, its loops end) with true, and afterwards all translations, the page tables, the frames in use and the
  free frames are as before. The linker script and the loader are assumed to place the sections and
  guards as \<open>placed_well\<close> says.
\<close>

theorem paging_boot_check_passes:
  assumes "pmm_init (ram m) p pmm_bss = (True, pm0)" and "paging_init L p (paging_bss m pm0) = Some (True, s)"
    and "aligned8 p" and "placed_well L (load_BOOT_INFO (ram m) p) (pmm_avail pm0)"
    and "6 \<le> card (pmm_avail (pm s))" and "card (tables s) + 4 \<le> 4096"
  shows "\<exists>s'. paging_boot_check L p s = Some (True, s') \<and> vm_inv s' \<and> vmap s' = vmap s
    \<and> tables s' = tables s \<and> pmm_used (pm s') = pmm_used (pm s) \<and> pmm_avail (pm s') = pmm_avail (pm s)"
proof -
  note ok = init_success [OF boot_free_init [OF assms(1)] assms(2)]
  from settled_check [OF ok(3,4,1) assms(3-6)] show ?thesis by (auto simp: settled_def boot_map_def)
qed

context live_map
begin

lemma placed: "placed_well live_layout live_info (pmm_avail (live_pmm_of m))"
proof -
  have "a \<notin> pmm_avail (live_pmm_of m)" if "unat a < 0x140000" for a
    using that unat_frame unfolding avail(1) by auto
  then show ?thesis
    by (auto simp: placed_well_def Let_def live_layout_def live_info_def page_aligned_unat)
qed

end

lemma live_placed: "placed_well live_layout live_info (pmm_avail live_pmm)" "aligned8 0x110000"
  using live.placed by (simp_all add: live_pmm_def aligned8_def)

lemma live_state: "card (tables live_paging) + 4 \<le> 4096" "6 \<le> card (pmm_avail (pm live_paging))"
proof -
  note init_success(1) [OF live_free live_boots(1)]
  then have "pmm_avail (pm live_paging) = pmm_avail live_pmm - tables live_paging" by (simp add: settled_def)
  then show "card (tables live_paging) + 4 \<le> 4096" "6 \<le> card (pmm_avail (pm live_paging))"
    using live_boots(2) live_avail(2) diff_card_le_card_Diff [of "tables live_paging" "pmm_avail live_pmm"] by simp_all
qed

theorem paging_boot_check_passes_witness:
  "\<exists>s'. paging_boot_check live_layout 0x110000 live_paging = Some (True, s') \<and> vm_inv s' \<and> vmap s' = vmap live_paging
    \<and> tables s' = tables live_paging \<and> pmm_used (pm s') = pmm_used (pm live_paging)
    \<and> pmm_avail (pm s') = pmm_avail (pm live_paging)"
  by (rule paging_boot_check_passes [OF live_init_facts(1) live_boots(1) live_placed(2) _ live_state(2,1)])
    (simp add: live_init_facts(3) live.info live_placed(1))

end
