(* ===== verification/PagingFixtures.thy ===== *)
theory PagingFixtures
  imports PagingCheckProps
begin

text \<open>
  The protection fixtures of the self-test: each ends in the page fault it provokes, at the
  address it touches. A fixture that reads, writes or executes what it should not be able to would
  spin in \<open>check_failed\<close> instead.
\<close>

section \<open>Accesses at any address\<close>

lemma vpage_start: "canonical a \<Longrightarrow> vpage (page_start a)"
proof -
  assume a: "canonical a"
  have al: "page_aligned (page_start a)" unfolding page_start_def by (rule base_aligned)
  have "unat (page_start a) = unat a - unat a mod 4096"
  proof -
    have "unat (take_bit 12 a) = unat a mod 4096" by (simp add: take_bit_eq_mod unat_mod)
    moreover have "page_start a = a - take_bit 12 a" using page_offset [of a] by (simp add: eq_diff_eq)
    ultimately show ?thesis by (simp add: unat_sub word_le_nat_alt)
  qed
  moreover have "0xffff800000000000 \<le> unat a - unat a mod 4096" if "0xffff800000000000 \<le> unat a"
    using div_le_mono [OF that, of 4096] by (simp add: minus_mod_eq_div_mult)
  ultimately show ?thesis using a al unfolding vpage_def canonical_def by (auto simp: word_le_nat_alt word_less_nat_alt)
qed

lemma access_any:
  assumes "vm_inv s" and "running s"
  shows "access allowed a s = (if \<not> canonical a then None else case vmap s (page_start a) of None \<Rightarrow> None
    | Some mp \<Rightarrow> if allowed mp then Some (frame_of mp + (a AND 4095), s\<lparr>mach := warm a (mach s)\<rparr>) else None)"
proof (cases "canonical a")
  case True
  obtain f where "vm_tree s f" using assms(1) by (auto simp: vm_inv_def)
  then show ?thesis using page_mapping_vmap [OF _ assms(2) True vpage_start [OF True]] True
    by (simp add: access_def split: option.split)
qed (simp add: access_def page_mapping_def)

text \<open>A cached translation is used whatever has become of memory since.\<close>

lemma page_mapping_cached:
  assumes "vm_inv s" and "running s"
  shows "page_mapping ((warm a (mach s))\<lparr>ram := r\<rparr>) a = page_mapping (mach s) a"
proof -
  obtain f where "vm_tree s f" using assms(1) by (auto simp: vm_inv_def)
  then have "translate (ram (mach s)) (cr3 (mach s)) w = decode (pte (ram (mach s)) (cr3 (mach s)) w)" for w
    using translate_pte [of "ram (mach s)" "paging_root s" "tables s" f w] assms(2)
    by (simp add: vm_tree_def pt_inv_def running_def)
  then show ?thesis by (simp add: page_mapping_def warm_def split: option.split)
qed

lemma no_execute_faults:
  assumes "vm_inv s" and "running s" and nx: "\<And>mp. vmap s (page_start a) = Some mp \<Longrightarrow> \<not> executable mp"
  shows "paging_test_data_exec a s = Faults a" and "paging_test_stack_exec a s = Faults a"
proof -
  note acc = access_any [OF assms(1,2), of _ a]
  have none: "access executable a s = None" using nx acc by (simp split: option.split)
  then show "paging_test_data_exec a s = Faults a" by (simp add: paging_test_data_exec_def call_at_def)
  have "access executable a (s\<lparr>mach := (warm a (mach s))\<lparr>ram := r\<rparr>\<rparr>) = None" for r
    using none page_mapping_cached [OF assms(1,2), where a = a and r = r] by (auto simp: access_def split: option.splits if_splits)
  then show "paging_test_stack_exec a s = Faults a"
    using acc [of "may_write (mach s)"]
    by (auto simp: paging_test_stack_exec_def call_at_def store_byte_at_def split: option.split)
qed

lemma read_only_faults:
  assumes "vm_inv s" and "running s" and "bit (cr0 (mach s)) 16"
    and "\<And>mp. vmap s (page_start a) = Some mp \<Longrightarrow> \<not> writable mp"
  shows "write_byte_fixture a s = Faults a"
  using access_any [OF assms(1,2), of _ a] assms(3,4)
  by (simp add: write_byte_fixture_def store_byte_at_def may_write_def split: option.split)

lemma unmapped_faults:
  assumes "vm_inv s" and "running s" and "vmap s (page_start a) = None"
  shows "read_or_fault a k s = Faults a"
  using access_any [OF assms(1,2), of _ a] assms(3) by (simp add: read_or_fault_def)


section \<open>Fixtures on the sections and guards\<close>

definition in_text :: "layout \<Rightarrow> u64 \<Rightarrow> bool" where
  "in_text L a \<longleftrightarrow> kernel_text_start L \<le> a \<and> a < kernel_text_end L"

lemma section_fixtures:
  assumes bm: "boot_map L info R s"
  shows "page_aligned (kernel_text_start L) \<Longrightarrow> kernel_text_start L < kernel_text_end L \<Longrightarrow>
      paging_test_text_write L s = Faults (kernel_text_start L)"
    and "page_aligned (kernel_rodata_start L) \<Longrightarrow> kernel_rodata_start L < kernel_rodata_end L \<Longrightarrow>
      paging_test_rodata_write L s = Faults (kernel_rodata_start L)"
    and "\<not> in_text L (page_start a) \<Longrightarrow> paging_test_data_exec a s = Faults a"
    and "\<not> in_text L (page_start a) \<Longrightarrow> paging_test_stack_exec a s = Faults a"
proof -
  have inv: "vm_inv s" "running s" "bit (cr0 (mach s)) 16"
    and map: "\<And>w mp. vmap s w = Some mp \<Longrightarrow> mp = section_mapping L w"
    using bm by (auto simp: boot_map_def split: if_splits)
  show "paging_test_text_write L s = Faults (kernel_text_start L)"
    if "page_aligned (kernel_text_start L)" "kernel_text_start L < kernel_text_end L"
    unfolding paging_test_text_write_def using that page_start_aligned
    by (intro read_only_faults [OF inv]) (auto dest!: map simp: section_mapping_def)
  show "paging_test_rodata_write L s = Faults (kernel_rodata_start L)"
    if "page_aligned (kernel_rodata_start L)" "kernel_rodata_start L < kernel_rodata_end L"
    unfolding paging_test_rodata_write_def using that page_start_aligned
    by (intro read_only_faults [OF inv]) (auto dest!: map simp: section_mapping_def)
  assume "\<not> in_text L (page_start a)"
  then have "\<not> executable mp" if "vmap s (page_start a) = Some mp" for mp
    using map [OF that] by (auto simp: section_mapping_def in_text_def)
  then show "paging_test_data_exec a s = Faults a" "paging_test_stack_exec a s = Faults a"
    using no_execute_faults [OF inv(1,2), of a] by blast+
qed

lemma guard_fixtures:
  assumes bm: "boot_map L info R s" and info: "load_BOOT_INFO (ram (mach s)) p = info"
  shows "paging_test_stack_low p s = Faults (stack_base info - 4096)"
    and "paging_test_stack_high p s = Faults (stack_base info + stack_size info)"
    and "paging_test_df_low L s = Faults (double_fault_guard_low L)"
    and "paging_test_df_high L s = Faults (double_fault_guard_high L)"
proof -
  have g: "vmap s (page_start a) = None"
    if "a \<in> {stack_base info - 4096, stack_base info + stack_size info, double_fault_guard_low L, double_fault_guard_high L}" for a
  proof -
    have "page_start a \<in> guard_pages L info" unfolding guard_pages_def page_start_def using that by (rule imageI)
    then show ?thesis using bm by (simp add: boot_map_def)
  qed
  have inv: "vm_inv s" "running s" using bm by (simp_all add: boot_map_def)
  show "paging_test_stack_low p s = Faults (stack_base info - 4096)"
    "paging_test_stack_high p s = Faults (stack_base info + stack_size info)"
    "paging_test_df_low L s = Faults (double_fault_guard_low L)"
    "paging_test_df_high L s = Faults (double_fault_guard_high L)"
    unfolding paging_test_stack_low_def paging_test_stack_high_def paging_test_df_low_def paging_test_df_high_def info Let_def
    by (rule unmapped_faults [OF inv g], simp)+
qed


section \<open>Fixtures on a page of the window\<close>

text \<open>The window holds one page; \<open>fault_check\<close> owns its frame \<open>p\<close>.\<close>

abbreviation one_page :: "u64 \<Rightarrow> u32 \<Rightarrow> (u64 \<rightharpoonup> mapping)" where
  "one_page p fl \<equiv> [PAGING_DYNAMIC_BASE \<mapsto> make_mapping p fl]"

lemma sits_page_access:
  assumes start: "start s0 f0" and s: "sits s0 f0 B D c s"
  shows "access allowed PAGING_DYNAMIC_BASE s = (case B PAGING_DYNAMIC_BASE of None \<Rightarrow> None
    | Some mp \<Rightarrow> if allowed mp then Some (frame_of mp, s\<lparr>mach := warm PAGING_DYNAMIC_BASE (mach s)\<rparr>) else None)"
proof -
  obtain f where f: "vm_tree s f" "running s" by (rule sits_tree [OF s])
  show ?thesis
    using access_eq [OF f window_vpage [OF window_pages(1)]] sits_window [OF start s window_pages(1)] by simp
qed

lemma fault_check_map:
  assumes start: "start s0 f0" and room: "4 \<le> card (pmm_avail (pm s0))" "card (tables s0) + 3 \<le> 4096"
  obtains p s1 s2 s3 D c where "alloc_page s0 = (Some p, s1)" "paging_map PAGING_DYNAMIC_BASE p PAGING_WRITE s1 = (True, s2)"
    "store_at PAGING_DYNAMIC_BASE 0xc3 s2 = Some s3" "sits s0 f0 (one_page p 1) D c s3" "p \<in> D" "c p = 0xc3"
proof -
  let ?v = PAGING_DYNAMIC_BASE
  note st = sits_start [OF start]
  have "pmm_avail (pm s0) \<noteq> {}" using room(1) by auto
  then obtain p s1 c1 where p: "alloc_page s0 = (Some p, s1)" "p \<notin> pmm_used (pm s0) - tables s0"
    "sits s0 f0 Map.empty (insert p (pmm_used (pm s0) - tables s0)) c1 s1"
    using sits_alloc [OF start st] by metis
  let ?D = "insert p (pmm_used (pm s0) - tables s0)"
  have "card ?D = Suc (card (pmm_used (pm s0) - tables s0))" using p(2) by simp
  then have "room s0 {?v} ?D"
    using sits_avail(1) [OF start st] room window_tables by (simp add: room_def)
  then obtain s2 where s2: "paging_map ?v p PAGING_WRITE s1 = (True, s2)" "sits s0 f0 (one_page p 1) ?D c1 s2"
    using map_passes [OF start, of Map.empty ?v 1 p ?D c1] window_pages(1) p(3) by (auto simp: passes_def succeeds_def)
  have "sees s0 (one_page p 1) ?v p" "may_store s0 (one_page p 1) ?v" using window_pages(1) by (simp_all add: sees_def may_store_def)
  then obtain s3 where "store_at ?v 0xc3 s2 = Some s3" "sits s0 f0 (one_page p 1) ?D (c1(p := 0xc3)) s3"
    using sits_stores [OF start s2(2)] by blast
  then show thesis using that [of p s1 s2 s3 ?D "c1(p := 0xc3)"] p(1) s2(1) by simp
qed

lemma protect_page:
  assumes start: "start s0 f0" and s: "sits s0 f0 (one_page p x) D c s" and fl: "valid_flags fl"
  obtains s' where "paging_protect PAGING_DYNAMIC_BASE fl s = (True, s')" "sits s0 f0 (one_page p fl) D c s'"
  using protect_passes [OF start window_pages(1), where B = "one_page p x" and mp = "make_mapping p x" and fl = fl
    and D = D and c = c]
    s fl by (auto simp: passes_def succeeds_def)

lemma byte_of_word:
  assumes "load64 m a = 0xc3"
  shows "m a = 0xc3"
proof -
  have "load64 m a = load64 (store64 a 0xc3 m) a" using assms by simp
  from load64_byte [OF this, of 0] show ?thesis by (simp add: store64_def store_le_def)
qed

lemma valid_flags_2 [simp]: "valid_flags 2"
  by (simp add: valid_flags_def)

lemma fault_check_faults:
  assumes start: "start s0 f0" and room: "4 \<le> card (pmm_avail (pm s0))" "card (tables s0) + 3 \<le> 4096"
    and wp: "bit (cr0 (mach s0)) 16"
  shows "fault_check mode s0 = Faults PAGING_DYNAMIC_BASE"
proof -
  let ?v = PAGING_DYNAMIC_BASE
  obtain p s1 s2 s3 D c where run: "alloc_page s0 = (Some p, s1)" "paging_map ?v p PAGING_WRITE s1 = (True, s2)"
    "store_at ?v 0xc3 s2 = Some s3" and s3: "sits s0 f0 (one_page p 1) D c s3" and p: "p \<in> D" "c p = 0xc3"
    by (rule fault_check_map [OF start room])
  note acc = sits_page_access [OF start]
  have ro: "store_at ?v x s = None" if "sits s0 f0 (one_page p 0) D c s" for s x
    using acc [OF that, of "may_write (mach s)"] that wp
    by (simp add: store_at_def may_write_def make_mapping_def sits_def)
  have nx: "call_at ?v k s = Faults ?v" if "sits s0 f0 (one_page p 0) D c s" for s k
    using acc [OF that, of executable] by (simp add: call_at_def make_mapping_def)
  have ex: "\<exists>s'. call_at ?v k s = k s' \<and> sits s0 f0 (one_page p 2) D c s'" if s: "sits s0 f0 (one_page p 2) D c s" for s k
  proof -
    note w = sits_warm [OF s window_vpage [OF window_pages(1)]]
    then have "ram (mach (s\<lparr>mach := warm ?v (mach s)\<rparr>)) p = 0xc3" using p by (intro byte_of_word) (auto simp: sits_def)
    then show ?thesis using w acc [OF s, of executable] by (auto simp: call_at_def make_mapping_def)
  qed
  obtain s4 where r0: "paging_protect ?v 0 s3 = (True, s4)" "sits s0 f0 (one_page p 0) D c s4"
    by (rule protect_page [OF start s3 valid_flags_01(1)])
  obtain s5 where r1: "paging_protect ?v PAGING_EXEC s3 = (True, s5)" "sits s0 f0 (one_page p 2) D c s5"
    by (rule protect_page [OF start s3 valid_flags_2])
  obtain s6 where r2: "paging_unmap ?v s3 = (True, s6)" "sits s0 f0 Map.empty D c s6"
    using unmap_passes [OF start window_pages(1), of "one_page p 1" D c] s3 by (auto simp: passes_def succeeds_def)
  have "read_or_fault ?v k s6 = Faults ?v" for k using acc [OF r2(2)] by (simp add: read_or_fault_def)
  moreover have "call_at ?v (\<lambda>s. case paging_protect ?v 0 s of (r, s) \<Rightarrow>
      if \<not> r then check_failed s else call_at ?v check_failed s) s5 = Faults ?v" (is "call_at ?v ?k s5 = _")
  proof -
    obtain s' where s': "call_at ?v ?k s5 = ?k s'" "sits s0 f0 (one_page p 2) D c s'" using ex [OF r1(2)] by blast
    obtain s'' where "paging_protect ?v 0 s' = (True, s'')" "sits s0 f0 (one_page p 0) D c s''"
      by (rule protect_page [OF start s'(2) valid_flags_01(1)])
    then show ?thesis using s'(1) nx by simp
  qed
  ultimately show ?thesis
    using run r0 r1 r2 ro [OF r0(2)] by (simp add: fault_check_def store_or_fault_def)
qed


section \<open>Property\<close>

text \<open>
  C38: Every protection fixture faults where it should, in the state that a successful
  initialisation and self-test leave: writing the first byte of the text or of the read-only data,
  executing a byte outside the text (in the data, or on the stack after writing it there), reading
  any of the four guard pages, and writing a page of the window after write access has been
  revoked, executing it after execute access has been revoked (having executed it before), or
  reading it after it has been unmapped, although the processor had cached the old translation.
\<close>

theorem protection_fixtures_fault:
  assumes "pmm_init (ram m) p pmm_bss = (True, pm0)" and "paging_init L p (paging_bss m pm0) = Some (True, s)"
    and "aligned8 p" and "placed_well L (load_BOOT_INFO (ram m) p) (pmm_avail pm0)"
    and "6 \<le> card (pmm_avail (pm s))" and "card (tables s) + 4 \<le> 4096"
    and "kernel_text_start L < kernel_text_end L" and "kernel_rodata_start L < kernel_rodata_end L"
    and "\<not> in_text L (page_start nx_data)" and "\<not> in_text L (page_start code)"
  defines "info \<equiv> load_BOOT_INFO (ram m) p"
  shows "\<exists>s'. paging_boot_check L p s = Some (True, s')
    \<and> paging_test_readonly s' = Faults PAGING_DYNAMIC_BASE
    \<and> paging_test_nx s' = Faults PAGING_DYNAMIC_BASE
    \<and> paging_test_unmapped s' = Faults PAGING_DYNAMIC_BASE
    \<and> paging_test_text_write L s' = Faults (kernel_text_start L)
    \<and> paging_test_rodata_write L s' = Faults (kernel_rodata_start L)
    \<and> paging_test_data_exec nx_data s' = Faults nx_data
    \<and> paging_test_stack_exec code s' = Faults code
    \<and> paging_test_stack_low p s' = Faults (stack_base info - 4096)
    \<and> paging_test_stack_high p s' = Faults (stack_base info + stack_size info)
    \<and> paging_test_df_low L s' = Faults (double_fault_guard_low L)
    \<and> paging_test_df_high L s' = Faults (double_fault_guard_high L)"
proof -
  note ok = init_success [OF boot_free_init [OF assms(1)] assms(2)]
  obtain s' where chk: "paging_boot_check L p s = Some (True, s')" and st: "settled L p (ram m) (pmm_avail pm0) s'"
    and same: "tables s' = tables s" "pmm_avail (pm s') = pmm_avail (pm s)"
    using settled_check [OF ok(3,4,1) assms(3-6)] by blast
  note b = boot_start [OF ok(3,4) st assms(3,4), folded info_def]
  have bm: "boot_map L info (boot_ram (ram m) info) s'" using st by (simp add: settled_def info_def)
  obtain f where f: "start s' f" using b(1) by blast
  have "bit (cr0 (mach s')) 16" using bm by (simp add: boot_map_def)
  then have dyn: "fault_check mode s' = Faults PAGING_DYNAMIC_BASE" for mode
    using fault_check_faults [OF f] same assms(5,6) by simp
  have al: "page_aligned (kernel_text_start L)" "page_aligned (kernel_rodata_start L)"
    using assms(4) by (simp_all add: placed_well_def Let_def)
  show ?thesis
    unfolding paging_test_readonly_def paging_test_nx_def paging_test_unmapped_def
    using chk dyn section_fixtures [OF bm] guard_fixtures [OF bm b(4)] al assms(7-10) by blast
qed

theorem protection_fixtures_fault_witness:
  "\<exists>s'. paging_boot_check live_layout 0x110000 live_paging = Some (True, s')
    \<and> paging_test_readonly s' = Faults PAGING_DYNAMIC_BASE
    \<and> paging_test_nx s' = Faults PAGING_DYNAMIC_BASE
    \<and> paging_test_unmapped s' = Faults PAGING_DYNAMIC_BASE
    \<and> paging_test_text_write live_layout s' = Faults 0x100000
    \<and> paging_test_rodata_write live_layout s' = Faults 0x102000
    \<and> paging_test_data_exec 0x103008 s' = Faults 0x103008
    \<and> paging_test_stack_exec 0x131ff8 s' = Faults 0x131ff8
    \<and> paging_test_stack_low 0x110000 s' = Faults 0x121000
    \<and> paging_test_stack_high 0x110000 s' = Faults 0x132000
    \<and> paging_test_df_low live_layout s' = Faults 0x104000
    \<and> paging_test_df_high live_layout s' = Faults 0x107000"
proof -
  have "\<not> in_text live_layout (page_start 0x103008)" "\<not> in_text live_layout (page_start 0x131ff8)"
    by (simp_all add: in_text_def live_layout_def page_start_def)
  from protection_fixtures_fault [OF live_init_facts(1) live_boots(1) live_placed(2) _ live_state(2,1) _ _ this]
  show ?thesis
    by (simp add: live_init_facts(3) live.info live_placed(1)) (simp add: live_layout_def live_info_def)
qed

end
