(* ===== verification/RxBuffer.thy ===== *)
theory RxBuffer
  imports Prelude
begin

text \<open>
  The receive ring buffer of \<open>kernel/rx_buffer.c\<close>. \<open>RX_BUFFER\<close> is the C struct; an
  out parameter is passed by value and returned. The contract is stated as the locale
  \<open>lossy_queue\<close> over an abstract view \<open>rx_view\<close>: a queue of at most 255 bytes, or
  \<open>Lost\<close> when input was lost and the loss has not been reported yet.
\<close>

abbreviation (input) RX_CAPACITY :: nat where
  "RX_CAPACITY \<equiv> 256"

record RX_BUFFER =
  data :: "u8 list"
  head :: u32
  tail :: u32
  failed :: bool

definition rx_reset :: "RX_BUFFER \<Rightarrow> RX_BUFFER" where
  "rx_reset buffer = buffer\<lparr>head := 0, tail := 0, failed := False\<rparr>"

definition rx_fail :: "RX_BUFFER \<Rightarrow> RX_BUFFER" where
  "rx_fail buffer = buffer\<lparr>head := 0, tail := 0, failed := True\<rparr>"

definition rx_push :: "RX_BUFFER \<Rightarrow> u8 \<Rightarrow> bool \<times> RX_BUFFER" where
  "rx_push buffer byte =
     (if failed buffer then (False, buffer)
      else let nxt = (head buffer + 1) mod of_nat RX_CAPACITY in
        if nxt = tail buffer then (False, rx_fail buffer)
        else (True, buffer\<lparr>data := (data buffer)[unat (head buffer) := byte], head := nxt\<rparr>))"

text \<open>\<open>int rx_read(RX_BUFFER *, uint8_t *byte)\<close>: the result code, \<open>*byte\<close> afterwards, the buffer.\<close>

definition rx_read :: "RX_BUFFER \<Rightarrow> u8 \<Rightarrow> int \<times> u8 \<times> RX_BUFFER" where
  "rx_read buffer byte =
     (if failed buffer then (- 1, byte, rx_reset buffer)
      else if head buffer = tail buffer then (0, byte, buffer)
      else (1, data buffer ! unat (tail buffer),
            buffer\<lparr>tail := (tail buffer + 1) mod of_nat RX_CAPACITY\<rparr>))"

text \<open>The shape every buffer has between calls: the array size and indices inside it.\<close>

definition rx_wf :: "RX_BUFFER \<Rightarrow> bool" where
  "rx_wf b \<longleftrightarrow> length (data b) = RX_CAPACITY
     \<and> unat (head b) < RX_CAPACITY \<and> unat (tail b) < RX_CAPACITY"

definition rx_count :: "RX_BUFFER \<Rightarrow> nat" where
  "rx_count b = (unat (head b) + RX_CAPACITY - unat (tail b)) mod RX_CAPACITY"

definition rx_contents :: "RX_BUFFER \<Rightarrow> u8 list" where
  "rx_contents b =
     map (\<lambda>k. data b ! ((unat (tail b) + k) mod RX_CAPACITY)) [0..<rx_count b]"

datatype rx_view = Lost | Queued "u8 list"

definition rx_view_of :: "RX_BUFFER \<Rightarrow> rx_view" where
  "rx_view_of b = (if failed b then Lost else Queued (rx_contents b))"

fun view_push :: "rx_view \<Rightarrow> u8 \<Rightarrow> bool \<times> rx_view" where
  "view_push Lost x = (False, Lost)"
| "view_push (Queued xs) x =
     (if length xs = 255 then (False, Lost) else (True, Queued (xs @ [x])))"

fun view_read :: "rx_view \<Rightarrow> u8 \<Rightarrow> int \<times> u8 \<times> rx_view" where
  "view_read Lost y = (- 1, y, Queued [])"
| "view_read (Queued []) y = (0, y, Queued [])"
| "view_read (Queued (x # xs)) y = (1, x, Queued xs)"

text \<open>Clients of the interface: a burst of arrivals, and reading until no byte is returned.\<close>

primrec push_all :: "('q \<Rightarrow> u8 \<Rightarrow> bool \<times> 'q) \<Rightarrow> 'q \<Rightarrow> u8 list \<Rightarrow> 'q" where
  "push_all push q [] = q"
| "push_all push q (x # xs) = push_all push (snd (push q x)) xs"

primrec drain :: "('q \<Rightarrow> u8 \<Rightarrow> int \<times> u8 \<times> 'q) \<Rightarrow> nat \<Rightarrow> 'q \<Rightarrow> u8 list \<times> 'q" where
  "drain read 0 q = ([], q)"
| "drain read (Suc n) q =
     (case read q 0 of (st, x, q') \<Rightarrow>
        if st = 1 then map_prod ((#) x) id (drain read n q') else ([], q))"


section \<open>The interface as a locale\<close>

locale lossy_queue =
  fixes push :: "'q \<Rightarrow> u8 \<Rightarrow> bool \<times> 'q"
    and read :: "'q \<Rightarrow> u8 \<Rightarrow> int \<times> u8 \<times> 'q"
    and reset :: "'q \<Rightarrow> 'q"
    and fail :: "'q \<Rightarrow> 'q"
    and view :: "'q \<Rightarrow> rx_view"
    and wf :: "'q \<Rightarrow> bool"
  assumes push_view: "wf q \<Longrightarrow> map_prod id view (push q x) = view_push (view q) x"
    and read_view: "wf q \<Longrightarrow> map_prod id (map_prod id view) (read q y) = view_read (view q) y"
    and reset_view: "wf q \<Longrightarrow> view (reset q) = Queued []"
    and fail_view: "wf q \<Longrightarrow> view (fail q) = Lost"
    and push_wf: "wf q \<Longrightarrow> wf (snd (push q x))"
    and read_wf: "wf q \<Longrightarrow> wf (snd (snd (read q y)))"
    and reset_wf: "wf q \<Longrightarrow> wf (reset q)"
    and fail_wf: "wf q \<Longrightarrow> wf (fail q)"
begin

lemma push_cases:
  assumes "wf q"
  shows "fst (push q x) = fst (view_push (view q) x)"
    and "view (snd (push q x)) = snd (view_push (view q) x)"
  using push_view [OF assms, of x] by (auto simp: prod_eq_iff)

lemma push_all_view:
  "wf q \<Longrightarrow> view q = Queued ys \<Longrightarrow> length ys + length xs \<le> 255 \<Longrightarrow>
   wf (push_all push q xs) \<and> view (push_all push q xs) = Queued (ys @ xs)"
  by (induction xs arbitrary: q ys) (simp_all add: push_wf push_cases)

lemma push_all_lost:
  "wf q \<Longrightarrow> view q = Lost \<Longrightarrow> wf (push_all push q xs) \<and> view (push_all push q xs) = Lost"
  by (induction xs arbitrary: q) (simp_all add: push_wf push_cases)

lemma push_all_overflow:
  "wf q \<Longrightarrow> view q = Queued ys \<Longrightarrow> 255 < length ys + length xs \<Longrightarrow> length ys \<le> 255 \<Longrightarrow>
   wf (push_all push q xs) \<and> view (push_all push q xs) = Lost"
proof (induction xs arbitrary: q ys)
  case Nil
  then show ?case by simp
next
  case (Cons x xs)
  show ?case
  proof (cases "length ys = 255")
    case True
    with Cons.prems show ?thesis by (simp add: push_wf push_cases push_all_lost)
  next
    case False
    with Cons.prems have "view (snd (push q x)) = Queued (ys @ [x])" by (simp add: push_cases)
    with Cons.IH [of "snd (push q x)" "ys @ [x]"] Cons.prems False show ?thesis
      by (simp add: push_wf)
  qed
qed

lemma drain_view:
  "wf q \<Longrightarrow> view q = Queued xs \<Longrightarrow> length xs \<le> n \<Longrightarrow>
   fst (drain read n q) = xs \<and> wf (snd (drain read n q)) \<and> view (snd (drain read n q)) = Queued []"
proof (induction n arbitrary: q xs)
  case 0
  then show ?case by simp
next
  case (Suc n)
  obtain st y q' where r: "read q 0 = (st, y, q')" by (cases "read q 0") auto
  then have wf': "wf q'" using read_wf [OF Suc.prems(1), of 0] by simp
  have v: "(st, y, view q') = view_read (Queued xs) 0"
    using read_view [OF Suc.prems(1), of 0] r Suc.prems(2) by simp
  show ?case
  proof (cases xs)
    case Nil
    with v r Suc.prems show ?thesis by simp
  next
    case (Cons z zs)
    with v have "st = 1" "y = z" "view q' = Queued zs" by simp_all
    with Suc.IH [of q' zs] wf' r Cons Suc.prems show ?thesis by simp
  qed
qed

text \<open>First in, first out, for every burst that fits.\<close>

lemma fifo:
  assumes "wf q" and "view q = Queued []" and "length xs \<le> 255"
  shows "fst (drain read 255 (push_all push q xs)) = xs"
  using push_all_view [OF assms(1,2), of xs] drain_view [of "push_all push q xs" xs 255] assms(3)
  by simp

end


section \<open>The ring buffer implements the interface\<close>

lemma unat_ring_succ: "unat ((i + 1) mod 256 :: u32) = (unat i + 1) mod 256"
proof -
  have "unat ((i + 1) mod 256) = unat (i + 1) mod 256" by (simp add: unat_mod)
  also have "\<dots> = ((unat i + 1) mod 2 ^ 32) mod 256" by (simp add: unat_word_ariths)
  also have "\<dots> = (unat i + 1) mod 256" by (rule mod_mod_cancel) simp
  finally show ?thesis .
qed

lemma rx_count_eq:
  "rx_wf b \<Longrightarrow> rx_count b =
     (if tail b \<le> head b then unat (head b) - unat (tail b)
      else unat (head b) + 256 - unat (tail b))"
  by (auto simp: rx_count_def rx_wf_def word_le_nat_alt mod_if)

lemma rx_count_le: "rx_wf b \<Longrightarrow> rx_count b \<le> 255"
  by (auto simp: rx_count_eq rx_wf_def word_le_nat_alt)

lemma rx_full_iff:
  "rx_wf b \<Longrightarrow> (head b + 1) mod 256 = tail b \<longleftrightarrow> rx_count b = 255"
  by (auto simp: rx_count_eq rx_wf_def word_le_nat_alt word_unat_eq_iff unat_ring_succ mod_if)

lemma rx_empty_iff: "rx_wf b \<Longrightarrow> head b = tail b \<longleftrightarrow> rx_count b = 0"
  by (auto simp: rx_count_eq rx_wf_def word_le_nat_alt word_unat_eq_iff)

lemma length_rx_contents [simp]: "length (rx_contents b) = rx_count b"
  by (simp add: rx_contents_def)

lemma ring_index_neq:
  fixes t h k :: nat
  assumes "t < 256" and "h < 256" and "k < (h + 256 - t) mod 256"
  shows "(t + k) mod 256 \<noteq> h"
proof (cases "t \<le> h")
  case True
  then have "(h + 256 - t) mod 256 = h - t" using assms(1,2) by (simp add: mod_if)
  then show ?thesis using assms True by simp
next
  case False
  then have "(h + 256 - t) mod 256 = h + 256 - t" using assms(1,2) by simp
  then have "k < h + 256 - t" using assms(3) by simp
  then show ?thesis using assms(1) False by (cases "t + k < 256") (auto simp: mod_if)
qed

lemma rx_contents_push:
  fixes x :: u8
  assumes wf: "rx_wf b" and room: "rx_count b < 255"
  defines "b' \<equiv> b\<lparr>data := (data b)[unat (head b) := x], head := (head b + 1) mod 256\<rparr>"
  shows "rx_wf b'" and "rx_contents b' = rx_contents b @ [x]"
proof -
  show wf': "rx_wf b'" using wf by (simp add: b'_def rx_wf_def unat_ring_succ)
  have cnt: "rx_count b' = Suc (rx_count b)"
    using wf wf' room rx_full_iff [OF wf]
    by (auto simp: rx_count_eq b'_def rx_wf_def word_le_nat_alt unat_ring_succ mod_if
        word_unat_eq_iff split: if_splits)
  have last: "(unat (tail b) + rx_count b) mod 256 = unat (head b)"
    using wf by (auto simp: rx_count_eq rx_wf_def word_le_nat_alt)
  have other: "unat (head b) \<noteq> (unat (tail b) + k) mod 256" if "k < rx_count b" for k
    using wf that by (intro ring_index_neq [symmetric]) (simp_all add: rx_wf_def rx_count_def)
  have "length (data b) = 256" "unat (head b) < 256" using wf by (simp_all add: rx_wf_def)
  then show "rx_contents b' = rx_contents b @ [x]"
    using last other by (simp add: rx_contents_def cnt) (simp add: b'_def)
qed

lemma rx_contents_read:
  assumes wf: "rx_wf b" and some: "0 < rx_count b"
  defines "b' \<equiv> b\<lparr>tail := (tail b + 1) mod 256\<rparr>"
  shows "rx_wf b'" and "rx_contents b = data b ! unat (tail b) # rx_contents b'"
proof -
  show wf': "rx_wf b'" using wf by (simp add: b'_def rx_wf_def unat_ring_succ)
  have cnt: "rx_count b = Suc (rx_count b')"
    using wf wf' some rx_empty_iff [OF wf]
    by (auto simp: rx_count_eq b'_def rx_wf_def word_le_nat_alt unat_ring_succ mod_if
        word_unat_eq_iff split: if_splits)
  have "(unat (tail b) + Suc k) mod 256 = ((unat (tail b) + 1) mod 256 + k) mod 256" for k
    by (simp add: mod_simps)
  moreover have "unat (tail b) < 256" using wf by (simp add: rx_wf_def)
  ultimately show "rx_contents b = data b ! unat (tail b) # rx_contents b'"
    by (simp add: rx_contents_def cnt upt_conv_Cons map_Suc_upt [symmetric] del: upt_Suc)
      (simp add: b'_def unat_ring_succ)
qed

interpretation rxq: lossy_queue rx_push rx_read rx_reset rx_fail rx_view_of rx_wf
proof
  fix b :: RX_BUFFER and x :: u8
  assume wf: "rx_wf b"
  show "map_prod id rx_view_of (rx_push b x) = view_push (rx_view_of b) x"
    using rx_contents_push [OF wf, of x] rx_full_iff [OF wf] rx_count_le [OF wf]
    by (auto simp: rx_push_def rx_view_of_def rx_fail_def Let_def)
  show "rx_wf (snd (rx_push b x))"
    using rx_contents_push [OF wf, of x] rx_full_iff [OF wf] rx_count_le [OF wf] wf
    by (auto simp: rx_push_def rx_fail_def Let_def rx_wf_def)
  show "map_prod id (map_prod id rx_view_of) (rx_read b x) = view_read (rx_view_of b) x"
  proof (cases "rx_count b = 0")
    case True
    then have "rx_contents b = []" by (simp flip: length_0_conv)
    with True show ?thesis using rx_empty_iff [OF wf]
      by (simp add: rx_read_def rx_view_of_def rx_reset_def rx_contents_def rx_count_def)
  next
    case False
    then show ?thesis using rx_empty_iff [OF wf] rx_contents_read [OF wf]
      by (simp add: rx_read_def rx_view_of_def rx_reset_def)
        (simp add: rx_contents_def rx_count_def)
  qed
  show "rx_wf (snd (snd (rx_read b x)))"
    using rx_contents_read [OF wf] rx_empty_iff [OF wf] wf
    by (auto simp: rx_read_def rx_reset_def rx_wf_def)
  show "rx_view_of (rx_reset b) = Queued []"
    by (simp add: rx_view_of_def rx_reset_def rx_contents_def rx_count_def)
  show "rx_view_of (rx_fail b) = Lost" by (simp add: rx_view_of_def rx_fail_def)
  show "rx_wf (rx_reset b)" "rx_wf (rx_fail b)"
    using wf by (simp_all add: rx_reset_def rx_fail_def rx_wf_def)
qed


section \<open>Properties\<close>

definition demo_buffer :: RX_BUFFER where
  "demo_buffer = \<lparr>data = replicate RX_CAPACITY 0, head = 255, tail = 254, failed = False\<rparr>"

lemma demo_buffer_wf: "rx_wf demo_buffer"
  by (simp add: demo_buffer_def rx_wf_def)

text \<open>
  C17: \<open>rx_push\<close> and \<open>rx_read\<close> on the ring buffer implement the byte queue of capacity 255
  with loss reporting: they return what the queue returns, change the view of the buffer
  as the queue changes, and keep the indices inside the array, also where they wrap.
\<close>

theorem rx_refines_queue:
  assumes "rx_wf b"
  shows "map_prod id rx_view_of (rx_push b x) = view_push (rx_view_of b) x
    \<and> map_prod id (map_prod id rx_view_of) (rx_read b y) = view_read (rx_view_of b) y
    \<and> rx_view_of (rx_reset b) = Queued [] \<and> rx_view_of (rx_fail b) = Lost
    \<and> rx_wf (snd (rx_push b x)) \<and> rx_wf (snd (snd (rx_read b y)))
    \<and> rx_wf (rx_reset b) \<and> rx_wf (rx_fail b)"
  using assms rxq.push_view rxq.read_view rxq.reset_view rxq.fail_view rxq.push_wf rxq.read_wf
    rxq.reset_wf rxq.fail_wf by simp

theorem rx_refines_queue_witness:
  "rx_view_of demo_buffer = Queued [0] \<and> map_prod id rx_view_of (rx_push demo_buffer 7) = (True, Queued [0, 7])"
proof -
  have "rx_view_of demo_buffer = Queued [0]"
    by (simp add: rx_view_of_def rx_contents_def rx_count_def demo_buffer_def)
  then show ?thesis using rx_refines_queue [OF demo_buffer_wf, of 7 0] by simp
qed

text \<open>
  C18: A burst of at most 255 bytes pushed into a reset buffer is read back completely and
  in the order of arrival.
\<close>

theorem rx_fifo:
  assumes "rx_wf b" and "length xs \<le> 255"
  shows "fst (drain rx_read 255 (push_all rx_push (rx_reset b) xs)) = xs"
  using assms by (intro rxq.fifo) (simp_all add: rxq.reset_wf rxq.reset_view)

theorem rx_fifo_witness:
  "fst (drain rx_read 255 (push_all rx_push (rx_reset demo_buffer) [1, 2, 3])) = [1, 2, 3]"
  using rx_fifo [OF demo_buffer_wf, of "[1, 2, 3]"] by simp

text \<open>
  A burst of more than 255 bytes is reported as a loss exactly once: the next read
  returns -1 without writing the byte and discards the whole burst, the read after it
  finds the queue empty, and new input is accepted again.
\<close>

lemma rx_overflow_reported_once:
  assumes "rx_wf b" and "255 < length xs" and "q = push_all rx_push (rx_reset b) xs"
  shows "\<not> fst (rx_push q x) \<and> fst (rx_read q y) = - 1 \<and> fst (snd (rx_read q y)) = y
    \<and> (let q' = snd (snd (rx_read q y)) in
         fst (rx_read q' y) = 0 \<and> fst (rx_push q' x)
         \<and> rx_view_of (snd (rx_push q' x)) = Queued [x])"
proof -
  have q: "rx_wf q" "rx_view_of q = Lost"
    using rxq.push_all_overflow [of "rx_reset b" "[]" xs] assms
    by (simp_all add: rxq.reset_wf rxq.reset_view)
  let ?q' = "snd (snd (rx_read q y))"
  have rd: "fst (rx_read q y) = - 1" "fst (snd (rx_read q y)) = y" "rx_view_of ?q' = Queued []" "rx_wf ?q'"
    using rxq.read_view [OF q(1), of y] rxq.read_wf [OF q(1), of y] q(2) by (auto simp: prod_eq_iff)
  then show ?thesis
    using rxq.push_cases [OF q(1), of x] rxq.push_cases [OF rd(4), of x] rxq.read_view [OF rd(4), of y] q(2)
    by (auto simp: prod_eq_iff Let_def)
qed

end
