(* ===== verification/Drivers.thy ===== *)
theory Drivers
  imports X86 RxBuffer
begin

text \<open>
  The state of the device drivers, the interrupt controller (\<open>kernel/irq.c\<close>) and the timer
  (\<open>kernel/timer.c\<close>). \<open>drivers\<close> collects the processor and the static variables of
  \<open>irq.c\<close>, \<open>timer.c\<close> and \<open>serial.c\<close>. Which interrupts the hardware raises is unknown:
  \<open>irq_source\<close> gives, for every history of port accesses, the vectors that arrive at that
  moment; every statement holds for all of them.
\<close>

record drivers =
  cpu :: machine
  irq_initialized :: bool
  unexpected_irqs :: u64
  ticks :: u64
  timer_initialized :: bool
  receive_buffer :: RX_BUFFER
  receive_enabled :: bool
  serial_rx_interrupts :: u64
  serial_rx_dropped :: u64
  serial_rx_overflows :: u64
  irq_source :: "io_event list \<Rightarrow> u64 list"

text \<open>Port access with interrupts disabled: in handlers and in the guarded set-up code.\<close>

definition inb :: "u16 \<Rightarrow> drivers \<Rightarrow> u8 \<times> drivers" where
  "inb port d = (let (v, m) = x86_inb port (cpu d) in (v, d\<lparr>cpu := m\<rparr>))"

definition outb :: "u16 \<Rightarrow> u8 \<Rightarrow> drivers \<Rightarrow> drivers" where
  "outb port v d = d\<lparr>cpu := x86_outb port v (cpu d)\<rparr>"


section \<open>Interrupt controller\<close>

definition pic_write :: "u16 \<Rightarrow> u8 \<Rightarrow> drivers \<Rightarrow> drivers" where
  "pic_write port v d = outb 0x80 0 (outb port v d)"

definition irq_init :: "drivers \<Rightarrow> bool \<times> drivers" where
  "irq_init d =
     (if irq_initialized d \<or> x86_read_rflags (cpu d) AND 0x200 \<noteq> 0 then (False, d)
      else
        let has_apic = edx (x86_cpuid 1 0 (cpu d)) AND push_bit 9 1 \<noteq> 0;
            apic = x86_read_msr 0x1b (cpu d) in
        if has_apic \<and> apic AND push_bit 10 1 \<noteq> 0 then (False, d)
        else
          let d = (if has_apic
                   then d\<lparr>cpu := x86_write_msr 0x1b (apic AND NOT (push_bit 11 1)) (cpu d)\<rparr>
                   else d);
              d = pic_write 0x21 0xff d;
              d = pic_write 0xa1 0xff d;
              d = pic_write 0x20 0x11 d; d = pic_write 0xa0 0x11 d;
              d = pic_write 0x21 0x20 d; d = pic_write 0xa1 0x28 d;
              d = pic_write 0x21 4 d; d = pic_write 0xa1 2 d;
              d = pic_write 0x21 1 d; d = pic_write 0xa1 1 d;
              d = pic_write 0x21 0xff d; d = pic_write 0xa1 0xff d
          in (True, d\<lparr>irq_initialized := True\<rparr>))"

definition irq_enable :: "u32 \<Rightarrow> drivers \<Rightarrow> bool \<times> drivers" where
  "irq_enable irq d =
     (if \<not> irq_initialized d \<or> irq \<ge> 16 \<or> x86_read_rflags (cpu d) AND 0x200 \<noteq> 0 then (False, d)
      else
        let port = (if irq < 8 then 0x21 else 0xa1);
            (v, d) = inb port d;
            d = pic_write port (ucast ((ucast v :: u32) AND NOT (push_bit (unat (irq AND 7)) 1))) d
        in if irq \<ge> 8
           then let (v, d) = inb 0x21 d in (True, pic_write 0x21 (ucast ((ucast v :: u32) AND NOT 4)) d)
           else (True, d))"


section \<open>Timer\<close>

definition timer_init :: "drivers \<Rightarrow> bool \<times> drivers" where
  "timer_init d =
     (if timer_initialized d \<or> x86_read_rflags (cpu d) AND 0x200 \<noteq> 0 then (False, d)
      else case irq_init d of
        (False, d) \<Rightarrow> (False, d)
      | (True, d) \<Rightarrow>
          let d = outb 0x43 0x34 d;
              d = outb 0x40 (11932 AND 255) d;
              d = outb 0x40 (ucast (drop_bit 8 (11932 :: u32))) d
          in irq_enable 0 (d\<lparr>ticks := 0, timer_initialized := True\<rparr>))"

definition timer_ticks :: "drivers \<Rightarrow> u64" where
  "timer_ticks d = ticks d"

definition timer_interrupt :: "drivers \<Rightarrow> drivers" where
  "timer_interrupt d = d\<lparr>ticks := ticks d + 1\<rparr>"


section \<open>Port traffic\<close>

text \<open>
  \<open>did d evs d'\<close>: between the two states the processor did nothing but the port accesses
  \<open>evs\<close>, in this order: registers, memory and the interrupt flag are as before.
\<close>

definition did :: "drivers \<Rightarrow> io_event list \<Rightarrow> drivers \<Rightarrow> bool" where
  "did d evs d' \<longleftrightarrow> cpu d' = (cpu d)\<lparr>io := rev evs @ io (cpu d)\<rparr>"

lemma did_refl [simp]: "did d [] d"
  by (simp add: did_def)

lemma did_trans [trans]: "did d xs d1 \<Longrightarrow> did d1 ys d2 \<Longrightarrow> did d (xs @ ys) d2"
  by (simp add: did_def)

lemma did_rflags: "did d xs d' \<Longrightarrow> rflags (cpu d') = rflags (cpu d)"
  by (simp add: did_def)

lemma did_outb [simp]: "did d [Out p v] (outb p v d)"
  by (simp add: did_def outb_def x86_outb_def)

lemma did_inb: "inb p d = (v, d') \<Longrightarrow> did d [In p v] d'"
  by (auto simp: did_def inb_def x86_inb_def Let_def)

lemma inb_eq: "inb p d = (v, d') \<Longrightarrow> d' = d\<lparr>cpu := cpu d'\<rparr> \<and> v = device (cpu d) (io (cpu d)) p"
  by (auto simp: inb_def x86_inb_def Let_def)

lemma outb_frame [simp]:
  "irq_initialized (outb p v d) = irq_initialized d" "ticks (outb p v d) = ticks d"
  "timer_initialized (outb p v d) = timer_initialized d"
  "receive_buffer (outb p v d) = receive_buffer d" "receive_enabled (outb p v d) = receive_enabled d"
  "serial_rx_dropped (outb p v d) = serial_rx_dropped d"
  "serial_rx_overflows (outb p v d) = serial_rx_overflows d"
  "serial_rx_interrupts (outb p v d) = serial_rx_interrupts d"
  "unexpected_irqs (outb p v d) = unexpected_irqs d" "irq_source (outb p v d) = irq_source d"
  by (simp_all add: outb_def)

lemma inb_frame:
  assumes "inb p d = (v, d')"
  shows "irq_initialized d' = irq_initialized d" "ticks d' = ticks d"
    "timer_initialized d' = timer_initialized d"
    "receive_buffer d' = receive_buffer d" "receive_enabled d' = receive_enabled d"
    "serial_rx_dropped d' = serial_rx_dropped d" "serial_rx_overflows d' = serial_rx_overflows d"
    "serial_rx_interrupts d' = serial_rx_interrupts d"
    "unexpected_irqs d' = unexpected_irqs d" "irq_source d' = irq_source d"
  using assms by (auto simp: inb_def x86_inb_def Let_def)

end
