(* ===== verification/Serial.thy ===== *)
theory Serial
  imports Drivers
begin

text \<open>
  The serial driver \<open>kernel/serial.c\<close> and the interrupt dispatcher of \<open>kernel/irq.c\<close>.
  Interrupts are part of the model: \<open>irq_window\<close> takes what \<open>irq_source\<close> delivers when the
  interrupt flag is set, and code that may run with interrupts enabled opens a window
  before each of its port accesses. The code outside the handlers touches the variables it
  shares with them only with interrupts disabled, so no further interleaving can be
  observed. A handler runs with the flag cleared and restored (\<open>kernel/interrupts.S\<close>).
\<close>

abbreviation (input) COM1 :: u16 where
  "COM1 \<equiv> 0x3f8"

abbreviation (input) POLL_LIMIT :: u64 where
  "POLL_LIMIT \<equiv> 1000000"


section \<open>Receive path\<close>

definition receive_error :: "drivers \<Rightarrow> drivers" where
  "receive_error d =
     (let (flags, m) = x86_irq_save (cpu d);
          d = d\<lparr>cpu := m\<rparr>;
          d = d\<lparr>receive_buffer := rx_fail (receive_buffer d)\<rparr>;
          d = d\<lparr>serial_rx_dropped := serial_rx_dropped d + 1\<rparr>
      in d\<lparr>cpu := x86_irq_restore flags (cpu d)\<rparr>)"

definition receive_byte :: "drivers \<Rightarrow> drivers" where
  "receive_byte d =
     (let (status, d) = inb (COM1 + 5) d;
          d = (if status AND 0x1e \<noteq> 0 then receive_error d else d)
      in if status AND 1 = 0 then d
         else
           let (byte, d) = inb COM1 d;
               already_failed = failed (receive_buffer d);
               (pushed, b) = rx_push (receive_buffer d) byte;
               d = d\<lparr>receive_buffer := b\<rparr>
           in if pushed then d
              else
                let d = (if already_failed then d
                         else d\<lparr>serial_rx_overflows := serial_rx_overflows d + 1\<rparr>)
                in d\<lparr>serial_rx_dropped := serial_rx_dropped d + 1\<rparr>)"

text \<open>One round of the loop in \<open>serial_interrupt\<close>.\<close>

definition service :: "drivers \<Rightarrow> drivers + drivers" where
  "service d =
     (let (cause, d) = inb (COM1 + 2) d in
      if cause AND 1 \<noteq> 0 then Inl d
      else if cause AND 0x0e = 0x04 \<or> cause AND 0x0e = 0x0c \<or> cause AND 0x0e = 0x06
        then Inr (receive_byte d)
      else Inl (receive_error (outb (COM1 + 1) 0 d)))"

definition serial_interrupt :: "drivers \<Rightarrow> drivers" where
  "serial_interrupt d =
     (let d = d\<lparr>serial_rx_interrupts := serial_rx_interrupts d + 1\<rparr> in
      case for_ret 0 (of_nat RX_CAPACITY) (\<lambda>_. service) d of
        Inl d \<Rightarrow> d
      | Inr d \<Rightarrow> outb (COM1 + 2) 0x03 (receive_error d))"


section \<open>Interrupt dispatch\<close>

text \<open>A line without a handler is counted and masked.\<close>

definition mask_unexpected :: "u64 \<Rightarrow> drivers \<Rightarrow> drivers" where
  "mask_unexpected vector d =
     (let d = d\<lparr>unexpected_irqs := unexpected_irqs d + 1\<rparr>;
          mask_port = (if vector < 40 then 0x21 else 0xa1);
          (v, d) = inb mask_port d
      in outb mask_port (ucast ((ucast v :: u32) OR push_bit (unat ((vector - 32) AND 7)) 1)) d)"

definition irq_dispatch :: "u64 \<Rightarrow> drivers \<Rightarrow> drivers" where
  "irq_dispatch vector d =
     (let port = (if vector = 39 then 0x20 else 0xa0);
          suspect = (vector = 39 \<or> vector = 47);
          (isr, d) = (if suspect then inb port (outb port 0x0b d) else (0x80, d))
      in if suspect \<and> isr AND 0x80 = 0
         then if vector = 47 then outb 0x20 0x20 d else d
         else
           let d = (if vector = 32 then timer_interrupt d
                    else if vector = 36 then serial_interrupt d
                    else mask_unexpected vector d);
               d = (if vector \<ge> 40 then outb 0xa0 0x20 d else d)
           in outb 0x20 0x20 d)"

text \<open>The gate clears the interrupt flag; \<open>iretq\<close> at the end of the stub restores the flags.\<close>

definition take_irq :: "u64 \<Rightarrow> drivers \<Rightarrow> drivers" where
  "take_irq vector d =
     (let d' = irq_dispatch vector (d\<lparr>cpu := x86_disable_interrupts (cpu d)\<rparr>)
      in d'\<lparr>cpu := (cpu d')\<lparr>rflags := rflags (cpu d)\<rparr>\<rparr>)"

definition irq_window :: "drivers \<Rightarrow> drivers" where
  "irq_window d = (if bit (rflags (cpu d)) 9 then fold take_irq (irq_source d (io (cpu d))) d else d)"


section \<open>Transmit path and set-up\<close>

definition wait_step :: "u8 \<Rightarrow> drivers \<Rightarrow> (bool \<times> drivers) + drivers" where
  "wait_step m d =
     (let (status, d) = inb (COM1 + 5) (irq_window d) in
      if status = 0xff then Inl (False, d)
      else
        let d = (if receive_enabled d \<and> status AND 0x1e \<noteq> 0 then receive_error d else d)
        in if status AND m = m then Inl (True, d) else Inr d)"

definition wait_status :: "u8 \<Rightarrow> drivers \<Rightarrow> bool \<times> drivers" where
  "wait_status m d =
     (case for_ret 0 POLL_LIMIT (\<lambda>_. wait_step m) d of
        Inl r \<Rightarrow> r
      | Inr d \<Rightarrow> (False, d))"

definition serial_flush :: "drivers \<Rightarrow> bool \<times> drivers" where
  "serial_flush d = wait_status 0x40 d"

definition out_window :: "u16 \<Rightarrow> u8 \<Rightarrow> drivers \<Rightarrow> drivers" where
  "out_window port v d = outb port v (irq_window d)"

definition serial_init :: "drivers \<Rightarrow> bool \<times> drivers" where
  "serial_init d =
     (case serial_flush d of
        (False, d) \<Rightarrow> (False, d)
      | (True, d) \<Rightarrow>
          let d = out_window (COM1 + 3) 0x03 d;
              d = out_window (COM1 + 1) 0x00 d;
              d = out_window (COM1 + 3) 0x80 d;
              d = out_window (COM1 + 0) 0x01 d;
              d = out_window (COM1 + 1) 0x00 d;
              d = out_window (COM1 + 3) 0x03 d;
              d = out_window (COM1 + 2) 0x07 d;
              d = out_window (COM1 + 4) 0x03 d
          in wait_status 0x20 d)"

definition put_byte :: "u8 \<Rightarrow> drivers \<Rightarrow> bool \<times> drivers" where
  "put_byte v d =
     (case wait_status 0x20 d of
        (False, d) \<Rightarrow> (False, d)
      | (True, d) \<Rightarrow> (True, out_window COM1 v d))"

text \<open>A C string is the list of the bytes before its terminating zero.\<close>

fun serial_write :: "u8 list \<Rightarrow> drivers \<Rightarrow> bool \<times> drivers" where
  "serial_write [] d = (True, d)"
| "serial_write (c # text) d =
     (case (if c = 0x0a then put_byte 0x0d d else (True, d)) of
        (False, d) \<Rightarrow> (False, d)
      | (True, d) \<Rightarrow>
          (case put_byte c d of
             (False, d) \<Rightarrow> (False, d)
           | (True, d) \<Rightarrow> serial_write text d))"

text \<open>The result code, \<open>*byte\<close> afterwards, the state.\<close>

definition serial_read :: "u8 \<Rightarrow> drivers \<Rightarrow> int \<times> u8 \<times> drivers" where
  "serial_read byte d =
     (let (status, byte, b) = rx_read (receive_buffer d) byte
      in (status, byte, d\<lparr>receive_buffer := b\<rparr>))"

definition serial_enable_receive :: "drivers \<Rightarrow> bool \<times> drivers" where
  "serial_enable_receive d =
     (if receive_enabled d \<or> x86_read_rflags (cpu d) AND 0x200 \<noteq> 0 then (False, d)
      else case irq_enable 4 d of
        (False, d) \<Rightarrow> (False, d)
      | (True, d) \<Rightarrow>
          let d = d\<lparr>receive_buffer := rx_reset (receive_buffer d)\<rparr>;
              d = outb (COM1 + 2) 0x07 d;
              d = outb (COM1 + 4) 0x0b d;
              d = d\<lparr>receive_enabled := True\<rparr>
          in (True, outb (COM1 + 1) 0x05 d))"

end
