(* ===== verification/Console.thy ===== *)
theory Console
  imports Serial Pmm
begin

text \<open>
  The console \<open>kernel/console.c\<close>: command interpreter, line editor and main loop. A
  function of the source that may not return yields \<open>Inl\<close> with the reason: \<open>Spin\<close> for
  \<open>x86_spin_forever\<close>, \<open>Halted\<close> for \<open>kernel_halt\<close>. A \<open>char *\<close> is the list of bytes from
  where it points to the end of the array; its terminating zero is one of them.
\<close>

datatype stop = Spin | Halted

type_synonym 'a run = "stop \<times> drivers + 'a"

definition bind :: "'a run \<Rightarrow> ('a \<Rightarrow> 'b run) \<Rightarrow> 'b run" where
  "bind r f = (case r of Inl e \<Rightarrow> Inl e | Inr x \<Rightarrow> f x)"

lemma bind_simps [simp]: "bind (Inl e) f = Inl e" "bind (Inr x) f = f x"
  by (simp_all add: bind_def)

text \<open>String literals without and with the terminating zero.\<close>

definition str :: "string \<Rightarrow> u8 list" where
  "str s = map of_char s"

definition c_str :: "string \<Rightarrow> u8 list" where
  "c_str s = str s @ [0]"

text \<open>The bytes before the terminating zero.\<close>

definition chars :: "u8 list \<Rightarrow> u8 list" where
  "chars p = takeWhile (\<lambda>c. c \<noteq> 0) p"

definition output_text :: "u8 list \<Rightarrow> drivers \<Rightarrow> drivers run" where
  "output_text s d =
     (case serial_write s d of
        (False, d) \<Rightarrow> Inl (Spin, d)
      | (True, d) \<Rightarrow> Inr d)"

text \<open>
  Comparing past the end of an array is undefined in C; the last equation is never used on
  terminated strings.
\<close>

fun equal :: "u8 list \<Rightarrow> u8 list \<Rightarrow> bool" where
  "equal (a # as) (b # bs) = (if a \<noteq> 0 \<and> a = b then equal as bs else a = b)"
| "equal as bs = (as = bs)"

function number_loop :: "u32 \<Rightarrow> u8 list \<Rightarrow> u64 \<Rightarrow> u32 \<times> u8 list" where
  "number_loop i buf v =
     (let i = i - 1;
          buf = buf[unat i := 0x30 + ucast (v mod 10)];
          v = v div 10
      in if v \<noteq> 0 then number_loop i buf v else (i, buf))"
  by pat_completeness auto
termination
proof (relation "measure (\<lambda>(i, buf, v). unat v)")
  fix v x :: u64 assume "x = v div 10" and "x \<noteq> 0"
  then have "v div 10 \<noteq> 0" by simp
  then have "unat v div 10 \<noteq> 0" by (simp add: unat_div_distrib unat_eq_0 [symmetric] unat_div)
  then have "unat v div 10 < unat v" by (simp add: div_less_dividend)
  with \<open>x = v div 10\<close> show "((i, buf, x), (i', buf', v)) \<in> measure (\<lambda>(i, buf, v). unat v)" for i i' buf buf'
    by (simp add: unat_div)
qed simp

declare number_loop.simps [simp del]

text \<open>\<open>text[21]\<close> is uninitialised but for its last byte; what it holds before is never read.\<close>

definition number_text :: "u64 \<Rightarrow> u8 list" where
  "number_text v =
     (let buf = (replicate 21 0)[20 := 0];
          (i, buf) = number_loop 20 buf v
      in drop (unat i) buf)"

definition number :: "u64 \<Rightarrow> drivers \<Rightarrow> drivers run" where
  "number v d = output_text (chars (number_text v)) d"


section \<open>Commands\<close>

abbreviation (input) blank :: "u8 \<Rightarrow> bool" where
  "blank c \<equiv> c = 0x20 \<or> c = 0x09"

text \<open>\<open>while (length && blank(line[length - 1])) --length\<close>\<close>

fun trim_length :: "u8 list \<Rightarrow> nat \<Rightarrow> nat" where
  "trim_length line 0 = 0"
| "trim_length line (Suc n) = (if blank (line ! n) then trim_length line n else Suc n)"

definition help_text :: "u8 list" where
  "help_text = str ''help  - list commands'' @ [0x0a] @ str ''mem   - physical page counts (4 KiB)'' @ [0x0a]
     @ str ''ticks - timer interrupt count (~100 Hz)'' @ [0x0a]
     @ str ''clear - clear terminal'' @ [0x0a] @ str ''halt  - stop CPU (restart QEMU to resume)'' @ [0x0a]"

text \<open>The chain of comparisons, on the trimmed and terminated line.\<close>

definition run_command :: "pmm \<Rightarrow> u8 list \<Rightarrow> drivers \<Rightarrow> drivers run" where
  "run_command p line d =
     (if equal line (c_str ''help'') then output_text help_text d
      else if equal line (c_str ''ticks'') then
        bind (output_text (str ''ticks: '') d) (\<lambda>d.
        bind (number (timer_ticks d) d) (\<lambda>d.
        output_text [0x0a] d))
      else if equal line (c_str ''mem'') then
        let total = pmm_total p; free = pmm_available p in
        bind (output_text (str ''pages: total='') d) (\<lambda>d.
        bind (number total d) (\<lambda>d.
        bind (output_text (str '' used='') d) (\<lambda>d.
        bind (number (total - free) d) (\<lambda>d.
        bind (output_text (str '' free='') d) (\<lambda>d.
        bind (number free d) (\<lambda>d.
        output_text [0x0a] d))))))
      else if equal line (c_str ''clear'') then
        output_text ([0x1b] @ str ''[2J'' @ [0x1b] @ str ''[H'') d
      else if equal line (c_str ''halt'') then
        bind (output_text (str ''KERNEL: halting'' @ [0x0a]) d) (\<lambda>d.
          case serial_flush d of
            (False, d) \<Rightarrow> Inl (Spin, d)
          | (True, d) \<Rightarrow> Inl (Halted, d\<lparr>cpu := x86_disable_interrupts (cpu d)\<rparr>))
      else output_text (str ''Unknown command. Type '' @ [0x27] @ str ''help'' @ [0x27] @ str ''.'' @ [0x0a]) d)"

text \<open>\<open>execute\<close> terminates the line in place; the changed array is returned.\<close>

definition execute :: "pmm \<Rightarrow> u8 list \<Rightarrow> u32 \<Rightarrow> drivers \<Rightarrow> (u8 list \<times> drivers) run" where
  "execute p line len d =
     (let line = line[trim_length line (unat len) := 0];
          cmd = dropWhile blank line
      in if hd cmd = 0 then Inr (line, d)
         else bind (run_command p cmd d) (\<lambda>d. Inr (line, d)))"


section \<open>Line editor\<close>

record LINE_EDITOR =
  line :: "u8 list"
  len :: u32
  escape :: u32
  after_cr :: bool
  discard :: bool

definition reset_line :: "LINE_EDITOR \<Rightarrow> LINE_EDITOR" where
  "reset_line ed = ed\<lparr>len := 0, escape := 0, discard := False\<rparr>"

definition discarded_text :: "u8 list" where
  "discarded_text = str ''Input discarded (line too long or serial error).'' @ [0x0a]"

definition prompt :: "u8 list" where
  "prompt = str ''K> ''"

definition finish_line :: "pmm \<Rightarrow> LINE_EDITOR \<Rightarrow> drivers \<Rightarrow> (LINE_EDITOR \<times> drivers) run" where
  "finish_line p ed d =
     bind (output_text [0x0a] d) (\<lambda>d.
     bind (if discard ed then bind (output_text discarded_text d) (\<lambda>d. Inr (line ed, d))
           else execute p (line ed) (len ed) d) (\<lambda>(l, d).
     bind (output_text prompt d) (\<lambda>d.
     Inr (reset_line (ed\<lparr>line := l\<rparr>), d))))"

definition consume_escape :: "LINE_EDITOR \<Rightarrow> u8 \<Rightarrow> bool \<times> LINE_EDITOR" where
  "consume_escape ed byte =
     (if escape ed = 1 then (True, ed\<lparr>escape := (if byte = 0x5b \<or> byte = 0x4f then 2 else 0)\<rparr>)
      else if escape ed = 2 then
        (True, if 0x40 \<le> byte \<and> byte \<le> 0x7e then ed\<lparr>escape := 0\<rparr> else ed)
      else if byte \<noteq> 27 then (False, ed)
      else (True, ed\<lparr>escape := 1\<rparr>))"

definition edit_character :: "LINE_EDITOR \<Rightarrow> u8 \<Rightarrow> drivers \<Rightarrow> (LINE_EDITOR \<times> drivers) run" where
  "edit_character ed byte d =
     (if discard ed then Inr (ed, d)
      else case consume_escape ed byte of
        (True, ed) \<Rightarrow> Inr (ed, d)
      | (False, ed) \<Rightarrow>
          if byte = 8 \<or> byte = 127 then
            if len ed \<noteq> 0
            then bind (output_text [8, 0x20, 8] d) (\<lambda>d. Inr (ed\<lparr>len := len ed - 1\<rparr>, d))
            else Inr (ed, d)
          else if byte \<noteq> 9 \<and> (byte < 32 \<or> byte > 126) then Inr (ed, d)
          else if len ed = 128 - 1 then Inr (ed\<lparr>discard := True\<rparr>, d)
          else
            let byte = (if byte = 9 then 0x20 else byte) in
            bind (output_text [byte] d) (\<lambda>d.
            Inr (ed\<lparr>line := (line ed)[unat (len ed) := byte], len := len ed + 1\<rparr>, d)))"

definition accept_input :: "pmm \<Rightarrow> LINE_EDITOR \<Rightarrow> u8 \<Rightarrow> drivers \<Rightarrow> (LINE_EDITOR \<times> drivers) run" where
  "accept_input p ed byte d =
     (if byte = 0x0a \<and> after_cr ed then Inr (ed\<lparr>after_cr := False\<rparr>, d)
      else
        let ed = ed\<lparr>after_cr := (byte = 0x0d)\<rparr> in
        if byte = 3 then
          bind (output_text (str ''^C'' @ [0x0a] @ prompt) d) (\<lambda>d. Inr (reset_line ed, d))
        else if byte = 0x0d \<or> byte = 0x0a then finish_line p ed d
        else edit_character ed byte d)"


section \<open>Main loop\<close>

text \<open>\<open>sti; hlt\<close>: interrupts are taken before the next instruction.\<close>

definition x86_enable_and_idle :: "drivers \<Rightarrow> drivers" where
  "x86_enable_and_idle d = irq_window (d\<lparr>cpu := x86_enable_interrupts (cpu d)\<rparr>)"

text \<open>The local variable \<open>byte\<close> is uninitialised; it is used only after \<open>serial_read\<close> has set it.\<close>

definition console_iteration :: "pmm \<Rightarrow> LINE_EDITOR \<Rightarrow> drivers \<Rightarrow> (LINE_EDITOR \<times> drivers) run" where
  "console_iteration p ed d =
     (let d = d\<lparr>cpu := x86_disable_interrupts (cpu d)\<rparr>;
          (status, byte, d) = serial_read 0 d
      in if status = 0 then Inr (ed, x86_enable_and_idle d)
         else
           let d = d\<lparr>cpu := x86_enable_interrupts (cpu d)\<rparr> in
           if status < 0 then Inr (ed\<lparr>discard := True, escape := 0, after_cr := False\<rparr>, d)
           else accept_input p ed byte d)"

text \<open>The prologue; the local \<open>editor\<close> starts with arbitrary contents.\<close>

definition console_start :: "LINE_EDITOR \<Rightarrow> drivers \<Rightarrow> (LINE_EDITOR \<times> drivers) run" where
  "console_start editor d =
     (let ed = (reset_line editor)\<lparr>after_cr := False\<rparr> in
      bind (output_text (str ''CONSOLE: ready (type '' @ [0x27] @ str ''help'' @ [0x27] @ str '')'' @ [0x0a] @ prompt) d)
        (\<lambda>d. Inr (ed, d)))"

text \<open>The states \<open>console_run\<close> passes through at the head of its loop, and how it may end.\<close>

inductive console_run :: "pmm \<Rightarrow> LINE_EDITOR \<Rightarrow> drivers \<Rightarrow> (LINE_EDITOR \<times> drivers) run \<Rightarrow> bool"
  for p editor d where
  start: "console_run p editor d (console_start editor d)"
| loop: "console_run p editor d (Inr (ed, e)) \<Longrightarrow> console_run p editor d (console_iteration p ed e)"

end
