(* ===== verification/Controllers.thy ===== *)
theory Controllers
  imports Drivers
begin

text \<open>
  What \<open>irq_init\<close>, \<open>irq_enable\<close> and \<open>timer_init\<close> make of the hardware. The registers of
  an 8259A interrupt controller and of channel 0 of the 8253 timer are read off the history
  of port writes, as their data sheets describe: \<open>pic_after\<close> follows the initialisation
  words and the mask register, \<open>pit_after\<close> the control word and the two reload bytes.
\<close>

record pic =
  phase :: nat
  base :: u8
  cascade :: u8
  icw4 :: u8
  imr :: u8

text \<open>
  Bit 4 of a write to the command port \<open>c\<close> starts the initialisation; three words follow
  on port \<open>c + 1\<close>; after them this port is the interrupt mask.
\<close>

fun pic_event :: "u16 \<Rightarrow> io_event \<Rightarrow> pic \<Rightarrow> pic" where
  "pic_event c (In p v) s = s"
| "pic_event c (Out p v) s =
     (if p = c then if bit v 4 then s\<lparr>phase := 1, imr := 0\<rparr> else s
      else if p = c + 1 then
        if phase s = 1 then s\<lparr>phase := 2, base := v AND 0xf8\<rparr>
        else if phase s = 2 then s\<lparr>phase := 3, cascade := v\<rparr>
        else if phase s = 3 then s\<lparr>phase := 0, icw4 := v\<rparr>
        else s\<lparr>imr := v\<rparr>
      else s)"

text \<open>The registers after a history (newest access first) from unknown contents \<open>s\<close>.\<close>

definition pic_after :: "u16 \<Rightarrow> pic \<Rightarrow> io_event list \<Rightarrow> pic" where
  "pic_after c s h = foldr (pic_event c) h s"

text \<open>The mask bit of one of the sixteen lines: 0 to 7 on the master, 8 to 15 on the slave.\<close>

definition masked :: "pic \<Rightarrow> pic \<Rightarrow> nat \<Rightarrow> bool" where
  "masked master slave k \<longleftrightarrow> (if k < 8 then bit (imr master) k else bit (imr slave) (k - 8))"

definition vector_of :: "pic \<Rightarrow> pic \<Rightarrow> nat \<Rightarrow> u8" where
  "vector_of master slave k =
     (if k < 8 then base master + of_nat k else base slave + of_nat (k - 8))"

record pit =
  control :: u8
  low_next :: bool
  reload :: u16

fun pit_event :: "io_event \<Rightarrow> pit \<Rightarrow> pit" where
  "pit_event (In p v) s = s"
| "pit_event (Out p v) s =
     (if p = 0x43 then s\<lparr>control := v, low_next := True\<rparr>
      else if p = 0x40 then
        if low_next s then s\<lparr>reload := ucast v, low_next := False\<rparr>
        else s\<lparr>reload := reload s OR push_bit 8 (ucast v), low_next := True\<rparr>
      else s)"

definition pit_after :: "pit \<Rightarrow> io_event list \<Rightarrow> pit" where
  "pit_after s h = foldr pit_event h s"

lemma pic_after_simps [simp]:
  "pic_after c s (e # h) = pic_event c e (pic_after c s h)" "pic_after c s [] = s"
  by (simp_all add: pic_after_def)

lemma pit_after_simps [simp]:
  "pit_after s (e # h) = pit_event e (pit_after s h)" "pit_after s [] = s"
  by (simp_all add: pit_after_def)

lemmas port_defs = inb_def outb_def x86_inb_def x86_outb_def pic_write_def

text \<open>Reading the mask port returns the mask register: what \<open>irq_enable\<close> relies on.\<close>

definition mask_readable :: "pic \<Rightarrow> pic \<Rightarrow> machine \<Rightarrow> bool" where
  "mask_readable m0 s0 m \<longleftrightarrow> (\<forall>h. phase (pic_after 0x20 m0 h) = 0 \<longrightarrow> phase (pic_after 0xa0 s0 h) = 0 \<longrightarrow>
     device m h 0x21 = imr (pic_after 0x20 m0 h) \<and> device m h 0xa1 = imr (pic_after 0xa0 s0 h))"

definition irq_ready :: "drivers \<Rightarrow> bool" where
  "irq_ready d \<longleftrightarrow> \<not> irq_initialized d \<and> \<not> bit (rflags (cpu d)) 9
     \<and> \<not> (bit (edx (cpuid (cpu d) 1 0)) 9 \<and> bit (msr (cpu d) 0x1b) 10)"

lemma flag_bits:
  "x AND 512 = (0 :: 'a::len word) \<longleftrightarrow> \<not> bit x 9" "x AND 1024 = (0 :: 'a::len word) \<longleftrightarrow> \<not> bit x 10"
  using and_exp_eq_0_iff_not_bit [of x 9] and_exp_eq_0_iff_not_bit [of x 10] by simp_all

lemma irq_init_fails: "\<not> irq_ready d \<Longrightarrow> irq_init d = (False, d)"
  by (auto simp: irq_init_def irq_ready_def x86_read_rflags_def x86_cpuid_def Let_def flag_bits)

text \<open>The accesses of \<open>irq_init\<close>, newest first: every write is followed by the delay write.\<close>

definition irq_init_trace :: "io_event list" where
  "irq_init_trace = rev (concat (map (\<lambda>(p, v). [Out p v, Out 0x80 0])
     [(0x21, 0xff), (0xa1, 0xff), (0x20, 0x11), (0xa0, 0x11), (0x21, 0x20), (0xa1, 0x28),
      (0x21, 4), (0xa1, 2), (0x21, 1), (0xa1, 1), (0x21, 0xff), (0xa1, 0xff)]))"

definition apic_off :: "machine \<Rightarrow> machine" where
  "apic_off m = (if bit (edx (cpuid m 1 0)) 9
     then m\<lparr>msr := (msr m)(0x1b := msr m 0x1b AND NOT (push_bit 11 1))\<rparr> else m)"

lemma irq_init_works:
  assumes "irq_ready d"
  shows "irq_init d = (True, d\<lparr>cpu := (apic_off (cpu d))\<lparr>io := irq_init_trace @ io (cpu d)\<rparr>,
    irq_initialized := True\<rparr>)"
  using assms
  by (auto simp: irq_init_def irq_ready_def x86_read_rflags_def x86_cpuid_def Let_def flag_bits
      port_defs irq_init_trace_def apic_off_def)

lemma pic_after_irq_init:
  "pic_after 0x20 s (irq_init_trace @ h) = \<lparr>phase = 0, base = 0x20, cascade = 4, icw4 = 1, imr = 0xff\<rparr>"
  "pic_after 0xa0 s (irq_init_trace @ h) = \<lparr>phase = 0, base = 0x28, cascade = 2, icw4 = 1, imr = 0xff\<rparr>"
  by (simp_all add: irq_init_trace_def bit_numeral_word_iff)

text \<open>The controllers as a state of the drivers sees them.\<close>

definition master :: "pic \<Rightarrow> drivers \<Rightarrow> pic" where
  "master m0 d = pic_after 0x20 m0 (io (cpu d))"

definition slave :: "pic \<Rightarrow> drivers \<Rightarrow> pic" where
  "slave s0 d = pic_after 0xa0 s0 (io (cpu d))"

definition pics_ready :: "pic \<Rightarrow> pic \<Rightarrow> drivers \<Rightarrow> bool" where
  "pics_ready m0 s0 d \<longleftrightarrow> mask_readable m0 s0 (cpu d) \<and> phase (master m0 d) = 0 \<and> phase (slave s0 d) = 0"

text \<open>The state differs at most in the port history.\<close>

definition only_ports :: "drivers \<Rightarrow> drivers \<Rightarrow> bool" where
  "only_ports d d' \<longleftrightarrow> (\<exists>h. d' = d\<lparr>cpu := (cpu d)\<lparr>io := h\<rparr>\<rparr>)"

lemma only_ports_trans: "only_ports d d1 \<Longrightarrow> only_ports d1 d2 \<Longrightarrow> only_ports d d2"
  by (auto simp: only_ports_def)

lemma inb_mask:
  assumes "pics_ready m0 s0 d"
  shows "inb 0x21 d = (imr (master m0 d), d\<lparr>cpu := (cpu d)\<lparr>io := In 0x21 (imr (master m0 d)) # io (cpu d)\<rparr>\<rparr>)"
    "inb 0xa1 d = (imr (slave s0 d), d\<lparr>cpu := (cpu d)\<lparr>io := In 0xa1 (imr (slave s0 d)) # io (cpu d)\<rparr>\<rparr>)"
  using assms by (simp_all add: pics_ready_def mask_readable_def master_def slave_def port_defs Let_def)

lemma mask_byte: "ucast ((ucast (v :: u8) :: u32) AND NOT w) = v AND NOT (ucast w :: u8)"
  by (rule bit_word_eqI) (auto simp: bit_simps)

text \<open>Reading a mask and writing it back with one line cleared.\<close>

definition unmask :: "u16 \<Rightarrow> nat \<Rightarrow> drivers \<Rightarrow> drivers" where
  "unmask port k d = (let (v, d) = inb port d in pic_write port (v AND NOT (push_bit k 1)) d)"

lemma unmask_effect:
  assumes "pics_ready m0 s0 d" and "port = 0x21 \<or> port = 0xa1"
  shows "master m0 (unmask port k d) = (if port = 0x21
      then (master m0 d)\<lparr>imr := imr (master m0 d) AND NOT (push_bit k 1)\<rparr> else master m0 d)"
    "slave s0 (unmask port k d) = (if port = 0x21 then slave s0 d
      else (slave s0 d)\<lparr>imr := imr (slave s0 d) AND NOT (push_bit k 1)\<rparr>)"
    "pics_ready m0 s0 (unmask port k d)" "only_ports d (unmask port k d)"
  using assms
  by (auto simp: unmask_def inb_mask [OF assms(1)] pics_ready_def master_def slave_def pic_write_def
      outb_def x86_outb_def only_ports_def mask_readable_def)

lemma low_bits: "irq < 16 \<Longrightarrow> unat (irq AND 7 :: u32) = unat irq mod 8"
proof -
  have "irq AND 7 = irq mod 8"
    using take_bit_eq_mask [of 3 irq] take_bit_eq_mod [of 3 irq] by (simp add: mask_eq_exp_minus_1)
  then show ?thesis by (simp add: unat_mod)
qed

lemma bit_byte: "ucast (2 ^ k :: u32) = (2 ^ k :: u8)"
  by (rule bit_word_eqI) (auto simp: bit_simps)

lemma bit_four: "bit (4 :: u8) k \<longleftrightarrow> k = 2" "bit (4 :: int) k \<longleftrightarrow> k = 2"
proof -
  have "bit (2 ^ 2 :: u8) k \<longleftrightarrow> k = 2" "bit (2 ^ 2 :: int) k \<longleftrightarrow> k = 2"
    by (simp_all only: bit_exp_iff) auto
  then show "bit (4 :: u8) k \<longleftrightarrow> k = 2" "bit (4 :: int) k \<longleftrightarrow> k = 2" by simp_all
qed

lemma irq_enable_eq:
  assumes "irq_initialized d" "irq < 16" "\<not> bit (rflags (cpu d)) 9"
  shows "irq_enable irq d = (True, if irq < 8 then unmask 0x21 (unat irq) d
    else unmask 0x21 2 (unmask 0xa1 (unat irq - 8) d))"
proof -
  have "unat irq mod 8 = (if irq < 8 then unat irq else unat irq - 8)"
    using assms(2) by (auto simp: word_less_nat_alt mod_if)
  then show ?thesis using assms
    by (auto simp: irq_enable_def x86_read_rflags_def bit9_iff unmask_def mask_byte mask_byte [of _ 4, simplified] low_bits
        bit_byte Let_def split: prod.splits)
qed

lemma irq_enable_works:
  assumes d: "irq_initialized d" "irq < 16" "\<not> bit (rflags (cpu d)) 9" and ready: "pics_ready m0 s0 d"
  defines "d' \<equiv> snd (irq_enable irq d)"
  shows "irq_enable irq d = (True, d')" "pics_ready m0 s0 d'" "only_ports d d'"
    "k < 16 \<Longrightarrow> masked (master m0 d') (slave s0 d') k \<longleftrightarrow>
       masked (master m0 d) (slave s0 d) k \<and> k \<noteq> unat irq \<and> \<not> (8 \<le> unat irq \<and> k = 2)"
proof -
  have irq: "unat irq < 16" using d(2) by (simp add: word_less_nat_alt)
  note eff = unmask_effect [OF ready] unmask_effect [OF unmask_effect(3) [OF ready]]
  show "irq_enable irq d = (True, d')" "pics_ready m0 s0 d'"
    using d eff by (auto simp: d'_def irq_enable_eq)
  show "only_ports d d'"
    using d eff(4) only_ports_trans [OF eff(4) eff(8)] by (auto simp: d'_def irq_enable_eq)
  show "masked (master m0 d') (slave s0 d') k \<longleftrightarrow>
       masked (master m0 d) (slave s0 d) k \<and> k \<noteq> unat irq \<and> \<not> (8 \<le> unat irq \<and> k = 2)" if "k < 16"
    using d irq that eff
    by (auto simp: d'_def irq_enable_eq masked_def bit_simps bit_four word_less_nat_alt)
qed

lemma all_masked: "imr m = 0xff \<Longrightarrow> imr s = 0xff \<Longrightarrow> k < 16 \<Longrightarrow> masked m s k"
  using bit_mask_iff [of 8 k, where 'a = u8] bit_mask_iff [of 8 "k - 8", where 'a = u8]
  by (auto simp: masked_def mask_eq_exp_minus_1)

lemma timer_init_works:
  assumes "irq_ready d" and "\<not> timer_initialized d" and "mask_readable m0 s0 (cpu d)"
  obtains d' where "timer_init d = (True, d')" and "pics_ready m0 s0 d'"
    and "\<And>k. k < 16 \<Longrightarrow> masked (master m0 d') (slave s0 d') k \<longleftrightarrow> k \<noteq> 0"
    and "ticks d' = 0" and "timer_initialized d'" and "irq_initialized d'"
    and "\<not> bit (rflags (cpu d')) 9"
    and "control (pit_after p0 (io (cpu d'))) = 0x34" and "reload (pit_after p0 (io (cpu d'))) = 11932"
proof -
  define d1 where "d1 = d\<lparr>irq_initialized := True, cpu := (apic_off (cpu d))\<lparr>io := Out 0x40 (ucast (drop_bit 8 (11932 :: u32)))
      # Out 0x40 (11932 AND 255) # Out 0x43 0x34 # irq_init_trace @ io (cpu d)\<rparr>,
    ticks := 0, timer_initialized := True\<rparr>"
  have IF: "\<not> bit (rflags (cpu d)) 9" using assms(1) by (simp add: irq_ready_def)
  have pics: "master m0 d1 = \<lparr>phase = 0, base = 0x20, cascade = 4, icw4 = 1, imr = 0xff\<rparr>"
    "slave s0 d1 = \<lparr>phase = 0, base = 0x28, cascade = 2, icw4 = 1, imr = 0xff\<rparr>"
    by (simp_all add: d1_def master_def slave_def pic_after_irq_init)
  have dev: "device (cpu d1) = device (cpu d)" by (simp add: d1_def apic_off_def)
  have d1: "irq_initialized d1" "\<not> bit (rflags (cpu d1)) 9" "pics_ready m0 s0 d1"
    using IF assms(3) pics dev by (simp_all add: d1_def apic_off_def pics_ready_def mask_readable_def)
  have timer: "timer_init d = irq_enable 0 d1"
    using assms(1,2) IF
    by (simp add: timer_init_def irq_init_works x86_read_rflags_def flag_bits d1_def port_defs Let_def)
  note en = irq_enable_works [OF d1(1) _ d1(2) d1(3), of 0, simplified]
  define d' where "d' = snd (irq_enable 0 d1)"
  have eq: "irq_enable 0 d1 = (True, d')" and ready: "pics_ready m0 s0 d'" and only: "only_ports d1 d'"
    using en(1-3) by (simp_all add: d'_def)
  have mask: "masked (master m0 d') (slave s0 d') k \<longleftrightarrow> k \<noteq> 0" if "k < 16" for k
    using en(4) [OF that] that all_masked [of "master m0 d1" "slave s0 d1" k]
    by (simp add: d'_def pics)
  have hist: "io (cpu d') = Out 0x80 0 # Out 0x21 v # In 0x21 w # io (cpu d1)" if
    "v = imr (master m0 d1) AND NOT 1" "w = imr (master m0 d1)" for v w
    using d1 eq that inb_mask [OF d1(3)] by (auto simp: irq_enable_eq unmask_def pic_write_def outb_def x86_outb_def)
  show ?thesis
  proof (rule that [of d'])
    show "timer_init d = (True, d')" using timer eq by simp
    show "control (pit_after p0 (io (cpu d'))) = 0x34" "reload (pit_after p0 (io (cpu d'))) = 11932"
      using hist by (simp_all add: d1_def)
    have "rflags (apic_off (cpu d)) = rflags (cpu d)" by (simp add: apic_off_def)
    then show "ticks d' = 0" "timer_initialized d'" "irq_initialized d'" "\<not> bit (rflags (cpu d')) 9"
      using only IF by (auto simp: only_ports_def d1_def)
  qed (use ready mask in auto)
qed


section \<open>Properties\<close>

text \<open>A machine whose controllers answer as described, with the transmitter always ready.\<close>

definition pic0 :: pic where
  "pic0 = \<lparr>phase = 0, base = 0, cascade = 0, icw4 = 0, imr = 0\<rparr>"

definition pit0 :: pit where
  "pit0 = \<lparr>control = 0, low_next = True, reload = 0\<rparr>"

definition pc_device :: "io_event list \<Rightarrow> u16 \<Rightarrow> u8" where
  "pc_device h p = (if p = 0x21 then imr (pic_after 0x20 pic0 h)
     else if p = 0xa1 then imr (pic_after 0xa0 pic0 h)
     else if p = 0x3fd then 0x60 else if p = 0x3fa then 1 else 0)"

definition pc_machine :: machine where
  "pc_machine = \<lparr>rsp = 0, rflags = 2, cr0 = 0, cr3 = 0, cr4 = 0, msr = (\<lambda>_. 0),
     cpuid = (\<lambda>_ _. \<lparr>eax = 0, ebx = 0, ecx = 0, edx = 0x200\<rparr>), ram = (\<lambda>_. 0), tlb = (\<lambda>_. None),
     io = [], device = pc_device\<rparr>"

definition pc_drivers :: drivers where
  "pc_drivers = \<lparr>cpu = pc_machine, irq_initialized = False, unexpected_irqs = 0, ticks = 0,
     timer_initialized = False, receive_buffer = demo_buffer, receive_enabled = False,
     serial_rx_interrupts = 0, serial_rx_dropped = 0, serial_rx_overflows = 0,
     irq_source = (\<lambda>_. [])\<rparr>"

lemma pc_mask_readable: "mask_readable pic0 pic0 pc_machine"
  by (simp add: mask_readable_def pc_machine_def pc_device_def)

lemma pc_ready: "irq_ready pc_drivers"
  by (simp add: irq_ready_def pc_drivers_def pc_machine_def bit_numeral_word_iff)

text \<open>
  \<open>irq_init\<close> succeeds exactly on the first call, with interrupts disabled and no x2APIC
  in use, and changes nothing otherwise. On success the two controllers are programmed so
  that line \<open>k\<close> raises vector \<open>32 + k\<close> and all sixteen lines are masked, whatever state
  the firmware left them in, and a local APIC is switched off.
\<close>

lemma irq_init_remaps:
  "if irq_ready d
   then \<exists>d'. irq_init d = (True, d') \<and> irq_initialized d'
     \<and> (\<forall>k. k < 16 \<longrightarrow> vector_of (master m0 d') (slave s0 d') k = of_nat (32 + k)
          \<and> masked (master m0 d') (slave s0 d') k)
     \<and> phase (master m0 d') = 0 \<and> phase (slave s0 d') = 0
     \<and> cascade (master m0 d') = 4 \<and> cascade (slave s0 d') = 2
     \<and> (bit (edx (cpuid (cpu d) 1 0)) 9 \<longrightarrow> \<not> bit (msr (cpu d') 0x1b) 11)
     \<and> rflags (cpu d') = rflags (cpu d) \<and> ram (cpu d') = ram (cpu d)
   else irq_init d = (False, d)"
proof (cases "irq_ready d")
  case True
  define d' where "d' = snd (irq_init d)"
  note init = irq_init_works [OF True]
  have pics: "master m0 d' = \<lparr>phase = 0, base = 0x20, cascade = 4, icw4 = 1, imr = 0xff\<rparr>"
    "slave s0 d' = \<lparr>phase = 0, base = 0x28, cascade = 2, icw4 = 1, imr = 0xff\<rparr>"
    by (simp_all add: d'_def init master_def slave_def pic_after_irq_init)
  have "vector_of (master m0 d') (slave s0 d') k = of_nat (32 + k)" if "k < 16" for k
    using that by (simp add: vector_of_def pics of_nat_diff)
  moreover have "masked (master m0 d') (slave s0 d') k" if "k < 16" for k
    using that by (simp add: all_masked pics)
  moreover have "irq_init d = (True, d')" "irq_initialized d'"
    "rflags (cpu d') = rflags (cpu d)" "ram (cpu d') = ram (cpu d)"
    "bit (edx (cpuid (cpu d) 1 0)) 9 \<longrightarrow> \<not> bit (msr (cpu d') 0x1b) 11"
    by (simp_all add: d'_def init apic_off_def bit_simps)
  ultimately show ?thesis using True pics by auto
qed (simp add: irq_init_fails)

text \<open>
  \<open>irq_enable\<close> is refused before \<open>irq_init\<close>, for a line above 15 and with interrupts
  enabled, without touching the hardware. Otherwise it unmasks this line, and line 2 to
  which the slave is wired when the line is on the slave, and no other.
\<close>

lemma irq_enable_exact:
  assumes "pics_ready m0 s0 d"
  shows "if irq_initialized d \<and> irq < 16 \<and> \<not> bit (rflags (cpu d)) 9
   then \<exists>d'. irq_enable irq d = (True, d') \<and> pics_ready m0 s0 d' \<and> only_ports d d'
     \<and> (\<forall>k < 16. masked (master m0 d') (slave s0 d') k \<longleftrightarrow>
          masked (master m0 d) (slave s0 d) k \<and> k \<noteq> unat irq \<and> \<not> (8 \<le> unat irq \<and> k = 2))
   else irq_enable irq d = (False, d)"
proof (cases "irq_initialized d \<and> irq < 16 \<and> \<not> bit (rflags (cpu d)) 9")
  case True
  then show ?thesis using irq_enable_works [OF _ _ _ assms, of irq] by auto
next
  case False
  then show ?thesis by (auto simp: irq_enable_def x86_read_rflags_def bit9_iff)
qed

text \<open>
  C24: \<open>timer_init\<close> succeeds exactly on the first call with interrupts disabled and
  \<open>irq_init\<close> possible; it then has programmed the timer as rate generator with reload value
  11932 (1193182 Hz / 11932, about 100 Hz), cleared the tick counter and unmasked line 0
  only. A refused call changes nothing.
\<close>

theorem timer_init_effect:
  assumes "mask_readable m0 s0 (cpu d)"
  shows "if irq_ready d \<and> \<not> timer_initialized d
   then \<exists>d'. timer_init d = (True, d') \<and> ticks d' = 0 \<and> timer_initialized d' \<and> irq_initialized d'
     \<and> (\<forall>k < 16. masked (master m0 d') (slave s0 d') k \<longleftrightarrow> k \<noteq> 0)
     \<and> control (pit_after p0 (io (cpu d'))) = 0x34 \<and> reload (pit_after p0 (io (cpu d'))) = 11932
     \<and> \<not> bit (rflags (cpu d')) 9
   else timer_init d = (False, d)"
proof (cases "irq_ready d \<and> \<not> timer_initialized d")
  case True
  then obtain d' where "timer_init d = (True, d')"
    "\<And>k. k < 16 \<Longrightarrow> masked (master m0 d') (slave s0 d') k \<longleftrightarrow> k \<noteq> 0"
    "ticks d' = 0" "timer_initialized d'" "irq_initialized d'" "\<not> bit (rflags (cpu d')) 9"
    "control (pit_after p0 (io (cpu d'))) = 0x34" "reload (pit_after p0 (io (cpu d'))) = 11932"
    using timer_init_works [OF _ _ assms, of p0] by blast
  with True show ?thesis by auto
next
  case False
  then show ?thesis by (auto simp: timer_init_def irq_init_fails)
qed

lemma pc_fresh: "mask_readable pic0 pic0 (cpu pc_drivers)" "\<not> timer_initialized pc_drivers"
  using pc_mask_readable by (simp_all add: pc_drivers_def)

theorem timer_init_effect_witness:
  "\<exists>d'. timer_init pc_drivers = (True, d') \<and> \<not> masked (master pic0 d') (slave pic0 d') 0
     \<and> masked (master pic0 d') (slave pic0 d') 4 \<and> reload (pit_after pit0 (io (cpu d'))) = 11932"
proof -
  obtain d' where "timer_init pc_drivers = (True, d')" "reload (pit_after pit0 (io (cpu d'))) = 11932"
    "\<forall>k < 16. masked (master pic0 d') (slave pic0 d') k \<longleftrightarrow> k \<noteq> 0"
    using timer_init_effect [OF pc_fresh(1), of pit0] pc_ready pc_fresh(2) by auto
  then show ?thesis by (intro exI [of _ d']) simp
qed

lemma pc_timer:
  obtains d' where "timer_init pc_drivers = (True, d')" "pics_ready pic0 pic0 d'"
    "irq_initialized d'" "\<not> bit (rflags (cpu d')) 9"
    "\<And>k. k < 16 \<Longrightarrow> masked (master pic0 d') (slave pic0 d') k \<longleftrightarrow> k \<noteq> 0"
  by (rule timer_init_works [OF pc_ready pc_fresh(2,1), of pit0]) blast

end
