(* ===== verification/SerialProps.thy ===== *)
theory SerialProps
  imports Serial Controllers "HOL-Library.Sublist"
begin

text \<open>
  Correctness of the serial driver and the interrupt dispatcher. The observable behaviour is
  the port traffic: \<open>sent\<close> are the bytes given to the transmitter, and \<open>rx_event\<close> says what
  each access means for the receive queue and its two loss counters. \<open>traffic d evs d'\<close>
  states that the driver moved from one state to the other by the accesses \<open>evs\<close> and that
  its receive state followed them.
\<close>

section \<open>The meaning of port accesses\<close>

fun sent_by :: "io_event \<Rightarrow> u8 list" where
  "sent_by (Out p v) = (if p = COM1 then [v] else [])"
| "sent_by (In p v) = []"

definition sent :: "io_event list \<Rightarrow> u8 list" where
  "sent evs = concat (map sent_by evs)"

fun received_by :: "io_event \<Rightarrow> u8 list" where
  "received_by (In p v) = (if p = COM1 then [v] else [])"
| "received_by (Out p v) = []"

definition received :: "io_event list \<Rightarrow> u8 list" where
  "received evs = concat (map received_by evs)"

lemma sent_simps [simp]:
  "sent [] = []" "sent (e # evs) = sent_by e @ sent evs" "sent (xs @ ys) = sent xs @ sent ys"
  by (simp_all add: sent_def)

lemma received_simps [simp]:
  "received [] = []" "received (e # evs) = received_by e @ received evs"
  "received (xs @ ys) = received xs @ received ys"
  by (simp_all add: received_def)

text \<open>The receive queue with the counters of dropped items and of overflows.\<close>

type_synonym rx_state = "rx_view \<times> u64 \<times> u64"

fun rx_lose :: "rx_state \<Rightarrow> rx_state" where
  "rx_lose (q, dropped, overflows) = (Lost, dropped + 1, overflows)"

fun rx_byte :: "u8 \<Rightarrow> rx_state \<Rightarrow> rx_state" where
  "rx_byte b (q, dropped, overflows) =
     (case view_push q b of
        (True, q') \<Rightarrow> (q', dropped, overflows)
      | (False, q') \<Rightarrow> (q', dropped + 1, if q = Lost then overflows else overflows + 1))"

text \<open>
  A line status with an error bit loses input, a byte read from the data port enters the
  queue, and so does giving up: interrupts switched off or the receive FIFO cleared.
\<close>

fun rx_event :: "io_event \<Rightarrow> rx_state \<Rightarrow> rx_state" where
  "rx_event (In p v) s =
     (if p = COM1 then rx_byte v s
      else if p = COM1 + 5 \<and> v AND 0x1e \<noteq> 0 then rx_lose s else s)"
| "rx_event (Out p v) s = (if p = COM1 + 1 \<or> p = COM1 + 2 then rx_lose s else s)"

definition rx_abs :: "drivers \<Rightarrow> rx_state" where
  "rx_abs d = (rx_view_of (receive_buffer d), serial_rx_dropped d, serial_rx_overflows d)"

definition same_setup :: "drivers \<Rightarrow> drivers \<Rightarrow> bool" where
  "same_setup d d' \<longleftrightarrow> receive_enabled d' = receive_enabled d \<and> irq_source d' = irq_source d
     \<and> irq_initialized d' = irq_initialized d \<and> timer_initialized d' = timer_initialized d"

definition traffic :: "drivers \<Rightarrow> io_event list \<Rightarrow> drivers \<Rightarrow> bool" where
  "traffic d evs d' \<longleftrightarrow> did d evs d' \<and> same_setup d d'
     \<and> (rx_wf (receive_buffer d) \<longrightarrow>
          rx_wf (receive_buffer d') \<and> rx_abs d' = fold rx_event evs (rx_abs d))"

lemma traffic_refl [simp]: "traffic d [] d"
  by (simp add: traffic_def same_setup_def)

lemma traffic_trans: "traffic d xs d1 \<Longrightarrow> traffic d1 ys d2 \<Longrightarrow> traffic d (xs @ ys) d2"
  by (auto simp: traffic_def same_setup_def intro: did_trans)

lemma traffic_did: "traffic d evs d' \<Longrightarrow> did d evs d'"
  by (simp add: traffic_def)

lemma traffic_enabled: "traffic d evs d' \<Longrightarrow> receive_enabled d' = receive_enabled d"
  by (simp add: traffic_def same_setup_def)

text \<open>Accesses that mean nothing to the receiver.\<close>

definition neutral :: "io_event \<Rightarrow> bool" where
  "neutral e \<longleftrightarrow> (\<forall>s. rx_event e s = s)"

lemma neutral_ports:
  "p \<noteq> COM1 \<Longrightarrow> p \<noteq> COM1 + 5 \<Longrightarrow> neutral (In p v)"
  "p \<noteq> COM1 + 1 \<Longrightarrow> p \<noteq> COM1 + 2 \<Longrightarrow> neutral (Out p v)"
  by (simp_all add: neutral_def)

lemma traffic_outb: "neutral (Out p v) \<Longrightarrow> traffic d [Out p v] (outb p v d)"
  unfolding neutral_def traffic_def by (simp add: same_setup_def rx_abs_def)

lemma traffic_inb: "inb p d = (v, d') \<Longrightarrow> neutral (In p v) \<Longrightarrow> traffic d [In p v] d'"
  unfolding neutral_def traffic_def by (simp add: same_setup_def rx_abs_def inb_frame did_inb)

lemma receive_error_eq:
  "receive_error d = d\<lparr>receive_buffer := rx_fail (receive_buffer d),
     serial_rx_dropped := serial_rx_dropped d + 1\<rparr>"
proof -
  have "x86_irq_restore (rflags m) (m\<lparr>rflags := rflags m AND NOT 0x200\<rparr>) = m" for m
  proof (cases "bit (rflags m) 9")
    case True
    have "(rflags m AND NOT 0x200) OR 0x200 = rflags m"
    proof (rule bit_word_eqI)
      fix n
      have "bit (0x200 :: u64) n \<longleftrightarrow> n = 9" using bit_exp_iff [of 9 n, where 'a = u64] by auto
      then show "bit ((rflags m AND NOT 0x200) OR 0x200) n = bit (rflags m) n" if "n < LENGTH(64)"
        using True that by (auto simp: bit_simps)
    qed
    then show ?thesis using True
      by (simp add: x86_irq_restore_def x86_enable_interrupts_def bit9_iff)
  next
    case False
    have "rflags m AND NOT 0x200 = rflags m"
    proof (rule bit_word_eqI)
      fix n
      have "bit (0x200 :: u64) n \<longleftrightarrow> n = 9" using bit_exp_iff [of 9 n, where 'a = u64] by auto
      then show "bit (rflags m AND NOT 0x200) n = bit (rflags m) n" if "n < LENGTH(64)"
        using False that by (auto simp: bit_simps)
    qed
    then show ?thesis using False by (simp add: x86_irq_restore_def bit9_iff)
  qed
  then show ?thesis
    by (simp add: receive_error_def x86_irq_save_def x86_read_rflags_def x86_disable_interrupts_def)
qed


section \<open>The handlers\<close>

text \<open>The driver made at most \<open>n\<close> accesses, all satisfying \<open>P\<close>, and the receive state followed.\<close>

definition handled :: "(io_event \<Rightarrow> bool) \<Rightarrow> nat \<Rightarrow> drivers \<Rightarrow> drivers \<Rightarrow> bool" where
  "handled P n d d' \<longleftrightarrow> (\<exists>evs. traffic d evs d' \<and> list_all P evs \<and> length evs \<le> n)"

lemma handled_refl [simp]: "handled P n d d"
  unfolding handled_def by (rule exI [of _ "[]"]) simp

lemma handled_trans: "handled P m d d1 \<Longrightarrow> handled P n d1 d2 \<Longrightarrow> handled P (m + n) d d2"
  unfolding handled_def by (elim exE conjE, rule exI, intro conjI, erule (1) traffic_trans) auto

lemma handled_mono: "handled P m d d' \<Longrightarrow> m \<le> n \<Longrightarrow> (\<And>e. P e \<Longrightarrow> Q e) \<Longrightarrow> handled Q n d d'"
  unfolding handled_def by (metis (mono_tags, lifting) list.pred_mono_strong order_trans)

lemma handledI: "traffic d evs d' \<Longrightarrow> list_all P evs \<Longrightarrow> length evs \<le> n \<Longrightarrow> handled P n d d'"
  unfolding handled_def by blast

text \<open>The accesses of the receive path: UART registers, and nothing is written to the transmitter.\<close>

fun uart_rx :: "io_event \<Rightarrow> bool" where
  "uart_rx (In p v) \<longleftrightarrow> p \<in> {COM1, COM1 + 2, COM1 + 5}"
| "uart_rx (Out p v) \<longleftrightarrow> p \<in> {COM1 + 1, COM1 + 2}"

fun no_send :: "io_event \<Rightarrow> bool" where
  "no_send (In p v) \<longleftrightarrow> True"
| "no_send (Out p v) \<longleftrightarrow> p \<noteq> COM1"

lemma uart_no_send: "uart_rx e \<Longrightarrow> no_send e"
  by (cases e) auto

lemma no_send_sent: "list_all no_send evs \<Longrightarrow> sent evs = []"
proof (induction evs)
  case (Cons e evs)
  then show ?case by (cases e) auto
qed simp

lemma rx_fail_abs:
  "rx_wf (receive_buffer d) \<Longrightarrow> rx_wf (receive_buffer (receive_error d))
     \<and> rx_abs (receive_error d) = rx_lose (rx_abs d)"
  using rxq.fail_wf rxq.fail_view by (simp add: receive_error_eq rx_abs_def)

lemma receive_error_frame [simp]:
  "cpu (receive_error d) = cpu d" "same_setup d (receive_error d)"
  by (simp_all add: receive_error_eq same_setup_def)

text \<open>A line status read, and the loss it reports.\<close>

lemma traffic_status:
  assumes "inb (COM1 + 5) d = (st, d1)"
  shows "traffic d [In (COM1 + 5) st] (if st AND 0x1e \<noteq> 0 then receive_error d1 else d1)"
  using assms inb_frame [OF assms] did_inb [OF assms] rx_fail_abs [of d1]
  by (auto simp: traffic_def same_setup_def did_def rx_abs_def receive_error_eq)

text \<open>A byte read from the data port, entered into the queue.\<close>

lemma traffic_data:
  assumes inb: "inb COM1 d = (b, d1)" and push: "rx_push (receive_buffer d1) b = (ok, q)"
  shows "traffic d [In COM1 b] (if ok then d1\<lparr>receive_buffer := q\<rparr>
    else d1\<lparr>receive_buffer := q,
      serial_rx_overflows := serial_rx_overflows d1 + (if failed (receive_buffer d1) then 0 else 1),
      serial_rx_dropped := serial_rx_dropped d1 + 1\<rparr>)"
proof -
  have "rx_wf q \<and> rx_view_of q = snd (view_push (rx_view_of (receive_buffer d1)) b)
      \<and> ok = fst (view_push (rx_view_of (receive_buffer d1)) b)" if "rx_wf (receive_buffer d1)"
    using rxq.push_cases [OF that, of b] rxq.push_wf [OF that, of b] push by simp
  moreover have "rx_view_of (receive_buffer d1) = Lost \<longleftrightarrow> failed (receive_buffer d1)"
    by (simp add: rx_view_of_def)
  ultimately show ?thesis using inb_frame [OF inb] did_inb [OF inb]
    by (auto simp: traffic_def same_setup_def did_def rx_abs_def split: prod.splits bool.splits)
qed

lemma receive_byte_handled: "handled uart_rx 2 d (receive_byte d)"
proof -
  obtain st d1 where st: "inb (COM1 + 5) d = (st, d1)" by fastforce
  define d2 where "d2 = (if st AND 0x1e \<noteq> 0 then receive_error d1 else d1)"
  have t: "traffic d [In (COM1 + 5) st] d2" using traffic_status [OF st] by (simp add: d2_def)
  obtain b d3 where b: "inb COM1 d2 = (b, d3)" by fastforce
  obtain ok q where q: "rx_push (receive_buffer d3) b = (ok, q)" by fastforce
  show ?thesis
  proof (cases "st AND 1 = 0")
    case True
    then have "receive_byte d = d2" using st by (simp add: receive_byte_def d2_def)
    then show ?thesis using handledI [OF t, of uart_rx 2] by simp
  next
    case False
    have "receive_byte d = (if ok then d3\<lparr>receive_buffer := q\<rparr>
    else d3\<lparr>receive_buffer := q,
      serial_rx_overflows := serial_rx_overflows d3 + (if failed (receive_buffer d3) then 0 else 1),
      serial_rx_dropped := serial_rx_dropped d3 + 1\<rparr>)"
      using st b q False by (simp add: receive_byte_def d2_def [symmetric] Let_def)
    then show ?thesis using traffic_trans [OF t traffic_data [OF b q]]
      by (auto intro!: handledI)
  qed
qed

lemma handled_inb: "inb p d = (v, d') \<Longrightarrow> neutral (In p v) \<Longrightarrow> P (In p v) \<Longrightarrow> handled P 1 d d'"
  by (rule handledI [OF traffic_inb]) simp_all

lemma handled_outb: "neutral (Out p v) \<Longrightarrow> P (Out p v) \<Longrightarrow> handled P 1 d (outb p v d)"
  by (rule handledI [OF traffic_outb]) simp_all

text \<open>Giving up on the receiver: the loss is recorded together with the register write.\<close>

lemma handled_give_up:
  assumes "p = COM1 + 1 \<or> p = COM1 + 2"
  shows "handled uart_rx 1 d (outb p v (receive_error d))" "handled uart_rx 1 d (receive_error (outb p v d))"
  using assms rx_fail_abs [of d] did_outb [of d p v] rx_fail_abs [of "outb p v d"]
  by (auto intro!: handledI [of d "[Out p v]"] simp: traffic_def same_setup_def did_def outb_def
      receive_error_eq rx_abs_def)

lemma service_handled:
  "case service d of Inl d' \<Rightarrow> handled uart_rx 2 d d' | Inr d' \<Rightarrow> handled uart_rx 3 d d'"
proof -
  obtain c d1 where c: "inb (COM1 + 2) d = (c, d1)" by fastforce
  then have h: "handled uart_rx 1 d d1" by (rule handled_inb) (simp_all add: neutral_ports)
  have "handled uart_rx 3 d (receive_byte d1)"
    using handled_trans [OF h receive_byte_handled] by (simp add: numeral_3_eq_3)
  moreover have "handled uart_rx 2 d (receive_error (outb (COM1 + 1) 0 d1))"
    using handled_trans [OF h handled_give_up(2), of "COM1 + 1" 0] by (simp add: numeral_2_eq_2)
  moreover have "handled uart_rx 2 d d1" using handled_mono [OF h] by simp
  ultimately show ?thesis using c by (simp add: service_def)
qed

lemma serial_interrupt_handled: "handled uart_rx 769 d (serial_interrupt d)"
proof -
  define d0 where "d0 = d\<lparr>serial_rx_interrupts := serial_rx_interrupts d + 1\<rparr>"
  have d0: "handled uart_rx 0 d d0"
    by (rule handledI [of _ "[]"]) (simp_all add: d0_def traffic_def did_def same_setup_def rx_abs_def)
  have loop: "case for_ret 0 256 (\<lambda>_. service) d0 of Inl r \<Rightarrow> handled uart_rx 768 d r
      | Inr t \<Rightarrow> handled uart_rx (3 * unat (256 :: u64)) d t"
  proof (rule for_ret_inv)
    fix k t assume k: "k < unat (256 :: u64)" and h: "handled uart_rx (3 * k) d t"
    have "handled uart_rx 768 d r" if "handled uart_rx 2 t r" for r
      using handled_mono [OF handled_trans [OF h that], of 768] k by simp
    moreover have "handled uart_rx (3 * Suc k) d r" if "handled uart_rx 3 t r" for r
      using handled_trans [OF h that] by (simp add: add.commute)
    ultimately show "case service t of Inl r \<Rightarrow> handled uart_rx 768 d r
        | Inr t' \<Rightarrow> handled uart_rx (3 * Suc k) d t'"
      using service_handled [of t] by (cases "service t") simp_all
  qed (use d0 in simp_all)
  have "handled uart_rx 769 d (outb (COM1 + 2) 3 (receive_error t))" if "handled uart_rx 768 d t" for t
    using handled_trans [OF that handled_give_up(1), of "COM1 + 2" 3] by simp
  moreover have "handled uart_rx 769 d r" if "handled uart_rx 768 d r" for r
    using handled_mono [OF that] by simp
  ultimately show ?thesis using loop
    by (auto simp: serial_interrupt_def d0_def [symmetric] Let_def split: sum.splits)
qed

lemma same_setup_refl [simp]: "same_setup d d"
  by (simp add: same_setup_def)

lemma handled_counter:
  "handled P 0 d (timer_interrupt d)" "handled P 0 d (d\<lparr>unexpected_irqs := n\<rparr>)"
  by (rule handledI [of _ "[]"]; simp add: timer_interrupt_def traffic_def did_def same_setup_def rx_abs_def)+

lemma pic_outb: "p \<in> {0x20, 0x21, 0xa0, 0xa1} \<Longrightarrow> handled no_send 1 d (outb p v d)"
  by (intro handled_outb) (auto intro: neutral_ports)

lemma pic_inb: "inb p d = (v, d') \<Longrightarrow> p \<in> {0x20, 0x21, 0xa0, 0xa1} \<Longrightarrow> handled no_send 1 d d'"
  by (erule handled_inb) (auto intro: neutral_ports)

lemma mask_unexpected_handled: "handled no_send 2 d (mask_unexpected vector d)"
proof -
  define p :: u16 where "p = (if vector < 40 then 0x21 else 0xa1)"
  obtain v d1 where v: "inb p (d\<lparr>unexpected_irqs := unexpected_irqs d + 1\<rparr>) = (v, d1)" by fastforce
  have "p \<in> {0x20, 0x21, 0xa0, 0xa1}" by (simp add: p_def)
  then show ?thesis
    using handled_trans [OF handled_trans [OF handled_counter(2) pic_inb [OF v]] pic_outb] v
    by (simp add: mask_unexpected_def p_def numeral_2_eq_2)
qed

text \<open>An interrupt leaves at most 774 port accesses, and none of them sends a byte.\<close>

lemma irq_dispatch_handled: "handled no_send 774 d (irq_dispatch vector d)"
proof -
  define p :: u16 where "p = (if vector = 39 then 0x20 else 0xa0)"
  define s where "s \<longleftrightarrow> vector = 39 \<or> vector = 47"
  obtain isr d1 where d1: "(if s then inb p (outb p 0x0b d) else (0x80, d)) = (isr, d1)" by fastforce
  have p: "p \<in> {0x20, 0x21, 0xa0, 0xa1}" by (simp add: p_def)
  have "handled no_send 2 d d1"
  proof (cases s)
    case True
    then have "inb p (outb p 0x0b d) = (isr, d1)" using d1 by simp
    then show ?thesis using handled_trans [OF pic_outb pic_inb, OF p _ p] by (simp add: numeral_2_eq_2)
  qed (use d1 in simp)
  note h1 = this
  define d2 where "d2 = (if vector = 32 then timer_interrupt d1
    else if vector = 36 then serial_interrupt d1 else mask_unexpected vector d1)"
  have "handled no_send 769 d1 d2"
    using handled_mono [OF serial_interrupt_handled] handled_mono [OF mask_unexpected_handled]
      handled_mono [OF handled_counter(1) [where P = no_send]]
    by (auto simp: d2_def uart_no_send)
  with h1 have h2: "handled no_send 771 d d2" using handled_trans by fastforce
  have h3: "handled no_send 772 d (if vector \<ge> 40 then outb 0xa0 0x20 d2 else d2)"
    using handled_trans [OF h2 pic_outb] handled_mono [OF h2] by simp
  have "handled no_send 774 d (outb 0x20 0x20 d1)" "handled no_send 774 d d1"
    using handled_mono [OF handled_trans [OF h1 pic_outb]] handled_mono [OF h1] by simp_all
  moreover have "handled no_send 774 d (outb 0x20 0x20 (if vector \<ge> 40 then outb 0xa0 0x20 d2 else d2))"
    using handled_mono [OF handled_trans [OF h3 pic_outb]] by simp
  ultimately show ?thesis using d1
    by (simp add: irq_dispatch_def p_def [symmetric] s_def [symmetric] d2_def [symmetric] Let_def)
qed

lemma take_irq_handled: "handled no_send 774 d (take_irq vector d)"
proof -
  define d0 where "d0 = d\<lparr>cpu := x86_disable_interrupts (cpu d)\<rparr>"
  obtain evs where evs: "traffic d0 evs (irq_dispatch vector d0)" "list_all no_send evs" "length evs \<le> 774"
    using irq_dispatch_handled [of d0 vector] by (auto simp: handled_def)
  then have "traffic d evs (take_irq vector d)"
    by (simp add: traffic_def did_def same_setup_def rx_abs_def take_irq_def d0_def [symmetric] Let_def)
      (simp add: d0_def x86_disable_interrupts_def)
  then show ?thesis using evs by (auto intro: handledI)
qed

lemma take_irqs_handled: "\<exists>n. handled no_send n d (fold take_irq vs d)"
proof (induction vs arbitrary: d)
  case (Cons v vs)
  then obtain n where "handled no_send n (take_irq v d) (fold take_irq vs (take_irq v d))" by blast
  then show ?case using handled_trans [OF take_irq_handled] by fastforce
qed (simp add: exI [of _ 0])

lemma irq_window_traffic:
  obtains evs where "traffic d evs (irq_window d)" "sent evs = []"
proof -
  obtain n where "handled no_send n d (irq_window d)"
    using take_irqs_handled [of d "irq_source d (io (cpu d))"] unfolding irq_window_def
    by (metis handled_refl)
  then show ?thesis using that no_send_sent by (auto simp: handled_def)
qed

text \<open>No interrupt will be taken: the flag is clear or no device raises one.\<close>

definition quiet :: "drivers \<Rightarrow> bool" where
  "quiet d \<longleftrightarrow> \<not> bit (rflags (cpu d)) 9 \<or> (\<forall>h. irq_source d h = [])"

lemma irq_window_off: "quiet d \<Longrightarrow> irq_window d = d"
  by (auto simp: irq_window_def quiet_def)


section \<open>The transmit path\<close>

text \<open>Accesses \<open>evs\<close> that may include a line status the driver did not act upon, unless \<open>b\<close>.\<close>

definition polled :: "bool \<Rightarrow> drivers \<Rightarrow> io_event list \<Rightarrow> drivers \<Rightarrow> bool" where
  "polled b d evs d' \<longleftrightarrow> did d evs d' \<and> same_setup d d' \<and> (b \<longrightarrow> traffic d evs d')
     \<and> (rx_wf (receive_buffer d) \<longrightarrow> rx_wf (receive_buffer d'))"

lemma polled_refl [simp]: "polled b d [] d"
  by (simp add: polled_def)

lemma polled_trans: "polled b d xs d1 \<Longrightarrow> polled b d1 ys d2 \<Longrightarrow> polled b d (xs @ ys) d2"
  by (auto simp: polled_def same_setup_def intro: did_trans traffic_trans)

lemma polled_weaken: "polled b d evs d' \<Longrightarrow> (c \<Longrightarrow> b) \<Longrightarrow> polled c d evs d'"
  by (auto simp: polled_def)

lemma traffic_polled: "traffic d evs d' \<Longrightarrow> polled b d evs d'"
  by (auto simp: polled_def traffic_def)

lemma wait_step_polled:
  "case wait_step m d of
     Inl (ok, d') \<Rightarrow> \<exists>evs. polled (ok \<and> receive_enabled d) d evs d' \<and> sent evs = []
   | Inr d' \<Rightarrow> \<exists>evs. polled (receive_enabled d) d evs d' \<and> sent evs = []"
proof -
  obtain ws where w: "traffic d ws (irq_window d)" "sent ws = []" by (rule irq_window_traffic)
  obtain st d1 where st: "inb (COM1 + 5) (irq_window d) = (st, d1)" by fastforce
  define e where "e = In (COM1 + 5) st"
  define d2 where "d2 = (if receive_enabled d1 \<and> st AND 0x1e \<noteq> 0 then receive_error d1 else d1)"
  have en: "receive_enabled d1 = receive_enabled d"
    using traffic_enabled [OF w(1)] inb_frame(5) [OF st] by simp
  have t2: "traffic (irq_window d) [e] d2" if "receive_enabled d"
    using traffic_status [OF st] en that by (simp add: d2_def e_def)
  have did2: "did (irq_window d) [e] d'" "same_setup (irq_window d) d'" if "d' = d1 \<or> d' = d2" for d'
    using that did_inb [OF st] inb_frame [OF st]
    by (auto simp: d2_def e_def did_def same_setup_def receive_error_eq split: if_splits)
  have rx: "rx_wf (receive_buffer d) \<longrightarrow> rx_wf (receive_buffer d')" if "d' = d1 \<or> d' = d2" for d'
    using that w(1) rx_fail_abs [of d1] inb_frame(4) [OF st] by (auto simp: d2_def traffic_def split: if_splits)
  have fin: "polled (b \<and> receive_enabled d) d (ws @ [e]) d'" "sent (ws @ [e]) = []"
    if "d' = d2 \<or> d' = d1 \<and> \<not> b" for b d'
    using that w did2 [of d'] rx [of d'] t2 did_trans [OF traffic_did [OF w(1)] did2(1) [of d']]
      traffic_trans [OF w(1) t2]
    by (auto simp: polled_def e_def traffic_def same_setup_def)
  show ?thesis using st fin(1) [of d1 False] fin(1) [of d2 True] fin(2) [of d2]
    by (auto simp: wait_step_def d2_def [symmetric] Let_def)
qed

lemma wait_status_polled:
  assumes "wait_status m d = (ok, d')"
  obtains evs where "polled (ok \<and> receive_enabled d) d evs d'" "sent evs = []"
proof -
  let ?Q = "\<lambda>(ok, d'). \<exists>evs. polled (ok \<and> receive_enabled d) d evs d' \<and> sent evs = []"
  let ?P = "\<lambda>t. \<exists>evs. polled (receive_enabled d) d evs t \<and> sent evs = []"
  have "case for_ret 0 POLL_LIMIT (\<lambda>_. wait_step m) d of Inl r \<Rightarrow> ?Q r | Inr t \<Rightarrow> ?P t"
  proof (rule for_ret_inv [where P = "\<lambda>_. ?P"])
    show "?P d" by (rule exI [of _ "[]"]) simp
  next
    fix t assume "?P t"
    then obtain xs where xs: "polled (receive_enabled d) d xs t" "sent xs = []" by blast
    then have en: "receive_enabled t = receive_enabled d" by (simp add: polled_def same_setup_def)
    show "case wait_step m t of Inl r \<Rightarrow> ?Q r | Inr t' \<Rightarrow> ?P t'"
    proof (cases "wait_step m t")
      case (Inl r)
      obtain ok' d' where r: "r = (ok', d')" by fastforce
      from wait_step_polled [of t m] Inl en obtain ys where
        "polled (ok' \<and> receive_enabled d) t ys d'" "sent ys = []" by (auto simp: r)
      then show ?thesis using Inl polled_trans [OF polled_weaken [OF xs(1)]] xs(2)
        by (auto simp: r intro!: exI [of _ "xs @ ys"])
    next
      case (Inr t')
      with wait_step_polled [of t m] en obtain ys where
        "polled (receive_enabled d) t ys t'" "sent ys = []" by auto
      then show ?thesis using Inr polled_trans [OF xs(1)] xs(2) by (auto intro!: exI [of _ "xs @ ys"])
    qed
  qed simp
  then have "?Q (ok, d')" using assms
    by (auto simp: wait_status_def split: sum.splits intro: polled_weaken)
  then show ?thesis using that by auto
qed

lemma polled_enabled: "polled b d evs d' \<Longrightarrow> receive_enabled d' = receive_enabled d"
  by (simp add: polled_def same_setup_def)

lemma put_byte_polled:
  assumes "put_byte v d = (ok, d')"
  obtains evs where "polled (ok \<and> receive_enabled d) d evs d'" "sent evs = (if ok then [v] else [])"
proof -
  obtain r d1 where w: "wait_status 0x20 d = (r, d1)" by fastforce
  then obtain xs where xs: "polled (r \<and> receive_enabled d) d xs d1" "sent xs = []"
    by (rule wait_status_polled)
  show ?thesis
  proof (cases r)
    case True
    obtain ws where ws: "traffic d1 ws (irq_window d1)" "sent ws = []" by (rule irq_window_traffic)
    have "traffic (irq_window d1) [Out COM1 v] d'" and ok: ok
      using assms w True by (auto simp: put_byte_def out_window_def intro!: traffic_outb neutral_ports)
    from polled_trans [OF xs(1) traffic_polled [OF traffic_trans [OF ws(1) this(1)]]]
    show ?thesis using True ok xs(2) ws(2) by (intro that) auto
  qed (use assms w xs that in \<open>auto simp: put_byte_def\<close>)
qed

text \<open>What a terminal receives for a text: each line feed is preceded by a carriage return.\<close>

definition crlf :: "u8 list \<Rightarrow> u8 list" where
  "crlf text = concat (map (\<lambda>c. if c = 0x0a then [0x0d, 0x0a] else [c]) text)"

lemma serial_write_polled:
  assumes "serial_write cs d = (ok, d')"
  obtains evs where "polled (ok \<and> receive_enabled d) d evs d'" "prefix (sent evs) (crlf cs)"
    "ok \<longleftrightarrow> sent evs = crlf cs"
proof -
  have "\<exists>evs. polled (ok \<and> receive_enabled d) d evs d' \<and> prefix (sent evs) (crlf cs)
      \<and> (ok \<longleftrightarrow> sent evs = crlf cs)"
    using assms
  proof (induction cs arbitrary: d)
    case Nil
    then show ?case by (auto simp: crlf_def intro!: exI [of _ "[]"])
  next
    case (Cons c cs)
    obtain r1 d1 where r1: "(if c = 0x0a then put_byte 0x0d d else (True, d)) = (r1, d1)" by fastforce
    define cr :: "u8 list" where "cr = (if c = 0x0a then [0x0d] else [])"
    have cons: "crlf (c # cs) = cr @ c # crlf cs" by (simp add: crlf_def cr_def)
    obtain xs where xs: "polled (r1 \<and> receive_enabled d) d xs d1" "sent xs = (if r1 then cr else [])"
      "\<not> r1 \<Longrightarrow> cr \<noteq> []"
    proof (cases "c = 0x0a")
      case True
      then have "put_byte 0x0d d = (r1, d1)" using r1 by simp
      from put_byte_polled [OF this] True that show ?thesis unfolding cr_def by (metis list.distinct(1))
    qed (use r1 that [of "[]"] in \<open>auto simp: cr_def\<close>)
    show ?case
    proof (cases r1)
      case False
      then show ?thesis using Cons.prems r1 xs by (auto simp: cons intro!: exI [of _ xs])
    next
      case True
      obtain r2 d2 where r2: "put_byte c d1 = (r2, d2)" by fastforce
      then obtain ys where ys: "polled (r2 \<and> receive_enabled d1) d1 ys d2" "sent ys = (if r2 then [c] else [])"
        by (rule put_byte_polled)
      have t: "polled (r2 \<and> receive_enabled d) d (xs @ ys) d2"
        using polled_trans [OF polled_weaken [OF xs(1)], of "r2 \<and> receive_enabled d" ys d2] ys(1) True
          polled_enabled [OF xs(1)] by simp
      show ?thesis
      proof (cases r2)
        case False
        then show ?thesis using Cons.prems r1 r2 True t xs(2) ys(2)
          by (auto simp: cons intro!: exI [of _ "xs @ ys"])
      next
        case r2t: True
        then have "serial_write cs d2 = (ok, d')" using Cons.prems r1 r2 True by simp
        from Cons.IH [OF this] polled_enabled [OF t] obtain zs where
          "polled (ok \<and> receive_enabled d) d2 zs d'" "prefix (sent zs) (crlf cs)"
          "ok \<longleftrightarrow> sent zs = crlf cs" by auto
        then show ?thesis
          using polled_trans [OF polled_weaken [OF t], of "ok \<and> receive_enabled d" zs d'] r2t True xs(2) ys(2)
          by (intro exI [of _ "(xs @ ys) @ zs"]) (auto simp: cons)
      qed
    qed
  qed
  then show ?thesis using that by blast
qed


section \<open>Polling without interrupts\<close>

text \<open>The history after \<open>n\<close> reads of the line status in a row.\<close>

primrec poll_hist :: "(io_event list \<Rightarrow> u16 \<Rightarrow> u8) \<Rightarrow> nat \<Rightarrow> io_event list \<Rightarrow> io_event list" where
  "poll_hist dev 0 h = h"
| "poll_hist dev (Suc n) h =
     (let h' = poll_hist dev n h in In (COM1 + 5) (dev h' (COM1 + 5)) # h')"

definition poll_status :: "drivers \<Rightarrow> nat \<Rightarrow> u8" where
  "poll_status d n = device (cpu d) (poll_hist (device (cpu d)) n (io (cpu d))) (COM1 + 5)"

definition decisive :: "u8 \<Rightarrow> u8 \<Rightarrow> bool" where
  "decisive m st \<longleftrightarrow> st = 0xff \<or> st AND m = m"

definition polls :: "nat \<Rightarrow> drivers \<Rightarrow> drivers \<Rightarrow> bool" where
  "polls n d d' \<longleftrightarrow> cpu d' = (cpu d)\<lparr>io := poll_hist (device (cpu d)) n (io (cpu d))\<rparr>
     \<and> irq_source d' = irq_source d"

lemma wait_step_polls:
  assumes "quiet d" and p: "polls n d t"
  shows "case wait_step m t of
      Inl (ok, d') \<Rightarrow> polls (Suc n) d d' \<and> decisive m (poll_status d n) \<and> (ok \<longleftrightarrow> poll_status d n \<noteq> 0xff)
    | Inr d' \<Rightarrow> polls (Suc n) d d' \<and> \<not> decisive m (poll_status d n)"
proof -
  have w: "irq_window t = t" using assms by (auto intro!: irq_window_off simp: quiet_def polls_def)
  have "inb (COM1 + 5) t = (poll_status d n,
      t\<lparr>cpu := (cpu d)\<lparr>io := poll_hist (device (cpu d)) (Suc n) (io (cpu d))\<rparr>\<rparr>)"
    using p by (simp add: polls_def inb_def x86_inb_def poll_status_def Let_def)
  moreover have "irq_source t = irq_source d" using p by (simp add: polls_def)
  ultimately show ?thesis
    unfolding wait_step_def w by (auto simp: polls_def decisive_def receive_error_eq Let_def)
qed

lemma wait_status_polls:
  assumes IF: "quiet d" and w: "wait_status m d = (ok, d')"
  shows "\<exists>n \<le> 1000000. polls n d d' \<and> (\<forall>i < n - 1. \<not> decisive m (poll_status d i))
    \<and> (if ok then 0 < n \<and> poll_status d (n - 1) \<noteq> 0xff \<and> poll_status d (n - 1) AND m = m
       else 0 < n \<and> poll_status d (n - 1) = 0xff \<or> n = 1000000 \<and> (\<forall>i < n. \<not> decisive m (poll_status d i)))"
proof -
  let ?P = "\<lambda>k t. polls k d t \<and> (\<forall>i < k. \<not> decisive m (poll_status d i))"
  let ?Q = "\<lambda>(ok, d'). \<exists>n < 1000000. polls (Suc n) d d' \<and> (\<forall>i < n. \<not> decisive m (poll_status d i))
      \<and> decisive m (poll_status d n) \<and> (ok \<longleftrightarrow> poll_status d n \<noteq> 0xff)"
  have loop: "case for_ret 0 POLL_LIMIT (\<lambda>_. wait_step m) d of
      Inl r \<Rightarrow> ?Q r | Inr t \<Rightarrow> ?P (unat POLL_LIMIT) t"
  proof (rule for_ret_inv [where P = ?P])
    fix k t assume "k < unat POLL_LIMIT" and P: "?P k t"
    then have k: "k < 1000000" by simp
    have "case wait_step m t of
      Inl (ok, d') \<Rightarrow> polls (Suc k) d d' \<and> decisive m (poll_status d k) \<and> (ok \<longleftrightarrow> poll_status d k \<noteq> 0xff)
    | Inr d' \<Rightarrow> polls (Suc k) d d' \<and> \<not> decisive m (poll_status d k)"
      using wait_step_polls [OF IF] P by blast
    then show "case wait_step m t of Inl r \<Rightarrow> ?Q r | Inr t' \<Rightarrow> ?P (Suc k) t'"
      using P k by (auto simp: less_Suc_eq split: sum.splits)
  qed (simp_all add: polls_def)
  show ?thesis
  proof (cases "for_ret 0 POLL_LIMIT (\<lambda>_. wait_step m) d")
    case (Inl r)
    then obtain n where "n < 1000000" "polls (Suc n) d d'" "\<forall>i < n. \<not> decisive m (poll_status d i)"
      "decisive m (poll_status d n)" "ok \<longleftrightarrow> poll_status d n \<noteq> 0xff"
      using loop w by (auto simp: wait_status_def)
    then show ?thesis by (intro exI [of _ "Suc n"]) (auto simp: decisive_def)
  next
    case (Inr t)
    then have "?P 1000000 d'" "\<not> ok" using loop w by (auto simp: wait_status_def)
    then show ?thesis by (intro exI [of _ 1000000]) auto
  qed
qed

end
