(* ===== verification/IrqProps.thy ===== *)
theory IrqProps
  imports SerialProps
begin

text \<open>
  Properties of the interrupt dispatcher and the serial driver, over the lemmas of
  \<open>SerialProps\<close>.
\<close>

section \<open>Counters\<close>

text \<open>What the receive path leaves alone.\<close>

definition same_counts :: "drivers \<Rightarrow> drivers \<Rightarrow> bool" where
  "same_counts d d' \<longleftrightarrow> ticks d' = ticks d \<and> unexpected_irqs d' = unexpected_irqs d
     \<and> serial_rx_interrupts d' = serial_rx_interrupts d"

lemma same_counts_trans: "same_counts d d1 \<Longrightarrow> same_counts d1 d2 \<Longrightarrow> same_counts d d2"
  by (simp add: same_counts_def)

lemma same_counts_steps [simp]:
  "same_counts d d" "same_counts d (outb p v d)" "same_counts d (receive_error d)"
  by (simp_all add: same_counts_def receive_error_eq)

lemma same_counts_inb: "inb p d = (v, d') \<Longrightarrow> same_counts d d'"
  by (simp add: same_counts_def inb_frame)

lemma receive_byte_counts: "same_counts d (receive_byte d)"
proof -
  obtain st d1 where st: "inb (COM1 + 5) d = (st, d1)" by fastforce
  define d2 where "d2 = (if st AND 0x1e \<noteq> 0 then receive_error d1 else d1)"
  obtain b d3 where b: "inb COM1 d2 = (b, d3)" by fastforce
  have "same_counts d d2" using same_counts_inb [OF st] by (simp add: d2_def same_counts_def receive_error_eq)
  then show ?thesis using st same_counts_inb [OF b] b
    by (auto simp: receive_byte_def d2_def [symmetric] Let_def same_counts_def split: prod.splits)
qed

lemma service_counts: "case service d of Inl d' \<Rightarrow> same_counts d d' | Inr d' \<Rightarrow> same_counts d d'"
proof -
  obtain c d1 where c: "inb (COM1 + 2) d = (c, d1)" by fastforce
  note t = same_counts_trans [OF same_counts_inb [OF c]]
  show ?thesis using c t receive_byte_counts [of d1] same_counts_inb [OF c]
    by (simp add: service_def t [OF same_counts_trans [OF same_counts_steps(2) same_counts_steps(3)]])
qed

lemma serial_interrupt_counts:
  "ticks (serial_interrupt d) = ticks d" "unexpected_irqs (serial_interrupt d) = unexpected_irqs d"
  "serial_rx_interrupts (serial_interrupt d) = serial_rx_interrupts d + 1"
proof -
  define d0 where "d0 = d\<lparr>serial_rx_interrupts := serial_rx_interrupts d + 1\<rparr>"
  have "case for_ret 0 256 (\<lambda>_. service) d0 of Inl r \<Rightarrow> same_counts d0 r | Inr t \<Rightarrow> same_counts d0 t"
  proof (rule for_ret_inv [where P = "\<lambda>_. same_counts d0"])
    fix t assume "same_counts d0 t"
    then show "case service t of Inl r \<Rightarrow> same_counts d0 r | Inr t' \<Rightarrow> same_counts d0 t'"
      using service_counts [of t] same_counts_trans [of d0 t] by (auto split: sum.splits)
  qed simp_all
  then have "same_counts d0 (serial_interrupt d)"
    by (auto simp: serial_interrupt_def d0_def [symmetric] Let_def split: sum.splits
        intro: same_counts_trans [OF _ same_counts_trans [OF same_counts_steps(3) same_counts_steps(2)]])
  then show "ticks (serial_interrupt d) = ticks d" "unexpected_irqs (serial_interrupt d) = unexpected_irqs d"
    "serial_rx_interrupts (serial_interrupt d) = serial_rx_interrupts d + 1"
    by (simp_all add: same_counts_def d0_def)
qed


section \<open>Acknowledging interrupts\<close>

text \<open>The end-of-interrupt commands among some accesses.\<close>

definition eois :: "u16 \<Rightarrow> io_event list \<Rightarrow> nat" where
  "eois c evs = length (filter (\<lambda>e. e = Out c 0x20) evs)"

lemma eois_simps [simp]:
  "eois c [] = 0" "eois c (xs @ ys) = eois c xs + eois c ys"
  "eois c (e # xs) = (if e = Out c 0x20 then 1 else 0) + eois c xs"
  by (simp_all add: eois_def)

lemma uart_eois: "list_all uart_rx evs \<Longrightarrow> c \<in> {0x20, 0xa0} \<Longrightarrow> eois c evs = 0"
proof (induction evs)
  case (Cons e evs)
  then show ?case by (cases e) auto
qed simp

text \<open>The in-service register tells a real interrupt on line 7 or 15 from a spurious one.\<close>

definition spurious :: "u64 \<Rightarrow> drivers \<Rightarrow> bool" where
  "spurious vector d \<longleftrightarrow>
     (let port = (if vector = 39 then 0x20 else 0xa0) in
      (vector = 39 \<or> vector = 47) \<and> device (cpu d) (Out port 0x0b # io (cpu d)) port AND 0x80 = 0)"

definition handler :: "u64 \<Rightarrow> drivers \<Rightarrow> drivers" where
  "handler vector d = (if vector = 32 then timer_interrupt d
     else if vector = 36 then serial_interrupt d else mask_unexpected vector d)"

text \<open>The two accesses that ask for the in-service register.\<close>

definition probe :: "u64 \<Rightarrow> drivers \<Rightarrow> io_event list" where
  "probe vector d =
     (let port = (if vector = 39 then 0x20 else 0xa0) in
      if vector = 39 \<or> vector = 47
      then [Out port 0x0b, In port (device (cpu d) (Out port 0x0b # io (cpu d)) port)] else [])"

definition probed :: "u64 \<Rightarrow> drivers \<Rightarrow> drivers" where
  "probed vector d = d\<lparr>cpu := (cpu d)\<lparr>io := rev (probe vector d) @ io (cpu d)\<rparr>\<rparr>"

lemma irq_dispatch_eq:
  "irq_dispatch vector d =
     (let d1 = probed vector d in
      if spurious vector d then if vector = 47 then outb 0x20 0x20 d1 else d1
      else let d2 = handler vector d1 in
        outb 0x20 0x20 (if vector \<ge> 40 then outb 0xa0 0x20 d2 else d2))"
  by (auto simp: irq_dispatch_def spurious_def handler_def probed_def probe_def inb_def outb_def
      x86_inb_def x86_outb_def Let_def)

lemma mask_unexpected_did:
  "\<exists>evs. did d evs (mask_unexpected vector d) \<and> eois 0x20 evs = 0 \<and> eois 0xa0 evs = 0"
proof -
  define p :: u16 where "p = (if vector < 40 then 0x21 else 0xa1)"
  define d0 where "d0 = d\<lparr>unexpected_irqs := unexpected_irqs d + 1\<rparr>"
  obtain v d1 where v: "inb p d0 = (v, d1)" by fastforce
  define w :: u8 where "w = ucast ((ucast v :: u32) OR push_bit (unat ((vector - 32) AND 7)) 1)"
  have "did d [] d0" by (simp add: d0_def did_def)
  from did_trans [OF did_trans [OF this did_inb [OF v]] did_outb]
  have "did d [In p v, Out p w] (outb p w d1)" by simp
  moreover have "mask_unexpected vector d = outb p w d1"
    using v by (simp add: mask_unexpected_def p_def [symmetric] d0_def [symmetric] w_def Let_def)
  ultimately show ?thesis by (intro exI [of _ "[In p v, Out p w]"]) (simp add: p_def)
qed

lemma handler_did: "\<exists>evs. did d evs (handler vector d) \<and> eois 0x20 evs = 0 \<and> eois 0xa0 evs = 0"
proof -
  obtain evs where "traffic d evs (serial_interrupt d)" "list_all uart_rx evs"
    using serial_interrupt_handled [of d] by (auto simp: handled_def)
  then have "\<exists>evs. did d evs (serial_interrupt d) \<and> eois 0x20 evs = 0 \<and> eois 0xa0 evs = 0"
    using uart_eois traffic_did by blast
  moreover have "\<exists>evs. did d evs (timer_interrupt d) \<and> eois 0x20 evs = 0 \<and> eois 0xa0 evs = 0"
    by (rule exI [of _ "[]"]) (simp add: timer_interrupt_def did_def)
  ultimately show ?thesis using mask_unexpected_did by (simp add: handler_def)
qed

lemma handler_counts:
  "ticks (handler vector d) = ticks d + (if vector = 32 then 1 else 0)"
  "unexpected_irqs (handler vector d) = unexpected_irqs d + (if vector = 32 \<or> vector = 36 then 0 else 1)"
  "serial_rx_interrupts (handler vector d) = serial_rx_interrupts d + (if vector = 36 then 1 else 0)"
  by (simp_all add: handler_def serial_interrupt_counts timer_interrupt_def mask_unexpected_def inb_def
      x86_inb_def Let_def)

lemma probed_did: "did d (probe vector d) (probed vector d)" "eois c (probe vector d) = 0"
  by (auto simp: did_def probed_def probe_def Let_def)

lemma probed_frame [simp]:
  "ticks (probed v d) = ticks d" "unexpected_irqs (probed v d) = unexpected_irqs d"
  "serial_rx_interrupts (probed v d) = serial_rx_interrupts d"
  by (simp_all add: probed_def)


section \<open>Input is never lost silently\<close>

lemma rx_event_lost: "fst s = Lost \<Longrightarrow> fst (rx_event e s) = Lost"
  by (cases s; cases e) auto

lemma rx_fold_lost: "fst s = Lost \<Longrightarrow> fst (fold rx_event evs s) = Lost"
  by (induction evs arbitrary: s) (simp_all add: rx_event_lost)

lemma rx_event_kept:
  assumes "rx_event e (Queued q, n, k) = (Queued q', n', k')"
  shows "q' = q @ received_by e \<and> n' = n \<and> k' = k"
  using assms by (cases e) (auto split: if_splits)

lemma rx_fold_kept:
  assumes "fold rx_event evs (Queued q, n, k) = (Queued q', n', k')"
  shows "q' = q @ received evs \<and> n' = n \<and> k' = k"
  using assms
proof (induction evs arbitrary: q n k)
  case (Cons e evs)
  obtain v n1 k1 where e: "rx_event e (Queued q, n, k) = (v, n1, k1)" by (metis prod_cases3)
  show ?case
  proof (cases v)
    case Lost
    then show ?thesis using Cons.prems e rx_fold_lost [of "(v, n1, k1)" evs] by simp
  next
    case (Queued q1)
    then show ?thesis using Cons.IH [of q1 n1 k1] Cons.prems e rx_event_kept [of e q n k q1 n1 k1] by simp
  qed
qed simp


section \<open>The configuration of the UART\<close>

text \<open>
  The registers of the UART as the writes to its ports set them: bit 7 of the line control
  register switches the first two ports to the divisor latch.
\<close>

record uart =
  lcr :: u8
  ier :: u8
  fcr :: u8
  mcr :: u8
  divisor :: u16

fun uart_event :: "io_event \<Rightarrow> uart \<Rightarrow> uart" where
  "uart_event (In p v) s = s"
| "uart_event (Out p v) s =
     (if p = COM1 then if bit (lcr s) 7 then s\<lparr>divisor := (divisor s AND 0xff00) OR ucast v\<rparr> else s
      else if p = COM1 + 1 then
        if bit (lcr s) 7 then s\<lparr>divisor := (divisor s AND 0xff) OR push_bit 8 (ucast v)\<rparr> else s\<lparr>ier := v\<rparr>
      else if p = COM1 + 2 then s\<lparr>fcr := v\<rparr>
      else if p = COM1 + 3 then s\<lparr>lcr := v\<rparr>
      else if p = COM1 + 4 then s\<lparr>mcr := v\<rparr> else s)"

definition uart_after :: "uart \<Rightarrow> drivers \<Rightarrow> uart" where
  "uart_after s d = foldr uart_event (io (cpu d)) s"

lemma uart_outb [simp]: "uart_after s (outb p v d) = uart_event (Out p v) (uart_after s d)"
  by (simp add: uart_after_def outb_def x86_outb_def)

lemma uart_polls: "polls n d d' \<Longrightarrow> uart_after s d' = uart_after s d"
proof -
  have "foldr uart_event (poll_hist dev n h) s = foldr uart_event h s" for dev h
    by (induction n) (simp_all add: Let_def)
  then show "polls n d d' \<Longrightarrow> uart_after s d' = uart_after s d" by (simp add: polls_def uart_after_def)
qed

lemma wait_status_quiet:
  assumes "quiet d" and "wait_status m d = (ok, d')"
  shows "uart_after s d' = uart_after s d" "quiet d'"
proof -
  obtain n where "polls n d d'" using wait_status_polls [OF assms] by blast
  then show "uart_after s d' = uart_after s d" "quiet d'"
    using uart_polls assms(1) by (auto simp: polls_def quiet_def)
qed

lemma uart_unmask: "port \<in> {0x21, 0xa1} \<Longrightarrow> uart_after u (unmask port k d) = uart_after u d"
  by (auto simp: unmask_def inb_def x86_inb_def pic_write_def uart_after_def outb_def x86_outb_def Let_def)

lemma and_zero_or: "((x AND 0xff00) OR 1) AND 0xff = (1 :: u16)"
  by (simp add: bit.conj_disj_distrib2 and.assoc)


section \<open>A transmitter that keeps up\<close>

text \<open>The device is present and becomes ready again within the polling limit.\<close>

definition transmitter_alive :: "machine \<Rightarrow> bool" where
  "transmitter_alive m \<longleftrightarrow> (\<forall>h. device m h (COM1 + 5) \<noteq> 0xff
     \<and> (\<exists>k < 1000000. device m (poll_hist (device m) k h) (COM1 + 5) AND 0x20 = 0x20))"

lemma wait_ready_bits:
  assumes "quiet d" and ne: "\<And>i. poll_status d i \<noteq> 0xff" and ready: "\<exists>k < 1000000. poll_status d k AND b = b"
  shows "fst (wait_status b d)"
proof (rule ccontr)
  assume no: "\<not> fst (wait_status b d)"
  obtain d' where w: "wait_status b d = (False, d')" using no by (cases "wait_status b d") auto
  obtain k where "k < 1000000" "decisive b (poll_status d k)" using ready unfolding decisive_def by blast
  then show False using wait_status_polls [OF assms(1) w] ne by auto
qed

lemma wait_ready:
  assumes "quiet d" and "transmitter_alive (cpu d)"
  shows "fst (wait_status 0x20 d)"
  using assms(2) unfolding transmitter_alive_def
  by (intro wait_ready_bits [OF assms(1)]) (simp_all add: poll_status_def)

lemma put_byte_ready:
  assumes "quiet d" and "transmitter_alive (cpu d)"
  obtains d' where "put_byte v d = (True, d')" "quiet d'" "transmitter_alive (cpu d')"
proof -
  obtain d' where "put_byte v d = (True, d')"
    using wait_ready [OF assms] by (cases "wait_status 0x20 d") (simp add: put_byte_def)
  moreover from this obtain evs where "did d evs d'" "same_setup d d'"
    by (rule put_byte_polled) (auto simp: polled_def)
  ultimately show ?thesis using that assms by (simp add: did_def transmitter_alive_def quiet_def same_setup_def)
qed

lemma serial_write_ready:
  "quiet d \<Longrightarrow> transmitter_alive (cpu d) \<Longrightarrow> fst (serial_write cs d)"
proof (induction cs arbitrary: d)
  case (Cons c cs)
  obtain d1 where d1: "(if c = 0x0a then put_byte 0x0d d else (True, d)) = (True, d1)"
    "quiet d1" "transmitter_alive (cpu d1)"
  proof (cases "c = 0x0a")
    case True
    then show ?thesis using that put_byte_ready [OF Cons.prems, of "0x0d"] by (metis (full_types))
  qed (use that Cons.prems in auto)
  then obtain d2 where "put_byte c d1 = (True, d2)" "quiet d2"
    "transmitter_alive (cpu d2)" by (metis put_byte_ready)
  then show ?case using Cons.IH d1 by simp
qed simp


section \<open>Properties\<close>

text \<open>
  C23: Every interrupt is acknowledged exactly as the controllers require: one end-of-interrupt
  command to the master, and one to the slave as well for the lines behind it; a spurious
  interrupt on line 7 gets none and one on line 15 only the master's. The tick counter
  counts the timer's interrupts, and every other interrupt without a handler is counted as
  unexpected. The registers, the memory and the interrupt flag are as before.
\<close>

theorem irq_dispatch_acknowledges:
  "\<exists>evs. did d evs (irq_dispatch vector d)
     \<and> eois 0x20 evs = (if spurious vector d \<and> vector = 39 then 0 else 1)
     \<and> eois 0xa0 evs = (if 40 \<le> vector \<and> \<not> spurious vector d then 1 else 0)
     \<and> ticks (irq_dispatch vector d) = ticks d + (if vector = 32 then 1 else 0)
     \<and> unexpected_irqs (irq_dispatch vector d) = unexpected_irqs d
         + (if vector = 32 \<or> vector = 36 \<or> spurious vector d then 0 else 1)
     \<and> serial_rx_interrupts (irq_dispatch vector d) = serial_rx_interrupts d
         + (if vector = 36 then 1 else 0)"
proof (cases "spurious vector d")
  case True
  then have v: "vector = 39 \<or> vector = 47" by (auto simp: spurious_def Let_def)
  then show ?thesis using True probed_did(1) [of d vector] probed_did(2)
      did_trans [OF probed_did(1) [of d vector] did_outb [of _ "0x20" "0x20"]]
    by (intro exI [of _ "probe vector d @ (if vector = 47 then [Out 0x20 0x20] else [])"])
      (auto simp: irq_dispatch_eq Let_def)
next
  case False
  define d1 where "d1 = probed vector d"
  define d2 where "d2 = handler vector d1"
  have pd: "did d (probe vector d) d1" by (simp add: d1_def probed_did(1))
  obtain evs where evs: "did d1 evs d2" "eois 0x20 evs = 0" "eois 0xa0 evs = 0"
    using handler_did [of d1 vector] by (auto simp: d2_def)
  define acks where "acks = (if vector \<ge> 40 then [Out 0xa0 0x20] else []) @ [Out 0x20 0x20]"
  have "did d2 acks (irq_dispatch vector d)"
    using False did_trans [OF did_outb [of d2 "0xa0" "0x20"] did_outb]
    by (auto simp: irq_dispatch_eq acks_def d1_def d2_def Let_def)
  then have "did d (probe vector d @ evs @ acks) (irq_dispatch vector d)"
    using did_trans [OF pd did_trans [OF evs(1)]] by simp
  moreover have "ticks (irq_dispatch vector d) = ticks d2"
    "unexpected_irqs (irq_dispatch vector d) = unexpected_irqs d2"
    "serial_rx_interrupts (irq_dispatch vector d) = serial_rx_interrupts d2"
    using False by (simp_all add: irq_dispatch_eq d2_def d1_def Let_def)
  ultimately show ?thesis using False evs(2,3) probed_did(2)
    by (intro exI [of _ "probe vector d @ evs @ acks"]) (auto simp: acks_def d2_def d1_def handler_counts)
qed



text \<open>
  C19: A serial interrupt makes at most 769 port accesses and writes nothing to the
  transmitter. The receive queue, the count of dropped items and the count of overflows are
  exactly what the accesses report, so input is never lost silently: unless the queue is
  marked as having lost input, it holds what it held before followed by every byte that was
  read from the data port, and no counter moved.
\<close>

theorem serial_interrupt_receives:
  assumes "rx_wf (receive_buffer d)"
  shows "\<exists>evs. did d evs (serial_interrupt d) \<and> length evs \<le> 769 \<and> list_all uart_rx evs
    \<and> rx_wf (receive_buffer (serial_interrupt d))
    \<and> rx_abs (serial_interrupt d) = fold rx_event evs (rx_abs d)
    \<and> (\<forall>q q'. rx_view_of (receive_buffer d) = Queued q
         \<longrightarrow> rx_view_of (receive_buffer (serial_interrupt d)) = Queued q'
         \<longrightarrow> q' = q @ received evs \<and> serial_rx_dropped (serial_interrupt d) = serial_rx_dropped d
           \<and> serial_rx_overflows (serial_interrupt d) = serial_rx_overflows d)"
proof -
  obtain evs where evs: "traffic d evs (serial_interrupt d)" "list_all uart_rx evs" "length evs \<le> 769"
    using serial_interrupt_handled [of d] by (auto simp: handled_def)
  then have abs: "rx_wf (receive_buffer (serial_interrupt d))"
    "rx_abs (serial_interrupt d) = fold rx_event evs (rx_abs d)" "did d evs (serial_interrupt d)"
    using assms by (simp_all add: traffic_def)
  have "q' = q @ received evs \<and> serial_rx_dropped (serial_interrupt d) = serial_rx_dropped d
      \<and> serial_rx_overflows (serial_interrupt d) = serial_rx_overflows d"
    if "rx_view_of (receive_buffer d) = Queued q"
      "rx_view_of (receive_buffer (serial_interrupt d)) = Queued q'" for q q'
    using abs(2) [symmetric] that by (intro rx_fold_kept) (simp add: rx_abs_def)
  then show ?thesis using evs(2,3) abs by (intro exI [of _ evs]) simp
qed

text \<open>
  C25: When no interrupt arrives, \<open>serial_init\<close> writes no register unless the transmitter has
  drained; after a successful call the UART runs at divisor 1 with 8 data bits, no parity
  and one stop bit, FIFOs on and its interrupts off.
\<close>

theorem serial_init_configures:
  assumes "quiet d"
  shows "if fst (wait_status 0x40 d)
    then uart_after u (snd (serial_init d)) = \<lparr>lcr = 3, ier = 0, fcr = 7, mcr = 3, divisor = 1\<rparr>
    else \<not> fst (serial_init d) \<and> uart_after u (snd (serial_init d)) = uart_after u d"
proof -
  obtain ok1 d1 where w: "wait_status 0x40 d = (ok1, d1)" by fastforce
  note q = wait_status_quiet(1) [OF assms w, of u] wait_status_quiet(2) [OF assms w]
  show ?thesis
  proof (cases ok1)
    case True
    define d2 where "d2 = outb (COM1 + 4) 0x03 (outb (COM1 + 2) 0x07 (outb (COM1 + 3) 0x03
      (outb (COM1 + 1) 0x00 (outb (COM1 + 0) 0x01 (outb (COM1 + 3) 0x80 (outb (COM1 + 1) 0x00
      (outb (COM1 + 3) 0x03 d1)))))))"
    obtain ok2 d3 where w2: "wait_status 0x20 d2 = (ok2, d3)" by fastforce
    have IF: "quiet (outb p v e)" if "quiet e" for p v e
      using that by (simp add: outb_def x86_outb_def quiet_def)
    have "quiet d1" using q assms by simp
    then have init: "serial_init d = (ok2, d3)" "quiet d2"
      using w w2 True
      by (simp_all add: serial_init_def serial_flush_def out_window_def irq_window_off IF d2_def Let_def)
    moreover have "uart_after u d3 = uart_after u d2" by (rule wait_status_quiet [OF init(2) w2])
    moreover have "uart_after u d2 = \<lparr>lcr = 3, ier = 0, fcr = 7, mcr = 3, divisor = 1\<rparr>"
      by (simp add: d2_def bit_numeral_word_iff and_zero_or)
    ultimately show ?thesis using True w by simp
  next
    case False
    then show ?thesis using w q by (simp add: serial_init_def serial_flush_def)
  qed
qed


lemma pc_alive: "quiet pc_drivers" "transmitter_alive (cpu pc_drivers)"
proof -
  show "quiet pc_drivers" by (simp add: quiet_def pc_drivers_def)
  show "transmitter_alive (cpu pc_drivers)"
    by (auto simp: transmitter_alive_def pc_drivers_def pc_machine_def pc_device_def intro!: exI [of _ 0])
qed




theorem serial_init_configures_witness:
  "quiet pc_drivers
   \<and> (if fst (wait_status 0x40 pc_drivers)
      then lcr (uart_after \<lparr>lcr = 0, ier = 0, fcr = 0, mcr = 0, divisor = 0\<rparr> (snd (serial_init pc_drivers))) = 3
      else \<not> fst (serial_init pc_drivers))"
  using serial_init_configures [OF pc_alive(1)] pc_alive(1) by simp

theorem serial_interrupt_receives_witness:
  "\<exists>evs. did pc_drivers evs (serial_interrupt pc_drivers) \<and> length evs \<le> 769
     \<and> rx_abs (serial_interrupt pc_drivers) = fold rx_event evs (rx_abs pc_drivers)"
proof -
  have "rx_wf (receive_buffer pc_drivers)" using demo_buffer_wf by (simp add: pc_drivers_def)
  from serial_interrupt_receives [OF this] show ?thesis by blast
qed

text \<open>
  \<open>serial_enable_receive\<close> is refused when receiving is enabled already, with interrupts
  enabled and before \<open>irq_init\<close>, and then changes nothing. Otherwise it unmasks line 4 only,
  enables the data and line status interrupts of the UART and starts with an empty queue.
\<close>

lemma serial_enable_receive_exact:
  assumes "pics_ready m0 s0 d" and "rx_wf (receive_buffer d)"
  shows "if \<not> receive_enabled d \<and> irq_initialized d \<and> \<not> bit (rflags (cpu d)) 9
   then \<exists>d'. serial_enable_receive d = (True, d') \<and> receive_enabled d'
     \<and> rx_view_of (receive_buffer d') = Queued [] \<and> rx_wf (receive_buffer d')
     \<and> (\<forall>k < 16. masked (master m0 d') (slave s0 d') k \<longleftrightarrow> masked (master m0 d) (slave s0 d) k \<and> k \<noteq> 4)
     \<and> mcr (uart_after u d') = 0x0b
     \<and> (\<not> bit (lcr (uart_after u d)) 7 \<longrightarrow> ier (uart_after u d') = 5)
   else serial_enable_receive d = (False, d)"
proof (cases "\<not> receive_enabled d \<and> irq_initialized d \<and> \<not> bit (rflags (cpu d)) 9")
  case True
  define d1 where "d1 = snd (irq_enable 4 d)"
  have four: "(4 :: u32) < 16" by simp
  note en = irq_enable_works [OF _ four _ assms(1)]
  have eq: "irq_enable 4 d = (True, d1)" using True en(1) by (simp add: d1_def)
  have only: "only_ports d d1" using True en(3) by (simp add: d1_def)
  have mask: "masked (master m0 d1) (slave s0 d1) k \<longleftrightarrow> masked (master m0 d) (slave s0 d) k \<and> k \<noteq> 4"
    if "k < 16" for k using True en(4) that by (simp add: d1_def)
  have uart: "uart_after u d1 = uart_after u d"
    using True irq_enable_eq [of d 4] by (simp add: d1_def uart_unmask)
  define d' where "d' = outb (COM1 + 1) 0x05 (outb (COM1 + 4) 0x0b (outb (COM1 + 2) 0x07
      (d1\<lparr>receive_buffer := rx_reset (receive_buffer d1)\<rparr>))\<lparr>receive_enabled := True\<rparr>)"
  have "serial_enable_receive d = (True, d')"
    using True eq by (simp add: serial_enable_receive_def x86_read_rflags_def bit9_iff d'_def Let_def)
  moreover have "receive_buffer d1 = receive_buffer d" using only by (auto simp: only_ports_def)
  then have "rx_view_of (receive_buffer d') = Queued []" "rx_wf (receive_buffer d')"
    using assms(2) rxq.reset_view rxq.reset_wf by (simp_all add: d'_def)
  moreover have "master m0 d' = master m0 d1" "slave s0 d' = slave s0 d1"
    by (simp_all add: d'_def outb_def x86_outb_def master_def slave_def)
  moreover have "uart_after u (d1\<lparr>receive_buffer := b\<rparr>) = uart_after u d1"
    "uart_after u (e\<lparr>receive_enabled := True\<rparr>) = uart_after u e" for b e
    by (simp_all add: uart_after_def)
  then have "mcr (uart_after u d') = 0x0b" "\<not> bit (lcr (uart_after u d)) 7 \<longrightarrow> ier (uart_after u d') = 5"
    using uart by (simp_all add: d'_def)
  ultimately show ?thesis using True mask by (auto simp: d'_def)
next
  case False
  then show ?thesis
    by (auto simp: serial_enable_receive_def irq_enable_def x86_read_rflags_def bit9_iff)
qed

end
