(* ===== verification/ConsoleProps.thy ===== *)
theory ConsoleProps
  imports Console IrqProps
begin

text \<open>
  Correctness of the console. \<open>decimal\<close> is the reference for number output,
  \<open>terminal_step\<close> the abstract line discipline on typed text, and \<open>command\<close> the meaning
  of a command line; the array-based functions of the source are shown to implement them.
\<close>

section \<open>Strings\<close>

lemma chars_simps [simp]: "chars [] = []" "chars (c # p) = (if c = 0 then [] else c # chars p)"
  by (simp_all add: chars_def)

lemma equal_iff: "0 \<in> set as \<Longrightarrow> 0 \<in> set bs \<Longrightarrow> equal as bs \<longleftrightarrow> chars as = chars bs"
  by (induction as bs rule: equal.induct) auto

lemma chars_append: "0 \<notin> set s \<Longrightarrow> chars (s @ 0 # r) = s"
  by (induction s) auto

lemma chars_c_str: "0 \<notin> set (str s) \<Longrightarrow> chars (c_str s) = str s"
  by (simp add: c_str_def chars_append)

lemma chars_dropWhile:
  "\<not> P 0 \<Longrightarrow> chars (dropWhile P p) = dropWhile P (chars p)"
  by (induction p) auto

lemma zero_dropWhile: "\<not> P 0 \<Longrightarrow> 0 \<in> set p \<Longrightarrow> 0 \<in> set (dropWhile P p)"
  by (induction p) auto


section \<open>Decimal output\<close>

fun decimal :: "nat \<Rightarrow> u8 list" where
  "decimal n = (if n < 10 then [0x30 + of_nat n] else decimal (n div 10) @ [0x30 + of_nat (n mod 10)])"

declare decimal.simps [simp del]

text \<open>Reading a decimal numeral back.\<close>

definition undecimal :: "u8 list \<Rightarrow> nat" where
  "undecimal s = foldl (\<lambda>a c. 10 * a + unat (c - 0x30)) 0 s"

lemma undecimal_decimal: "undecimal (decimal n) = n"
proof (induction n rule: decimal.induct)
  case (1 n)
  have digit: "unat (of_nat k :: u8) = k" if "k < 10" for k using that by (simp add: unat_of_nat)
  show ?case
  proof (cases "n < 10")
    case True
    then show ?thesis by (simp add: decimal.simps [of n] undecimal_def digit)
  next
    case False
    then have "undecimal (decimal n) = 10 * undecimal (decimal (n div 10)) + n mod 10"
      by (simp add: decimal.simps [of n] undecimal_def digit)
    then show ?thesis using 1 False by simp
  qed
qed

lemma length_decimal: "n < 10 ^ Suc k \<Longrightarrow> length (decimal n) \<le> Suc k"
proof (induction k arbitrary: n)
  case 0
  then show ?case by (simp add: decimal.simps [of n])
next
  case (Suc k)
  have "n div 10 < 10 ^ Suc k" using Suc.prems by (simp add: less_mult_imp_div_less mult.commute)
  then show ?case using Suc.IH [of "n div 10"] by (simp add: decimal.simps [of n])
qed

lemma decimal_digits: "c \<in> set (decimal n) \<Longrightarrow> 0x30 \<le> c \<and> c \<le> 0x39"
proof (induction n rule: decimal.induct)
  case (1 n)
  have digit: "0x30 \<le> (0x30 :: u8) + of_nat k \<and> (0x30 :: u8) + of_nat k \<le> 0x39" if "k < 10" for k
  proof -
    have "unat (0x30 + of_nat k :: u8) = 0x30 + k" using that by (simp add: unat_word_ariths unat_of_nat)
    then show ?thesis using that by (simp add: word_le_nat_alt)
  qed
  show ?case
  proof (cases "n < 10")
    case True
    then show ?thesis using 1 digit by (simp add: decimal.simps [of n])
  next
    case False
    then show ?thesis using 1 digit [of "n mod 10"] by (auto simp: decimal.simps [of n])
  qed
qed

lemma number_loop_decimal:
  assumes "length (decimal (unat v)) \<le> unat i" and "unat i \<le> length buf" and "number_loop i buf v = (i', buf')"
  shows "drop (unat i') buf' = decimal (unat v) @ drop (unat i) buf"
  using assms
proof (induction i buf v rule: number_loop.induct)
  case (1 i buf v)
  have pos: "0 < length (decimal (unat v))" by (simp add: decimal.simps [of "unat v"])
  then have "i \<noteq> 0" using 1(2) by auto
  then have i: "unat (i - 1) = unat i - 1" and ipos: "Suc (unat i - Suc 0) = unat i"
    by (simp_all add: unat_minus_one unat_gt_0)
  define buf1 where "buf1 = buf[unat (i - 1) := 0x30 + ucast (v mod 10)]"
  have ten: "unat (v div 10) = unat v div 10" "unat (v mod 10) = unat v mod 10"
    by (simp_all add: unat_div unat_mod)
  have digit: "ucast (v mod 10) = (of_nat (unat v mod 10) :: u8)"
    by (simp only: ten(2) [symmetric] of_nat_unat)
  have lt: "unat i - 1 < length buf" using pos 1(2,3) by linarith
  have drop1: "drop (unat (i - 1)) buf1 = (0x30 + of_nat (unat v mod 10)) # drop (unat i) buf"
    using lt i ipos by (simp add: buf1_def digit Cons_nth_drop_Suc [symmetric])
  show ?case
  proof (cases "v div 10 = 0")
    case True
    then have "unat v < 10" using ten(1) by simp
    then show ?thesis using True 1(4) drop1 i
      by (auto simp: number_loop.simps [of i] buf1_def Let_def decimal.simps [of "unat v"])
  next
    case False
    then have big: "\<not> unat v < 10" using ten(1) unat_eq_0 [of "v div 10"] by simp
    have rec: "number_loop (i - 1) buf1 (v div 10) = (i', buf')"
      using 1(4) False by (simp add: number_loop.simps [of i] buf1_def Let_def)
    have "length (decimal (unat v div 10)) \<le> unat (i - 1)"
      using 1(2) i big by (simp add: decimal.simps [of "unat v"])
    then have "drop (unat i') buf' = decimal (unat v div 10) @ drop (unat (i - 1)) buf1"
      using 1(1) [OF refl refl refl] False rec 1(3) i ten(1) by (simp add: buf1_def)
    then show ?thesis using drop1 big by (simp add: decimal.simps [of "unat v"])
  qed
qed

lemma number_text_decimal: "chars (number_text v) = decimal (unat v)"
proof -
  obtain i' buf' where r: "number_loop 20 ((replicate 21 0)[20 := 0]) v = (i', buf')" by fastforce
  have "unat v < 10 ^ Suc 19" using unat_lt64 [of v] by simp
  then have "length (decimal (unat v)) \<le> unat (20 :: u32)" using length_decimal [of "unat v" 19] by simp
  from number_loop_decimal [OF this _ r]
  have "number_text v = decimal (unat v) @ drop 20 ((replicate 21 0)[20 := 0])"
    using r by (simp add: number_text_def)
  moreover have "(replicate 21 0)[20 := 0] = replicate 21 (0 :: u8)"
    using list_update_id [of "replicate 21 (0 :: u8)" 20] by simp
  ultimately have "number_text v = decimal (unat v) @ [0]" by simp
  moreover have "0 \<notin> set (decimal (unat v))" using decimal_digits [of 0 "unat v"] by auto
  ultimately show ?thesis by (simp add: chars_append)
qed


section \<open>Commands\<close>

definition trim :: "u8 list \<Rightarrow> u8 list" where
  "trim s = dropWhile blank (rev (dropWhile blank (rev s)))"

text \<open>The meaning of a command, given as the text without surrounding blanks.\<close>

definition say :: "u8 list list \<Rightarrow> drivers \<Rightarrow> drivers run" where
  "say ts d = fold (\<lambda>t r. bind r (output_text t)) ts (Inr d)"

definition command :: "pmm \<Rightarrow> u8 list \<Rightarrow> drivers \<Rightarrow> drivers run" where
  "command p c d =
     (if c = [] then Inr d
      else if c = str ''help'' then output_text help_text d
      else if c = str ''ticks'' then
        bind (output_text (str ''ticks: '') d) (\<lambda>d. say [decimal (unat (timer_ticks d)), [0x0a]] d)
      else if c = str ''mem'' then
        say [str ''pages: total='', decimal (unat (pmm_total p)),
             str '' used='', decimal (unat (pmm_total p - pmm_available p)),
             str '' free='', decimal (unat (pmm_available p)), [0x0a]] d
      else if c = str ''clear'' then output_text ([0x1b] @ str ''[2J'' @ [0x1b] @ str ''[H'') d
      else if c = str ''halt'' then
        bind (output_text (str ''KERNEL: halting'' @ [0x0a]) d) (\<lambda>d.
          case serial_flush d of
            (False, d) \<Rightarrow> Inl (Spin, d)
          | (True, d) \<Rightarrow> Inl (Halted, d\<lparr>cpu := x86_disable_interrupts (cpu d)\<rparr>))
      else output_text (str ''Unknown command. Type '' @ [0x27] @ str ''help'' @ [0x27] @ str ''.'' @ [0x0a]) d)"

lemma bind_assoc: "bind (bind r f) g = bind r (\<lambda>x. bind (f x) g)"
  by (cases r) simp_all

lemma bind_Inr [simp]: "bind r Inr = r"
  by (cases r) simp_all

lemma literal_chars:
  "chars (c_str ''help'') = str ''help''" "chars (c_str ''ticks'') = str ''ticks''"
  "chars (c_str ''mem'') = str ''mem''" "chars (c_str ''clear'') = str ''clear''"
  "chars (c_str ''halt'') = str ''halt''"
  by (simp_all add: c_str_def str_def)

lemma literal_zero: "0 \<in> set (c_str s)"
  by (simp add: c_str_def)

lemma run_command_spec:
  assumes "0 \<in> set l" and "chars l \<noteq> []"
  shows "run_command p l d = command p (chars l) d"
  using assms(2)
  by (simp add: run_command_def command_def equal_iff [OF assms(1) literal_zero] literal_chars
      number_def number_text_decimal say_def bind_assoc Let_def)

lemma take_trim_length:
  "n \<le> length l \<Longrightarrow> take (trim_length l n) l = rev (dropWhile blank (rev (take n l)))"
proof (induction n)
  case (Suc n)
  then have "take (Suc n) l = take n l @ [l ! n]" by (simp add: take_Suc_conv_app_nth)
  then show ?case using Suc by simp
qed simp

lemma trim_length_le: "trim_length l n \<le> n"
  by (induction n) auto

lemma execute_spec:
  assumes "length l = 128" and "unat n < 128" and "0 \<notin> set (take (unat n) l)"
  shows "execute p l n d = bind (command p (trim (take (unat n) l)) d)
    (\<lambda>d. Inr (l[trim_length l (unat n) := 0], d))"
proof -
  define t where "t = trim_length l (unat n)"
  define l' where "l' = l[t := 0]"
  have t: "t < length l" using trim_length_le [of l "unat n"] assms(1,2) by (simp add: t_def)
  have "t \<le> unat n" using trim_length_le [of l "unat n"] by (simp add: t_def)
  then have zt: "0 \<notin> set (take t l)" using assms(3) set_take_subset_set_take [of t "unat n" l] by auto
  have "l' = take t l @ 0 # drop (Suc t) l" using t by (simp add: l'_def upd_conv_take_nth_drop)
  then have c: "chars l' = take t l" and z: "0 \<in> set l'" using zt chars_append by simp_all
  define cmd where "cmd = dropWhile blank l'"
  have cc: "chars cmd = trim (take (unat n) l)"
    using assms(1,2) c by (simp add: cmd_def chars_dropWhile trim_def t_def take_trim_length)
  have zc: "0 \<in> set cmd" using z by (simp add: cmd_def zero_dropWhile)
  then obtain x xs where x: "cmd = x # xs" by (cases cmd) auto
  have ex: "execute p l n d = (if x = 0 then Inr (l', d) else bind (run_command p cmd d) (\<lambda>d. Inr (l', d)))"
    using x by (simp add: execute_def l'_def [symmetric] t_def [symmetric] cmd_def [symmetric] Let_def)
  show ?thesis
  proof (cases "x = 0")
    case True
    then have "trim (take (unat n) l) = []" using cc x by simp
    then show ?thesis using ex True by (simp add: command_def l'_def t_def)
  next
    case False
    then have "run_command p cmd d = command p (trim (take (unat n) l)) d"
      using run_command_spec [OF zc] cc x by simp
    then show ?thesis using ex False by (simp add: l'_def t_def)
  qed
qed


section \<open>The line discipline\<close>

text \<open>
  What the user is doing: typing a line, of which \<open>s\<close> has been accepted, possibly inside an
  escape sequence (\<open>e\<close> is 1 after ESC, 2 inside a CSI or SS3 sequence); or typing a line
  that will be discarded.
\<close>

datatype input = Typing "u8 list" nat | Discarding

datatype action = Print "u8 list" | Run "u8 list"

fun type_byte :: "u8 \<Rightarrow> input \<Rightarrow> input \<times> action list" where
  "type_byte b Discarding = (Discarding, [])"
| "type_byte b (Typing s e) =
     (if e = 1 then (Typing s (if b = 0x5b \<or> b = 0x4f then 2 else 0), [])
      else if e = 2 then (Typing s (if 0x40 \<le> b \<and> b \<le> 0x7e then 0 else 2), [])
      else if b = 27 then (Typing s 1, [])
      else if b = 8 \<or> b = 127 then
        if s = [] then (Typing s e, []) else (Typing (butlast s) e, [Print [8, 0x20, 8]])
      else if b \<noteq> 9 \<and> (b < 32 \<or> 126 < b) then (Typing s e, [])
      else if length s = 127 then (Discarding, [])
      else let c = (if b = 9 then 0x20 else b) in (Typing (s @ [c]) e, [Print [c]]))"

text \<open>The flag is set when the last byte was a carriage return, whose line feed is skipped.\<close>

fun terminal_step :: "u8 \<Rightarrow> input \<times> bool \<Rightarrow> (input \<times> bool) \<times> action list" where
  "terminal_step b (i, cr) =
     (if b = 0x0a \<and> cr then ((i, False), [])
      else if b = 3 then ((Typing [] 0, False), [Print (str ''^C'' @ [0x0a] @ prompt)])
      else if b = 0x0d \<or> b = 0x0a then
        ((Typing [] 0, b = 0x0d),
         [Print [0x0a], case i of Discarding \<Rightarrow> Print discarded_text | Typing s e \<Rightarrow> Run s, Print prompt])
      else case type_byte b i of (i', acts) \<Rightarrow> ((i', False), acts))"

fun perform :: "pmm \<Rightarrow> action list \<Rightarrow> drivers \<Rightarrow> drivers run" where
  "perform p [] d = Inr d"
| "perform p (Print t # acts) d = bind (output_text t d) (perform p acts)"
| "perform p (Run s # acts) d = bind (command p (trim s) d) (perform p acts)"

text \<open>The editor between calls: the array, the index inside it, and only printable text.\<close>

definition typed :: "LINE_EDITOR \<Rightarrow> u8 list" where
  "typed ed = take (unat (len ed)) (line ed)"

definition printable :: "u8 \<Rightarrow> bool" where
  "printable c \<longleftrightarrow> 32 \<le> c \<and> c \<le> 126"

definition ed_wf :: "LINE_EDITOR \<Rightarrow> bool" where
  "ed_wf ed \<longleftrightarrow> length (line ed) = 128 \<and> unat (len ed) \<le> 127 \<and> unat (escape ed) \<le> 2
     \<and> list_all printable (typed ed)"

definition ed_view :: "LINE_EDITOR \<Rightarrow> input \<times> bool" where
  "ed_view ed = (if discard ed then Discarding else Typing (typed ed) (unat (escape ed)), after_cr ed)"

lemma printable_nonzero: "list_all printable s \<Longrightarrow> 0 \<notin> set s"
  by (auto simp: list_all_iff printable_def)

lemma reset_line_view:
  "length (line ed) = 128 \<Longrightarrow> ed_wf (reset_line ed) \<and> ed_view (reset_line ed) = (Typing [] 0, after_cr ed)"
  by (simp add: reset_line_def ed_wf_def ed_view_def typed_def)

text \<open>The state part of a run, seen through the editor's view.\<close>

definition implements ::
  "(LINE_EDITOR \<times> drivers) run \<Rightarrow> (input \<times> bool) \<times> action list \<Rightarrow> pmm \<Rightarrow> drivers \<Rightarrow> bool" where
  "implements r spec p d \<longleftrightarrow>
     (case r of
        Inl e \<Rightarrow> perform p (snd spec) d = Inl e
      | Inr (ed, d') \<Rightarrow> perform p (snd spec) d = Inr d' \<and> ed_wf ed \<and> ed_view ed = fst spec)"

lemma implements_bind:
  assumes "r = bind (perform p acts d) (\<lambda>d. Inr (ed, d))" and "ed_wf ed" and "ed_view ed = st"
  shows "implements r (st, acts) p d"
  using assms by (cases "perform p acts d") (simp_all add: implements_def)

lemma finish_line_implements:
  assumes "ed_wf ed"
  shows "implements (finish_line p ed d) ((Typing [] 0, after_cr ed),
    [Print [0x0a], case fst (ed_view ed) of Discarding \<Rightarrow> Print discarded_text | Typing s e \<Rightarrow> Run s,
     Print prompt]) p d"
proof -
  define l where "l = (if discard ed then line ed else (line ed)[trim_length (line ed) (unat (len ed)) := 0])"
  have wf: "length (line ed) = 128" "unat (len ed) < 128" "0 \<notin> set (take (unat (len ed)) (line ed))"
    using assms printable_nonzero by (auto simp: ed_wf_def typed_def)
  show ?thesis
  proof (rule implements_bind)
    show "finish_line p ed d = bind (perform p [Print [0x0a],
        case fst (ed_view ed) of Discarding \<Rightarrow> Print discarded_text | Typing s e \<Rightarrow> Run s, Print prompt] d)
      (\<lambda>d. Inr (reset_line (ed\<lparr>line := l\<rparr>), d))"
      by (simp add: finish_line_def ed_view_def execute_spec [OF wf] bind_assoc typed_def l_def)
    show "ed_wf (reset_line (ed\<lparr>line := l\<rparr>))"
      "ed_view (reset_line (ed\<lparr>line := l\<rparr>)) = (Typing [] 0, after_cr ed)"
      using reset_line_view [of "ed\<lparr>line := l\<rparr>"] wf(1) by (simp_all add: l_def)
  qed
qed

lemma implements_still: "ed_wf ed \<Longrightarrow> ed_view ed = st \<Longrightarrow> implements (Inr (ed, d)) (st, []) p d"
  by (simp add: implements_def)

lemma typed_backspace:
  assumes "ed_wf ed" and "len ed \<noteq> 0"
  shows "typed (ed\<lparr>len := len ed - 1\<rparr>) = butlast (typed ed)" "typed ed \<noteq> []"
    "ed_wf (ed\<lparr>len := len ed - 1\<rparr>)"
proof -
  have n: "unat (len ed - 1) = unat (len ed) - 1" using assms(2) by (rule unat_minus_one)
  have l: "unat (len ed) \<le> length (line ed)" using assms(1) by (simp add: ed_wf_def)
  show t: "typed (ed\<lparr>len := len ed - 1\<rparr>) = butlast (typed ed)"
    using l by (simp add: typed_def n butlast_take)
  show "typed ed \<noteq> []" using assms by (auto simp: typed_def ed_wf_def unat_eq_0)
  show "ed_wf (ed\<lparr>len := len ed - 1\<rparr>)"
    using assms t n by (auto simp: ed_wf_def list_all_iff dest: in_set_butlastD)
qed

lemma typed_insert:
  assumes "ed_wf ed" and "len ed \<noteq> 127" and "printable c"
  defines "ed' \<equiv> ed\<lparr>line := (line ed)[unat (len ed) := c], len := len ed + 1\<rparr>"
  shows "typed ed' = typed ed @ [c]" "ed_wf ed'"
proof -
  have n: "unat (len ed) < 127" using assms(1,2) by (auto simp: ed_wf_def word_unat_eq_iff)
  then have n1: "unat (len ed + 1) = Suc (unat (len ed))" by (simp add: unat_word_ariths)
  have l: "unat (len ed) < length (line ed)" using assms(1) n by (simp add: ed_wf_def)
  show t: "typed ed' = typed ed @ [c]"
    using l by (simp add: typed_def ed'_def n1 take_Suc_conv_app_nth)
  show "ed_wf ed'" using assms(1,3) t n n1 by (simp add: ed_wf_def ed'_def)
qed

lemma typed_frame [simp]:
  "typed (ed\<lparr>escape := e\<rparr>) = typed ed" "typed (ed\<lparr>discard := b\<rparr>) = typed ed"
  "typed (ed\<lparr>after_cr := b\<rparr>) = typed ed"
  by (simp_all add: typed_def)

lemma length_typed: "ed_wf ed \<Longrightarrow> length (typed ed) = unat (len ed)"
  by (simp add: typed_def ed_wf_def)

lemma unat_escape: "unat (e :: u32) = Suc 0 \<longleftrightarrow> e = 1" "unat (e :: u32) = 2 \<longleftrightarrow> e = 2"
  by (simp_all add: word_unat_eq_iff)

lemma perform_Nil [simp]: "perform p [] = Inr"
  by (simp add: fun_eq_iff)

lemma consume_escape_implements:
  assumes "ed_wf ed" and "\<not> discard ed" and "consume_escape ed b = (True, ed')"
  shows "ed_wf ed'" "(fst (ed_view ed'), []) = type_byte b (fst (ed_view ed))"
    "after_cr ed' = after_cr ed"
  using assms by (auto simp: consume_escape_def ed_view_def ed_wf_def unat_escape split: if_splits)

lemma edit_character_implements:
  assumes wf: "ed_wf ed"
  shows "implements (edit_character ed b d)
    (case type_byte b (fst (ed_view ed)) of (i, acts) \<Rightarrow> ((i, after_cr ed), acts)) p d"
proof (cases "discard ed")
  case True
  then show ?thesis using wf by (simp add: edit_character_def ed_view_def implements_def)
next
  case False
  obtain r ed1 where ce: "consume_escape ed b = (r, ed1)" by fastforce
  show ?thesis
  proof (cases r)
    case True
    with ce have ce': "consume_escape ed b = (True, ed1)" by simp
    note ci = consume_escape_implements [OF wf False ce']
    have "edit_character ed b d = Inr (ed1, d)" using False ce' by (simp add: edit_character_def)
    moreover have "ed_view ed1 = (fst (ed_view ed1), after_cr ed)" using ci(3) by (simp add: ed_view_def)
    ultimately show ?thesis using implements_still [OF ci(1)] unfolding ci(2) [symmetric] by simp
  next
    case r: False
    then have ed1: "ed1 = ed" and esc: "escape ed \<noteq> 1" "escape ed \<noteq> 2" "b \<noteq> 27"
      using ce by (auto simp: consume_escape_def split: if_splits)
    then have e: "unat (escape ed) \<noteq> 1" "unat (escape ed) \<noteq> 2"
      by (auto simp: word_unat_eq_iff)
    have tb: "type_byte b (fst (ed_view ed)) =
      (if b = 8 \<or> b = 127 then
        if typed ed = [] then (Typing (typed ed) (unat (escape ed)), [])
        else (Typing (butlast (typed ed)) (unat (escape ed)), [Print [8, 0x20, 8]])
      else if b \<noteq> 9 \<and> (b < 32 \<or> 126 < b) then (Typing (typed ed) (unat (escape ed)), [])
      else if length (typed ed) = 127 then (Discarding, [])
      else let c = (if b = 9 then 0x20 else b) in (Typing (typed ed @ [c]) (unat (escape ed)), [Print [c]]))"
      using False e esc(3) by (simp add: ed_view_def)
    have empty: "typed ed = [] \<longleftrightarrow> len ed = 0"
      using length_typed [OF wf] by (auto simp: unat_eq_0)
    have full: "length (typed ed) = 127 \<longleftrightarrow> len ed = 127"
      using length_typed [OF wf] by (simp add: word_unat_eq_iff)
    define c where "c = (if b = 9 then 0x20 else b)"
    have ec: "edit_character ed b d =
      (if b = 8 \<or> b = 127 then
         if len ed \<noteq> 0 then bind (output_text [8, 0x20, 8] d) (\<lambda>d. Inr (ed\<lparr>len := len ed - 1\<rparr>, d))
         else Inr (ed, d)
       else if b \<noteq> 9 \<and> (b < 32 \<or> b > 126) then Inr (ed, d)
       else if len ed = 127 then Inr (ed\<lparr>discard := True\<rparr>, d)
       else bind (output_text [c] d) (\<lambda>d.
            Inr (ed\<lparr>line := (line ed)[unat (len ed) := c], len := len ed + 1\<rparr>, d)))"
      using False ce r ed1 by (simp add: edit_character_def c_def Let_def)
    consider (erase) "b = 8 \<or> b = 127" "len ed \<noteq> 0" | (nothing) "b = 8 \<or> b = 127" "len ed = 0"
      | (control) "\<not> (b = 8 \<or> b = 127)" "b \<noteq> 9 \<and> (b < 32 \<or> 126 < b)"
      | (over) "\<not> (b = 8 \<or> b = 127)" "\<not> (b \<noteq> 9 \<and> (b < 32 \<or> 126 < b))" "len ed = 127"
      | (char) "\<not> (b = 8 \<or> b = 127)" "\<not> (b \<noteq> 9 \<and> (b < 32 \<or> 126 < b))" "len ed \<noteq> 127" by blast
    then show ?thesis
    proof cases
      case erase
      show ?thesis unfolding tb ec using erase empty typed_backspace [OF wf erase(2)] False
        by (auto intro!: implements_bind simp: ed_view_def)
    next
      case nothing
      then show ?thesis unfolding tb ec using empty wf False by (auto intro!: implements_still simp: ed_view_def)
    next
      case control
      then show ?thesis unfolding tb ec using wf False by (auto intro!: implements_still simp: ed_view_def)
    next
      case over
      have "ed_wf (ed\<lparr>discard := True\<rparr>)" using wf by (simp add: ed_wf_def)
      then show ?thesis unfolding tb ec using over full by (auto intro!: implements_still simp: ed_view_def)
    next
      case char
      have "printable c" using char by (auto simp: c_def printable_def not_less)
      from typed_insert [OF wf char(3) this] show ?thesis unfolding tb ec using char full False
        by (auto intro!: implements_bind simp: ed_view_def Let_def c_def)
    qed
  qed
qed

lemma accept_input_implements:
  assumes wf: "ed_wf ed"
  shows "implements (accept_input p ed b d) (terminal_step b (ed_view ed)) p d"
proof -
  define ed1 where "ed1 = ed\<lparr>after_cr := (b = 0x0d)\<rparr>"
  have wf1: "ed_wf ed1" and wf0: "ed_wf (ed\<lparr>after_cr := False\<rparr>)" using wf by (simp_all add: ed_wf_def ed1_def)
  have v1: "fst (ed_view ed1) = fst (ed_view ed)" by (simp add: ed_view_def ed1_def)
  obtain i cr where v: "ed_view ed = (i, cr)" by fastforce
  then have cr: "cr = after_cr ed" by (simp add: ed_view_def)
  have acc: "accept_input p ed b d = (if b = 0x0a \<and> cr then Inr (ed\<lparr>after_cr := False\<rparr>, d)
      else if b = 3 then bind (output_text (str ''^C'' @ [0x0a] @ prompt) d) (\<lambda>d. Inr (reset_line ed1, d))
      else if b = 0x0d \<or> b = 0x0a then finish_line p ed1 d else edit_character ed1 b d)"
    by (simp add: accept_input_def ed1_def cr Let_def)
  consider (lf) "b = 0x0a" cr | (ctrlc) "b = 3" | (enter) "b = 0x0d \<or> b = 0x0a \<and> \<not> cr"
    | (edit) "b \<noteq> 3" "b \<noteq> 0x0d" "b \<noteq> 0x0a" by blast
  then show ?thesis
  proof cases
    case lf
    then show ?thesis unfolding acc v using v wf0 by (auto intro!: implements_still simp: ed_view_def)
  next
    case ctrlc
    have "length (line ed1) = 128" using wf1 by (simp add: ed_wf_def)
    from reset_line_view [OF this] have "ed_wf (reset_line ed1)" "ed_view (reset_line ed1) = (Typing [] 0, False)"
      using ctrlc by (simp_all add: ed1_def)
    then show ?thesis unfolding acc v using ctrlc by (auto intro!: implements_bind)
  next
    case enter
    then have a: "accept_input p ed b d = finish_line p ed1 d" by (auto simp: acc)
    have t: "terminal_step b (ed_view ed) = ((Typing [] 0, after_cr ed1), [Print [0x0a],
        case fst (ed_view ed1) of Discarding \<Rightarrow> Print discarded_text | Typing s e \<Rightarrow> Run s, Print prompt])"
      using enter v1 by (auto simp: v ed1_def)
    show ?thesis unfolding a t by (rule finish_line_implements [OF wf1])
  next
    case edit
    then have a: "accept_input p ed b d = edit_character ed1 b d" by (auto simp: acc)
    have t: "terminal_step b (ed_view ed) = (case type_byte b (fst (ed_view ed1)) of (i, acts) \<Rightarrow> ((i, after_cr ed1), acts))"
      using edit v1 v by (simp add: ed1_def)
    show ?thesis unfolding a t by (rule edit_character_implements [OF wf1])
  qed
qed

end
