(* ===== verification/ConsoleRun.thy ===== *)
theory ConsoleRun
  imports ConsoleProps
begin

text \<open>
  Whole sequences of input: the states the console loop reaches, what typing a line does,
  and the properties of the console.
\<close>

section \<open>What a run does to the drivers\<close>

text \<open>The devices were used, the receiver kept up, nothing else changed.\<close>

definition used :: "drivers \<Rightarrow> drivers \<Rightarrow> bool" where
  "used d d' \<longleftrightarrow> (\<exists>evs. traffic d evs d')"

lemma used_refl [simp]: "used d d"
  unfolding used_def by (rule exI [of _ "[]"]) simp

lemma used_trans: "used d d1 \<Longrightarrow> used d1 d2 \<Longrightarrow> used d d2"
  unfolding used_def using traffic_trans by blast

lemma used_enabled: "used d d' \<Longrightarrow> receive_enabled d' = receive_enabled d"
  unfolding used_def using traffic_enabled by blast

lemma output_text_used:
  assumes "output_text s d = Inr d'" and "receive_enabled d"
  shows "used d d'"
proof -
  have w: "serial_write s d = (True, d')"
    using assms(1) by (auto simp: output_text_def split: prod.splits bool.splits)
  obtain evs where "polled (True \<and> receive_enabled d) d evs d'" by (rule serial_write_polled [OF w])
  then show ?thesis using assms(2) by (auto simp: used_def polled_def)
qed

lemma bind_InrD: "bind r f = Inr y \<Longrightarrow> \<exists>x. r = Inr x \<and> f x = Inr y"
  by (cases r) auto

lemma bind_used:
  assumes "bind r f = Inr d'" and "\<And>x. r = Inr x \<Longrightarrow> used d x"
    and "\<And>x. receive_enabled x \<Longrightarrow> f x = Inr d' \<Longrightarrow> used x d'" and "receive_enabled d"
  shows "used d d'"
  using bind_InrD [OF assms(1)] assms(2-4) used_enabled used_trans by metis

lemma say_used:
  "say ts d = Inr d' \<Longrightarrow> receive_enabled d \<Longrightarrow> used d d'"
proof (induction ts arbitrary: d' rule: rev_induct)
  case (snoc t ts)
  then have "bind (say ts d) (output_text t) = Inr d'" by (simp add: say_def)
  then show ?case using snoc.IH snoc.prems(2) output_text_used by (elim bind_used) auto
qed (simp add: say_def)

lemma if_InrE: "(if b then x else y) = Inr z \<Longrightarrow> (x = Inr z \<Longrightarrow> Q) \<Longrightarrow> (y = Inr z \<Longrightarrow> Q) \<Longrightarrow> Q"
  by (simp split: if_splits)

lemma Inr_used: "Inr d = (Inr d' :: drivers run) \<Longrightarrow> used d d'"
  by simp

lemma command_used:
  assumes "command p c d = Inr d'" and "receive_enabled d"
  shows "used d d'"
proof -
  have "used d d'" if "bind (output_text (str ''ticks: '') d) (\<lambda>d. say [decimal (unat (timer_ticks d)), [0x0a]] d) = Inr d'"
    using bind_used [OF that] output_text_used say_used assms(2) by metis
  note ticks = this
  have halt: "bind (output_text s d) (\<lambda>d. case serial_flush d of (False, d) \<Rightarrow> Inl (Spin, d)
      | (True, d) \<Rightarrow> Inl (Halted, f d)) \<noteq> (Inr d' :: drivers run)" for s f
    by (cases "output_text s d") (auto split: prod.splits bool.splits)
  note cases = if_InrE [OF assms(1) [unfolded command_def]]
  note used = Inr_used output_text_used [OF _ assms(2)] say_used [OF _ assms(2)] ticks notE [OF halt]
  show ?thesis
    apply (rule cases, erule used)
    apply (erule if_InrE, erule used)
    apply (erule if_InrE, erule used)
    apply (erule if_InrE, erule used)
    apply (erule if_InrE, erule used)
    apply (erule if_InrE, erule used)
    apply (erule used)
    done
qed

lemma perform_used: "perform p acts d = Inr d' \<Longrightarrow> receive_enabled d \<Longrightarrow> used d d'"
proof (induction acts arbitrary: d)
  case (Cons a acts)
  define r where "r = (case a of Print t \<Rightarrow> output_text t d | Run s \<Rightarrow> command p (trim s) d)"
  have "bind r (perform p acts) = Inr d'" using Cons.prems(1) by (cases a) (simp_all add: r_def)
  from bind_InrD [OF this] obtain x where x: "r = Inr x" "perform p acts x = Inr d'" by (elim exE conjE)
  have "used d x"
    using x(1) output_text_used [OF _ Cons.prems(2)] command_used [OF _ Cons.prems(2)]
    by (cases a) (simp_all add: r_def)
  moreover from this have "used x d'" using Cons.IH [OF x(2)] Cons.prems(2) used_enabled by simp
  ultimately show ?case by (rule used_trans)
qed simp


section \<open>The loop\<close>

text \<open>What holds at the head of the console loop.\<close>

definition same_cpu :: "drivers \<Rightarrow> drivers \<Rightarrow> bool" where
  "same_cpu d d' \<longleftrightarrow> (\<exists>h. cpu d' = (cpu d)\<lparr>io := h\<rparr>)"

definition console_ok :: "drivers \<Rightarrow> LINE_EDITOR \<Rightarrow> drivers \<Rightarrow> bool" where
  "console_ok d0 ed d \<longleftrightarrow> ed_wf ed \<and> rx_wf (receive_buffer d) \<and> receive_enabled d
     \<and> bit (rflags (cpu d)) 9 \<and> same_cpu d0 d"

lemma used_ok:
  assumes "used d d'" and "same_cpu d0 d" and "rx_wf (receive_buffer d)"
  shows "same_cpu d0 d'" "rx_wf (receive_buffer d')" "rflags (cpu d') = rflags (cpu d)"
  using assms by (auto simp: used_def same_cpu_def traffic_def did_def)

lemma accept_input_used:
  assumes "ed_wf ed" and "receive_enabled d" and "accept_input p ed b d = Inr (ed', d')"
  shows "ed_wf ed'" "used d d'"
  using accept_input_implements [OF assms(1), of p b d] assms(2,3) perform_used
  by (auto simp: implements_def)

text \<open>One round, by what the receive queue holds.\<close>

definition with_queue :: "drivers \<Rightarrow> RX_BUFFER \<Rightarrow> drivers" where
  "with_queue d b = d\<lparr>receive_buffer := b, cpu := x86_enable_interrupts (x86_disable_interrupts (cpu d))\<rparr>"

lemma console_iteration_eq:
  "console_iteration p ed d =
     (case rx_read (receive_buffer d) 0 of (st, b, q) \<Rightarrow>
        if st = 0 then Inr (ed, irq_window (with_queue d q))
        else if st < 0 then Inr (ed\<lparr>discard := True, escape := 0, after_cr := False\<rparr>, with_queue d q)
        else accept_input p ed b (with_queue d q))"
  by (simp add: console_iteration_def serial_read_def with_queue_def x86_enable_and_idle_def Let_def
      split: prod.splits)

lemma enable_disable: "bit (rflags m) 9 \<Longrightarrow> x86_enable_interrupts (x86_disable_interrupts m) = m"
proof -
  assume b: "bit (rflags m) 9"
  have "(rflags m AND NOT 0x200) OR 0x200 = rflags m"
  proof (rule bit_word_eqI)
    fix n
    have "bit (0x200 :: u64) n \<longleftrightarrow> n = 9" using bit_exp_iff [of 9 n, where 'a = u64] by auto
    then show "bit ((rflags m AND NOT 0x200) OR 0x200) n = bit (rflags m) n" if "n < LENGTH(64)"
      using b that by (auto simp: bit_simps)
  qed
  then show ?thesis by (simp add: x86_enable_interrupts_def x86_disable_interrupts_def)
qed

lemma with_queue_ok:
  assumes "console_ok d0 ed d" and "rx_wf q"
  shows "console_ok d0 ed (with_queue d q)" "with_queue d q = d\<lparr>receive_buffer := q\<rparr>"
proof -
  show "with_queue d q = d\<lparr>receive_buffer := q\<rparr>"
    using assms(1) enable_disable by (simp add: with_queue_def console_ok_def)
  then show "console_ok d0 ed (with_queue d q)" using assms by (simp add: console_ok_def same_cpu_def)
qed

lemma console_ok_used:
  assumes "console_ok d0 ed d" and "used d d'" and "ed_wf ed'"
  shows "console_ok d0 ed' d'"
  using assms used_ok [OF assms(2), of d0] used_enabled [OF assms(2)] by (auto simp: console_ok_def)

lemma irq_window_used: "used d (irq_window d)"
proof -
  obtain evs where "traffic d evs (irq_window d)" by (rule irq_window_traffic)
  then show ?thesis by (auto simp: used_def)
qed

lemma console_iteration_ok:
  assumes ok: "console_ok d0 ed d" and it: "console_iteration p ed d = Inr (ed', d')"
  shows "console_ok d0 ed' d'"
proof -
  obtain st b q where r: "rx_read (receive_buffer d) 0 = (st, b, q)" by (metis prod_cases3)
  have wf: "rx_wf q" using rxq.read_wf [of "receive_buffer d" 0] ok r by (simp add: console_ok_def)
  define d1 where "d1 = with_queue d q"
  have ok1: "console_ok d0 ed d1" using with_queue_ok [OF ok wf] by (simp add: d1_def)
  then have en: "receive_enabled d1" "ed_wf ed" by (simp_all add: console_ok_def)
  consider (idle) "st = 0" | (lost) "st < 0" | (byte) "st > 0" by linarith
  then show ?thesis
  proof cases
    case idle
    then show ?thesis using it r console_ok_used [OF ok1 irq_window_used en(2)]
      by (simp add: console_iteration_eq d1_def)
  next
    case lost
    then have "ed' = ed\<lparr>discard := True, escape := 0, after_cr := False\<rparr>" "d' = d1"
      using it r by (simp_all add: console_iteration_eq d1_def)
    then show ?thesis using ok1 by (simp add: console_ok_def ed_wf_def typed_def)
  next
    case byte
    then have "accept_input p ed b d1 = Inr (ed', d')" using it r by (simp add: console_iteration_eq d1_def)
    from accept_input_used [OF en(2,1) this] show ?thesis using console_ok_used [OF ok1] by blast
  qed
qed

lemma console_run_ok:
  assumes "console_run p editor d r" and "r = Inr (ed, e)"
    and "length (line editor) = 128" and "rx_wf (receive_buffer d)" and "receive_enabled d"
    and "bit (rflags (cpu d)) 9"
  shows "console_ok d ed e"
  using assms(1,2)
proof (induction arbitrary: ed e)
  case start
  define ed0 where "ed0 = (reset_line editor)\<lparr>after_cr := False\<rparr>"
  have wf0: "ed_wf ed0" using assms(3) by (simp add: ed0_def reset_line_def ed_wf_def typed_def)
  have "console_ok d ed0 d" using assms wf0 by (auto simp: console_ok_def same_cpu_def intro!: exI [of _ "io (cpu d)"])
  moreover have "ed = ed0 \<and> used d e"
    using start assms(5) output_text_used by (auto simp: console_start_def ed0_def Let_def dest!: bind_InrD)
  ultimately show ?case using console_ok_used wf0 by blast
next
  case (loop ed1 e1)
  then show ?case using console_iteration_ok by blast
qed


section \<open>Sequences of input bytes\<close>

fun accept_all :: "pmm \<Rightarrow> u8 list \<Rightarrow> LINE_EDITOR \<Rightarrow> drivers \<Rightarrow> (LINE_EDITOR \<times> drivers) run" where
  "accept_all p [] ed d = Inr (ed, d)"
| "accept_all p (b # bs) ed d = bind (accept_input p ed b d) (\<lambda>(ed, d). accept_all p bs ed d)"

fun terminal :: "u8 list \<Rightarrow> input \<times> bool \<Rightarrow> (input \<times> bool) \<times> action list" where
  "terminal [] st = (st, [])"
| "terminal (b # bs) st =
     (case terminal_step b st of (st', acts) \<Rightarrow>
        case terminal bs st' of (st'', acts') \<Rightarrow> (st'', acts @ acts'))"

lemma perform_append: "perform p (xs @ ys) d = bind (perform p xs d) (perform p ys)"
proof (induction xs arbitrary: d)
  case (Cons a xs)
  then have "perform p (xs @ ys) = (\<lambda>d. bind (perform p xs d) (perform p ys))" by (simp add: fun_eq_iff)
  then show ?case by (cases a) (simp_all add: bind_assoc)
qed simp

lemma accept_all_implements:
  "ed_wf ed \<Longrightarrow> implements (accept_all p bs ed d) (terminal bs (ed_view ed)) p d"
proof (induction bs arbitrary: ed d)
  case Nil
  then show ?case by (simp add: implements_def)
next
  case (Cons b bs)
  obtain st acts where step: "terminal_step b (ed_view ed) = (st, acts)" by fastforce
  obtain st' acts' where rest: "terminal bs st = (st', acts')" by fastforce
  have imp: "implements (accept_input p ed b d) (st, acts) p d"
    using accept_input_implements [OF Cons.prems, of p b d] step by simp
  show ?case
  proof (cases "accept_input p ed b d")
    case (Inl e)
    then show ?thesis using imp step rest by (simp add: implements_def perform_append)
  next
    case (Inr x)
    obtain ed1 d1 where x: "x = (ed1, d1)" by fastforce
    then have "perform p acts d = Inr d1" "ed_wf ed1" "ed_view ed1 = st"
      using imp Inr by (simp_all add: implements_def)
    then show ?thesis using Cons.IH [of ed1 d1] Inr x step rest
      by (simp add: implements_def perform_append split: sum.splits prod.splits)
  qed
qed

lemma terminal_append:
  "terminal (xs @ ys) st = (case terminal xs st of (st', acts) \<Rightarrow>
     case terminal ys st' of (st'', acts') \<Rightarrow> (st'', acts @ acts'))"
  by (induction xs arbitrary: st) (simp_all split: prod.splits)

definition echo :: "u8 list \<Rightarrow> action list" where
  "echo s = map (\<lambda>c. Print [c]) s"

lemma printable_bytes:
  "printable b \<Longrightarrow> b \<noteq> 0x0a \<and> b \<noteq> 0x0d \<and> b \<noteq> 3 \<and> b \<noteq> 27 \<and> b \<noteq> 8 \<and> b \<noteq> 127 \<and> b \<noteq> 9
     \<and> \<not> b < 32 \<and> \<not> 126 < b"
  by (auto simp: printable_def not_less)

lemma terminal_discarding:
  assumes "list_all (\<lambda>b. b \<noteq> 3 \<and> b \<noteq> 0x0d \<and> b \<noteq> 0x0a) w"
  shows "terminal w (Discarding, cr) = ((Discarding, if w = [] then cr else False), [])"
  using assms by (induction w arbitrary: cr) auto

lemma terminal_typing:
  "list_all printable w \<Longrightarrow> length s + length w \<le> 127 \<Longrightarrow>
     terminal w (Typing s 0, cr) = ((Typing (s @ w) 0, if w = [] then cr else False), echo w)"
proof (induction w arbitrary: s cr)
  case (Cons b w)
  then show ?case using printable_bytes [of b] by (simp add: echo_def)
qed (simp add: echo_def)

lemma terminal_overlong:
  assumes "list_all printable w" and "127 < length w"
  shows "terminal w (Typing [] 0, cr) = ((Discarding, False), echo (take 127 w))"
proof -
  obtain b v where w: "w = take 127 w @ b # v" using assms(2) by (metis append_take_drop_id Cons_nth_drop_Suc)
  have all: "list_all printable (take 127 w)" "printable b" "list_all printable v"
    using assms(1) arg_cong [OF w, of "list_all printable"] by simp_all
  have "list_all (\<lambda>b. b \<noteq> 3 \<and> b \<noteq> 0x0d \<and> b \<noteq> 0x0a) v"
    using all(3) printable_bytes by (auto simp: list_all_iff)
  then have "terminal (b # v) (Typing (take 127 w) 0, False) = ((Discarding, False), [])"
    using printable_bytes [OF all(2)] assms(2) terminal_discarding by simp
  moreover have "terminal (take 127 w) (Typing [] 0, cr) = ((Typing (take 127 w) 0, False), echo (take 127 w))"
    using terminal_typing [OF all(1), of "[]" cr] assms(2) by auto
  ultimately show ?thesis using terminal_append [of "take 127 w" "b # v"] w by simp
qed

text \<open>A line typed on a fresh prompt and ended by CR LF.\<close>

lemma terminal_line:
  assumes "list_all printable w"
  shows "terminal (w @ [0x0d, 0x0a]) (Typing [] 0, cr) = ((Typing [] 0, False), echo (take 127 w)
    @ [Print [0x0a], if length w \<le> 127 then Run w else Print discarded_text, Print prompt])"
proof (cases "length w \<le> 127")
  case True
  then show ?thesis using terminal_typing [OF assms, of "[]" cr] by (simp add: terminal_append)
next
  case False
  then show ?thesis using terminal_overlong [OF assms, of cr] by (simp add: terminal_append)
qed

lemma terminal_csi:
  assumes "list_all (\<lambda>b. \<not> (0x40 \<le> b \<and> b \<le> 0x7e) \<and> b \<noteq> 3 \<and> b \<noteq> 0x0d \<and> b \<noteq> 0x0a) ps"
    and "0x40 \<le> f" "f \<le> 0x7e" and "i \<in> {0x5b, 0x4f}"
  shows "terminal ([27, i] @ ps @ [f]) (Typing s 0, cr) = ((Typing s 0, False), [])"
proof -
  have "terminal ps (Typing s 2, False) = ((Typing s 2, False), [])"
    using assms(1) by (induction ps) auto
  moreover have "terminal [f] (Typing s 2, False) = ((Typing s 0, False), [])"
    using assms(2,3) by auto
  moreover have "terminal [27, i] (Typing s 0, cr) = ((Typing s 2, False), [])"
    using assms(4) by auto
  ultimately show ?thesis
    using terminal_append [of "[27, i]" "ps @ [f]" "(Typing s 0, cr)"]
      terminal_append [of ps "[f]" "(Typing s 2, False)"] by (simp del: terminal.simps)
qed

text \<open>
  An ESC inside an escape sequence ends it instead of starting a new one, so the keys of a
  terminal that sends ESC ESC \<open>[\<close> A leave the last two characters in the line.
\<close>

lemma escape_restart_leaks:
  "terminal [27, 27, 0x5b, 0x41] (Typing [] 0, False)
     = ((Typing [0x5b, 0x41] 0, False), [Print [0x5b], Print [0x41]])"
  by simp


section \<open>Properties\<close>

definition demo_editor :: LINE_EDITOR where
  "demo_editor = \<lparr>line = replicate 128 0, len = 0, escape = 0, after_cr = False, discard = False\<rparr>"

lemma demo_editor_wf: "ed_wf demo_editor" "ed_view demo_editor = (Typing [] 0, False)"
  by (simp_all add: demo_editor_def ed_wf_def ed_view_def typed_def)

text \<open>
  C26: The line editor on its 128-byte array implements the abstract line discipline: handling
  a byte performs exactly the output and the command the discipline prescribes for the text
  typed so far, leaves the editor in the prescribed state, and keeps the index inside the
  array and the stored text printable. If it does not return, neither does the prescribed
  output.
\<close>

theorem accept_input_refines:
  assumes "ed_wf ed"
  shows "implements (accept_input p ed b d) (terminal_step b (ed_view ed)) p d"
  using accept_input_implements [OF assms] .

theorem accept_input_refines_witness:
  "implements (accept_input demo_pmm demo_editor 0x68 pc_drivers)
     ((Typing [0x68] 0, False), [Print [0x68]]) demo_pmm pc_drivers"
  using accept_input_refines [OF demo_editor_wf(1), of demo_pmm "0x68" pc_drivers] demo_editor_wf(2)
  by simp

text \<open>
  C27: Typing a line of printable characters at the prompt and ending it with CR LF echoes
  the characters that fit, executes the line exactly once if it has at most 127 characters
  and otherwise executes nothing and reports that the input was discarded, and returns to
  the prompt.
\<close>

theorem console_line_executes_once:
  assumes "ed_wf ed" and "ed_view ed = (Typing [] 0, cr)" and "list_all printable w"
  shows "implements (accept_all p (w @ [0x0d, 0x0a]) ed d) ((Typing [] 0, False), echo (take 127 w)
    @ [Print [0x0a], if length w \<le> 127 then Run w else Print discarded_text, Print prompt]) p d"
  using accept_all_implements [OF assms(1), of p "w @ [0x0d, 0x0a]" d] assms(2)
    terminal_line [OF assms(3), of cr] by simp

theorem console_line_executes_once_witness:
  "implements (accept_all demo_pmm ([0x6d, 0x65, 0x6d] @ [0x0d, 0x0a]) demo_editor pc_drivers)
     ((Typing [] 0, False), [Print [0x6d], Print [0x65], Print [0x6d], Print [0x0a],
       Run [0x6d, 0x65, 0x6d], Print prompt]) demo_pmm pc_drivers"
  using console_line_executes_once [OF demo_editor_wf, of "[0x6d, 0x65, 0x6d]" demo_pmm pc_drivers]
  by (simp add: printable_def echo_def)

text \<open>
  The cursor and function keys of a terminal (ESC, then \<open>[\<close> or \<open>O\<close>, parameters and a
  final byte) neither print anything nor change the line being typed.
\<close>

lemma console_ignores_escape_sequences:
  assumes "ed_wf ed" and "ed_view ed = (Typing s 0, cr)" and "i \<in> {0x5b, 0x4f}"
    and "list_all (\<lambda>b. \<not> (0x40 \<le> b \<and> b \<le> 0x7e) \<and> b \<noteq> 3 \<and> b \<noteq> 0x0d \<and> b \<noteq> 0x0a) ps"
    and "0x40 \<le> f" and "f \<le> 0x7e"
  shows "\<exists>ed'. accept_all p ([27, i] @ ps @ [f]) ed d = Inr (ed', d) \<and> ed_wf ed'
    \<and> ed_view ed' = (Typing s 0, False)"
proof -
  have "implements (accept_all p ([27, i] @ ps @ [f]) ed d) ((Typing s 0, False), []) p d"
    using accept_all_implements [OF assms(1), of p "[27, i] @ ps @ [f]" d] assms(2)
      terminal_csi [OF assms(4-6,3), of s cr] by simp
  then show ?thesis by (auto simp: implements_def split: sum.splits)
qed

text \<open>
  C30: \<open>number\<close> prints the shortest decimal numeral of its 64-bit argument: the digits written
  backwards into the 21-byte buffer are those of the reference, which reads back as the
  argument.
\<close>

theorem number_prints_decimal:
  "number v d = output_text (decimal (unat v)) d \<and> undecimal (decimal (unat v)) = unat v"
  by (simp add: number_def number_text_decimal undecimal_decimal)

text \<open>
  C28: In every state at the head of the console loop, whatever arrives and whenever
  interrupts are taken, the editor is well formed, the receive buffer is well formed and
  enabled, interrupts are enabled, and the processor's registers and memory are those at
  the start.
\<close>

theorem console_run_invariant:
  assumes "console_run p editor d (Inr (ed, e))"
    and "length (line editor) = 128" and "rx_wf (receive_buffer d)" and "receive_enabled d"
    and "bit (rflags (cpu d)) 9"
  shows "ed_wf ed \<and> rx_wf (receive_buffer e) \<and> receive_enabled e \<and> bit (rflags (cpu e)) 9
    \<and> same_cpu d e"
  using console_run_ok [OF assms(1) refl assms(2-5)] by (simp add: console_ok_def)

text \<open>A running system: interrupts enabled, a receiver, and a transmitter that is ready.\<close>

definition live_drivers :: drivers where
  "live_drivers = pc_drivers\<lparr>cpu := x86_enable_interrupts pc_machine, receive_enabled := True\<rparr>"

lemma live_facts:
  "rx_wf (receive_buffer live_drivers)" "receive_enabled live_drivers" "bit (rflags (cpu live_drivers)) 9"
  "quiet live_drivers" "transmitter_alive (cpu live_drivers)"
proof -
  show "rx_wf (receive_buffer live_drivers)" "receive_enabled live_drivers"
    using demo_buffer_wf by (simp_all add: live_drivers_def pc_drivers_def)
  show "bit (rflags (cpu live_drivers)) 9" "quiet live_drivers"
    by (simp_all add: live_drivers_def pc_drivers_def x86_enable_interrupts_def quiet_def pc_machine_def)
  show "transmitter_alive (cpu live_drivers)"
    using pc_alive(2) by (simp add: transmitter_alive_def live_drivers_def pc_drivers_def x86_enable_interrupts_def)
qed

lemma live_start: "\<exists>e. console_start demo_editor live_drivers = Inr (demo_editor, e)"
proof -
  define s where "s = str ''CONSOLE: ready (type '' @ [0x27] @ str ''help'' @ [0x27] @ str '')'' @ [0x0a] @ prompt"
  obtain e where "serial_write s live_drivers = (True, e)"
    using serial_write_ready [OF live_facts(4,5), of s] by (cases "serial_write s live_drivers") simp
  then have "console_start demo_editor live_drivers = Inr (demo_editor, e)"
    unfolding console_start_def s_def [symmetric] Let_def
    by (simp add: output_text_def reset_line_def demo_editor_def)
  then show ?thesis by blast
qed

theorem console_run_invariant_witness:
  "\<exists>ed e. console_run demo_pmm demo_editor live_drivers (Inr (ed, e)) \<and> ed_wf ed
     \<and> rx_wf (receive_buffer e) \<and> bit (rflags (cpu e)) 9"
proof -
  obtain e where "console_start demo_editor live_drivers = Inr (demo_editor, e)" using live_start by blast
  then have run: "console_run demo_pmm demo_editor live_drivers (Inr (demo_editor, e))"
    using console_run.start [of demo_pmm demo_editor live_drivers] by simp
  have "length (line demo_editor) = 128" by (simp add: demo_editor_def)
  from console_run_invariant [OF run this live_facts(1-3)] run show ?thesis by blast
qed

text \<open>
  C29: One round of the console loop. An empty queue puts the processor to sleep with
  interrupts enabled, the waiting interrupts are then taken and the editor is unchanged;
  otherwise the oldest received byte is removed and handled; a loss is
  reported once, empties the queue and discards the line being typed.
\<close>

theorem console_iteration_cases:
  assumes "ed_wf ed" and "rx_wf (receive_buffer d)" and "bit (rflags (cpu d)) 9"
  shows "case rx_view_of (receive_buffer d) of
      Queued [] \<Rightarrow> console_iteration p ed d = Inr (ed, irq_window d)
    | Queued (b # q) \<Rightarrow> \<exists>buf. rx_wf buf \<and> rx_view_of buf = Queued q
        \<and> console_iteration p ed d = accept_input p ed b (d\<lparr>receive_buffer := buf\<rparr>)
    | Lost \<Rightarrow> \<exists>buf ed'. rx_wf buf \<and> rx_view_of buf = Queued [] \<and> ed_wf ed'
        \<and> console_iteration p ed d = Inr (ed', d\<lparr>receive_buffer := buf\<rparr>)
        \<and> ed_view ed' = (Discarding, False)"
proof -
  obtain st b q where r: "rx_read (receive_buffer d) 0 = (st, b, q)" by (metis prod_cases3)
  have wf: "rx_wf q" using rxq.read_wf [OF assms(2), of 0] r by simp
  have v: "(st, b, rx_view_of q) = view_read (rx_view_of (receive_buffer d)) 0"
    using rxq.read_view [OF assms(2), of 0] r by simp
  have w: "with_queue d q = d\<lparr>receive_buffer := q\<rparr>"
    using assms(3) enable_disable by (simp add: with_queue_def)
  show ?thesis
  proof (cases "rx_view_of (receive_buffer d)")
    case Lost
    define ed' where "ed' = ed\<lparr>discard := True, escape := 0, after_cr := False\<rparr>"
    have "ed_wf ed'" "ed_view ed' = (Discarding, False)"
      using assms(1) by (simp_all add: ed'_def ed_wf_def ed_view_def typed_def)
    moreover have "console_iteration p ed d = Inr (ed', d\<lparr>receive_buffer := q\<rparr>)" "rx_view_of q = Queued []"
      using Lost v r w by (simp_all add: console_iteration_eq ed'_def)
    ultimately show ?thesis using Lost wf by auto
  next
    case (Queued xs)
    show ?thesis
    proof (cases xs)
      case Nil
      have "q = receive_buffer d" using Queued Nil v r
        by (auto simp: rx_read_def split: if_splits)
      then have "with_queue d q = d" using w by simp
      then show ?thesis using Queued Nil v r by (simp add: console_iteration_eq)
    next
      case (Cons x xs')
      then show ?thesis using Queued v r w wf by (auto simp: console_iteration_eq)
    qed
  qed
qed

theorem console_iteration_cases_witness:
  "\<exists>buf. rx_view_of buf = Queued [] \<and> console_iteration demo_pmm demo_editor live_drivers
     = accept_input demo_pmm demo_editor 0 (live_drivers\<lparr>receive_buffer := buf\<rparr>)"
proof -
  have "rx_view_of (receive_buffer live_drivers) = Queued [0]"
    by (simp add: rx_view_of_def rx_contents_def rx_count_def demo_buffer_def live_drivers_def pc_drivers_def)
  then show ?thesis
    using console_iteration_cases [OF demo_editor_wf(1) live_facts(1,3), of demo_pmm] by auto
qed

end
