(* ===== verification/ElfLoader.thy ===== *)
theory ElfLoader
  imports X86
begin

text \<open>
  The ELF loader \<open>boot/load.c\<close>. The file lies in memory at \<open>data\<close>; headers are read from
  there. The firmware is not part of the sources: a call of a UEFI service is an event with
  its arguments, and \<open>efi\<close> gives the reply to each history of calls (the newest first), an
  arbitrary function that the definitions take as an argument. A status is an \<open>EFI_STATUS\<close>.
\<close>

type_synonym EFI_STATUS = u64

abbreviation (input) EFI_SUCCESS :: EFI_STATUS where
  "EFI_SUCCESS \<equiv> 0"

definition EFI_ERROR_BIT :: EFI_STATUS where
  "EFI_ERROR_BIT = push_bit 63 1"

definition EFI_ERROR :: "EFI_STATUS \<Rightarrow> bool" where
  "EFI_ERROR status \<longleftrightarrow> status AND EFI_ERROR_BIT \<noteq> 0"

definition EFI_LOAD_ERROR :: EFI_STATUS where
  "EFI_LOAD_ERROR = EFI_ERROR_BIT OR 1"

definition EFI_UNSUPPORTED :: EFI_STATUS where
  "EFI_UNSUPPORTED = EFI_ERROR_BIT OR 3"

definition EFI_INVALID_PARAMETER :: EFI_STATUS where
  "EFI_INVALID_PARAMETER = EFI_ERROR_BIT OR 2"

definition EFI_DEVICE_ERROR :: EFI_STATUS where
  "EFI_DEVICE_ERROR = EFI_ERROR_BIT OR 7"


section \<open>Firmware services\<close>

record EFI_GUID =
  Data1 :: u32
  Data2 :: u16
  Data3 :: u16
  Data4 :: "u8 list"

datatype efi_call =
    AllocatePages u32 u32 u64 u64
  | FreePages u64 u64
  | GetMemoryMap u64 u64
  | AllocatePool u32 u64
  | FreePool u64
  | HandleProtocol u64 EFI_GUID
  | ExitBootServices u64 u64
  | SetWatchdogTimer u64 u64 u64
  | LocateProtocol EFI_GUID
  | OpenVolume u64
  | Open u64 "u16 list" u64 u64
  | Close u64
  | Read u64 u64 u64
  | GetPosition u64
  | SetPosition u64 u64
  | SetAttributes u64 u64 u32 u32 nat u8 nat
  | Write u64 u64 "u8 list"
  | OutputString u64 "u16 list"

text \<open>
  A reply: the status, the value stored through the pointer argument (an address, a size or
  a position), the bytes stored into the buffer argument, and the further results of
  \<open>GetMemoryMap\<close>.
\<close>

record efi_reply =
  status :: EFI_STATUS
  result :: u64
  bytes :: "u8 list"
  map_key :: u64
  map_stride :: u64
  map_version :: u32

type_synonym firmware = "efi_call list \<Rightarrow> efi_reply"

record loader =
  lcpu :: machine
  calls :: "efi_call list"

definition call :: "firmware \<Rightarrow> efi_call \<Rightarrow> loader \<Rightarrow> efi_reply \<times> loader" where
  "call efi c s = (efi (c # calls s), s\<lparr>calls := c # calls s\<rparr>)"

definition lmem :: "loader \<Rightarrow> memory" where
  "lmem s = ram (lcpu s)"

definition set_lmem :: "memory \<Rightarrow> loader \<Rightarrow> loader" where
  "set_lmem m s = s\<lparr>lcpu := (lcpu s)\<lparr>ram := m\<rparr>\<rparr>"


section \<open>ELF headers\<close>

record ELF_HEADER =
  e_ident :: "u8 list"
  e_type :: u16
  e_machine :: u16
  e_version :: u32
  e_entry :: u64
  e_phoff :: u64
  e_ehsize :: u16
  e_phentsize :: u16
  e_phnum :: u16

record ELF_PROGRAM =
  p_type :: u32
  p_flags :: u32
  p_offset :: u64
  p_vaddr :: u64
  p_paddr :: u64
  p_filesz :: u64
  p_memsz :: u64
  p_align :: u64

definition load16 :: "memory \<Rightarrow> u64 \<Rightarrow> u16" where
  "load16 = load_le 2"

text \<open>The fields of the header that the loader reads.\<close>

definition load_ELF_HEADER :: "memory \<Rightarrow> u64 \<Rightarrow> ELF_HEADER" where
  "load_ELF_HEADER m a = \<lparr>e_ident = map (\<lambda>i. m (a + of_nat i)) [0..<16], e_type = load16 m (a + 16),
     e_machine = load16 m (a + 18), e_version = load32 m (a + 20), e_entry = load64 m (a + 24),
     e_phoff = load64 m (a + 32), e_ehsize = load16 m (a + 52), e_phentsize = load16 m (a + 54),
     e_phnum = load16 m (a + 56)\<rparr>"

definition load_ELF_PROGRAM :: "memory \<Rightarrow> u64 \<Rightarrow> ELF_PROGRAM" where
  "load_ELF_PROGRAM m a = \<lparr>p_type = load32 m a, p_flags = load32 m (a + 4), p_offset = load64 m (a + 8),
     p_vaddr = load64 m (a + 16), p_paddr = load64 m (a + 24), p_filesz = load64 m (a + 32),
     p_memsz = load64 m (a + 40), p_align = load64 m (a + 48)\<rparr>"

definition valid_elf_header :: "ELF_HEADER \<Rightarrow> u64 \<Rightarrow> bool" where
  "valid_elf_header header file_size =
     (let ident = e_ident header in
      if ident ! 0 \<noteq> 0x7f \<or> ident ! 1 \<noteq> 0x45 \<or> ident ! 2 \<noteq> 0x4c \<or> ident ! 3 \<noteq> 0x46 then False
      else if ident ! 4 \<noteq> 2 \<or> ident ! 5 \<noteq> 1 \<or> ident ! 6 \<noteq> 1 then False
      else if e_type header \<noteq> 2 \<or> e_machine header \<noteq> 62 \<or> e_version header \<noteq> 1 then False
      else if e_ehsize header \<noteq> 64 \<or> e_phentsize header \<noteq> 56 then False
      else if e_phnum header = 0 \<or> e_phnum header > 128 then False
      else if e_phoff header mod 8 \<noteq> 0 \<or> e_phoff header > file_size then False
      else ucast (e_phnum header) \<le> (file_size - e_phoff header) div 56)"

definition valid_segment :: "ELF_PROGRAM \<Rightarrow> u64 \<Rightarrow> bool" where
  "valid_segment segment file_size =
     (if p_filesz segment > p_memsz segment \<or> p_offset segment > file_size then False
      else if p_filesz segment > file_size - p_offset segment then False
      else if p_paddr segment \<noteq> p_vaddr segment then False
      else if p_vaddr segment < 0x100000 \<or> p_vaddr segment \<ge> 0x100000000 then False
      else if p_memsz segment > 0x100000000 - p_vaddr segment then False
      else if p_align segment \<le> 1 then True
      else if p_align segment AND (p_align segment - 1) \<noteq> 0 then False
      else p_vaddr segment mod p_align segment = p_offset segment mod p_align segment)"

text \<open>\<open>&programs[i]\<close>\<close>

definition program :: "memory \<Rightarrow> u64 \<Rightarrow> u64 \<Rightarrow> ELF_PROGRAM" where
  "program m programs i = load_ELF_PROGRAM m (programs + 56 * i)"

definition overlaps_previous_segment :: "memory \<Rightarrow> u64 \<Rightarrow> u64 \<Rightarrow> bool" where
  "overlaps_previous_segment m programs index =
     (let current = program m programs index in
      case for_ret 0 index (\<lambda>i _.
        let other = program m programs i in
        if p_type other \<noteq> 1 \<or> p_memsz other = 0 then Inr ()
        else if p_vaddr current \<ge> p_vaddr other + p_memsz other then Inr ()
        else if p_vaddr other < p_vaddr current + p_memsz current then Inl True
        else Inr ()) () of
        Inl r \<Rightarrow> r
      | Inr _ \<Rightarrow> False)"

record IMAGE_RANGE =
  range_base :: u64
  range_end :: u64

text \<open>The loop variables of \<open>inspect_segments\<close>.\<close>

record inspection =
  low :: u64
  high :: u64
  entry_valid :: bool

definition inspect_segment ::
  "memory \<Rightarrow> u64 \<Rightarrow> ELF_HEADER \<Rightarrow> u64 \<Rightarrow> u64 \<Rightarrow> inspection \<Rightarrow> EFI_STATUS + inspection" where
  "inspect_segment m ph h file_size i s =
     (let p = program m ph i in
      if p_type p = 2 \<or> p_type p = 3 then Inl EFI_UNSUPPORTED
      else if p_type p \<noteq> 1 then Inr s
      else if \<not> valid_segment p file_size then Inl EFI_LOAD_ERROR
      else if p_memsz p = 0 then Inr s
      else if overlaps_previous_segment m ph i then Inl EFI_LOAD_ERROR
      else
        let s = (if p_flags p AND 1 \<noteq> 0 \<and> e_entry h \<ge> p_vaddr p \<and> e_entry h - p_vaddr p < p_filesz p
                 then s\<lparr>entry_valid := True\<rparr> else s);
            beg = p_vaddr p AND NOT 4095;
            fin = (p_vaddr p + p_memsz p + 4095) AND NOT 4095;
            s = (if beg < low s then s\<lparr>low := beg\<rparr> else s);
            s = (if fin > high s then s\<lparr>high := fin\<rparr> else s)
        in Inr s)"

definition inspect_segments :: "memory \<Rightarrow> u64 \<Rightarrow> ELF_HEADER \<Rightarrow> u64 \<Rightarrow> EFI_STATUS + IMAGE_RANGE" where
  "inspect_segments m data h file_size =
     (let ph = data + e_phoff h in
      case for_ret 0 (ucast (e_phnum h)) (inspect_segment m ph h file_size)
          \<lparr>low = UINT64_MAX, high = 0, entry_valid = False\<rparr> of
        Inl st \<Rightarrow> Inl st
      | Inr s \<Rightarrow>
          if \<not> entry_valid s \<or> high s \<le> low s \<or> high s - low s > 64 * 1024 * 1024 then Inl EFI_LOAD_ERROR
          else Inr \<lparr>range_base = low s, range_end = high s\<rparr>)"


section \<open>Placing the image\<close>

definition zero_bytes :: "u64 \<Rightarrow> u64 \<Rightarrow> memory \<Rightarrow> memory" where
  "zero_bytes a n m = for_up 0 n (\<lambda>i m. m(a + i := 0)) m"

definition copy_bytes :: "u64 \<Rightarrow> u64 \<Rightarrow> u64 \<Rightarrow> memory \<Rightarrow> memory" where
  "copy_bytes dst src n m = for_up 0 n (\<lambda>j m. m(dst + j := m (src + j))) m"

definition copy_segment :: "u64 \<Rightarrow> u64 \<Rightarrow> u64 \<Rightarrow> memory \<Rightarrow> memory" where
  "copy_segment data programs i m =
     (let segment = program m programs i in
      if p_type segment \<noteq> 1 then m
      else copy_bytes (p_vaddr segment) (data + p_offset segment) (p_filesz segment) m)"

definition copy_segments :: "u64 \<Rightarrow> ELF_HEADER \<Rightarrow> IMAGE_RANGE \<Rightarrow> memory \<Rightarrow> memory" where
  "copy_segments data header img m =
     (let programs = data + e_phoff header;
          m = zero_bytes (range_base img) (range_end img - range_base img) m
      in for_up 0 (ucast (e_phnum header)) (copy_segment data programs) m)"

record LOADED_KERNEL =
  kbase :: u64
  kpages :: u64
  kentry :: u64

definition place_kernel ::
  "firmware \<Rightarrow> u64 \<Rightarrow> u64 \<Rightarrow> loader \<Rightarrow> (EFI_STATUS + LOADED_KERNEL) \<times> loader" where
  "place_kernel efi data file_size s =
     (if file_size < 64 then (Inl EFI_LOAD_ERROR, s)
      else
        let header = load_ELF_HEADER (lmem s) data in
        if \<not> valid_elf_header header file_size then (Inl EFI_LOAD_ERROR, s)
        else case inspect_segments (lmem s) data header file_size of
          Inl st \<Rightarrow> (Inl st, s)
        | Inr img \<Rightarrow>
            let pages = (range_end img - range_base img) div 4096;
                (r, s) = call efi (AllocatePages 2 1 pages (range_base img)) s
            in if EFI_ERROR (status r) then (Inl (status r), s)
               else
                 (Inr \<lparr>kbase = result r, kpages = pages, kentry = e_entry header\<rparr>,
                  set_lmem (copy_segments data header img (lmem s)) s))"

text \<open>
  \<open>read_entire_file\<close>: every round reads at least one byte, so \<open>length\<close> rounds are enough; the
  recursion is on the bytes that are still missing. The firmware stores the bytes it read.
\<close>

definition store_bytes :: "u64 \<Rightarrow> u8 list \<Rightarrow> memory \<Rightarrow> memory" where
  "store_bytes a bs m = (\<lambda>b. if unat (b - a) < length bs then bs ! unat (b - a) else m b)"

lemma read_progress:
  fixes got len count :: u64
  assumes "got < len" and "count \<noteq> 0" and "count \<le> len - got"
  shows "unat (got + count) = unat got + unat count" "unat got + unat count \<le> unat len"
    "0 < unat count"
proof -
  have "unat (len - got) = unat len - unat got" using assms(1) by (simp add: unat_sub)
  then have le: "unat count \<le> unat len - unat got" using assms(3) by (simp add: word_le_nat_alt)
  have "unat got < unat len" using assms(1) by (simp add: word_less_nat_alt)
  then show sum: "unat got + unat count \<le> unat len" using le by simp
  then show "unat (got + count) = unat got + unat count"
    using unat_lt64 [of len] by (simp add: unat_add_no_wrap)
  show "0 < unat count" using assms(2) by (simp add: unat_gt_0)
qed

function read_entire_file ::
  "firmware \<Rightarrow> u64 \<Rightarrow> u64 \<Rightarrow> u64 \<Rightarrow> u64 \<Rightarrow> loader \<Rightarrow> EFI_STATUS \<times> loader" where
  "read_entire_file efi file buffer len got s =
     (if got < len then
        let count = len - got;
            (r, s) = call efi (Read file count (buffer + got)) s;
            s = set_lmem (store_bytes (buffer + got) (bytes r) (lmem s)) s;
            count = result r
        in if EFI_ERROR (status r) then (status r, s)
           else if count = 0 \<or> count > len - got then (EFI_LOAD_ERROR, s)
           else read_entire_file efi file buffer len (got + count) s
      else (EFI_SUCCESS, s))"
  by pat_completeness auto

termination
proof (relation "measure (\<lambda>(efi, file, buffer, len, got, s). unat len - unat got)", goal_cases)
  case (2 efi fl buffer len got s count x r s1 s2 count')
  then have "got < len" "count' \<noteq> 0" "count' \<le> len - got" by auto
  from read_progress [OF this] show ?case by simp
qed simp

declare read_entire_file.simps [simp del]

text \<open>\<open>\\kernel.elf\<close> in UCS-2, and the two protocol identifiers.\<close>

definition kernel_path :: "u16 list" where
  "kernel_path = map of_char (CHR 0x5C # ''kernel.elf'') @ [0]"

definition loaded_guid :: EFI_GUID where
  "loaded_guid = \<lparr>Data1 = 0x5b1b31a1, Data2 = 0x9562, Data3 = 0x11d2,
     Data4 = [0x8e, 0x3f, 0, 0xa0, 0xc9, 0x69, 0x72, 0x3b]\<rparr>"

definition fs_guid :: EFI_GUID where
  "fs_guid = \<lparr>Data1 = 0x964e5b22, Data2 = 0x6459, Data3 = 0x11d2,
     Data4 = [0x8e, 0x39, 0, 0xa0, 0xc9, 0x69, 0x72, 0x3b]\<rparr>"

text \<open>
  \<open>load_kernel\<close> from \<open>root->Open\<close> to the label \<open>cleanup\<close>: the outcome, and the pointers
  \<open>file\<close> and \<open>buffer\<close>, which are null until the firmware has set them.
\<close>

definition load_file ::
  "firmware \<Rightarrow> u64 \<Rightarrow> loader \<Rightarrow> (EFI_STATUS + LOADED_KERNEL) \<times> u64 \<times> u64 \<times> loader" where
  "load_file efi root s =
     (let (r, s) = call efi (Open root kernel_path 1 0) s in
      if EFI_ERROR (status r) then (Inl (status r), 0, 0, s)
      else
        let file = result r; (r, s) = call efi (SetPosition file UINT64_MAX) s in
        if EFI_ERROR (status r) then (Inl (status r), file, 0, s)
        else
          let (r, s) = call efi (GetPosition file) s in
          if EFI_ERROR (status r) then (Inl (status r), file, 0, s)
          else
            let len = result r in
            if len < 64 \<or> len > 16 * 1024 * 1024 then (Inl EFI_LOAD_ERROR, file, 0, s)
            else
              let (r, s) = call efi (SetPosition file 0) s in
              if EFI_ERROR (status r) then (Inl (status r), file, 0, s)
              else
                let (r, s) = call efi (AllocatePool 2 len) s in
                if EFI_ERROR (status r) then (Inl (status r), file, 0, s)
                else
                  let buffer = result r; (st, s) = read_entire_file efi file buffer len 0 s in
                  if EFI_ERROR st then (Inl st, file, buffer, s)
                  else let (k, s) = place_kernel efi buffer len s in (k, file, buffer, s))"

definition load_kernel :: "firmware \<Rightarrow> u64 \<Rightarrow> loader \<Rightarrow> (EFI_STATUS + LOADED_KERNEL) \<times> loader" where
  "load_kernel efi handle s =
     (let (r, s) = call efi (HandleProtocol handle loaded_guid) s in
      if EFI_ERROR (status r) then (Inl (status r), s)
      else
        let loaded = result r;
            (r, s) = call efi (HandleProtocol (load64 (lmem s) (loaded + 24)) fs_guid) s
        in if EFI_ERROR (status r) then (Inl (status r), s)
           else
             let (r, s) = call efi (OpenVolume (result r)) s in
             if EFI_ERROR (status r) then (Inl (status r), s)
             else
               let root = result r;
                   (k, file, buffer, s) = load_file efi root s;
                   s = (if buffer \<noteq> 0 then snd (call efi (FreePool buffer) s) else s);
                   s = (if file \<noteq> 0 then snd (call efi (Close file) s) else s);
                   s = snd (call efi (Close root) s)
               in (k, s))"

end
