(* ===== verification/BootMain.thy ===== *)
theory BootMain
  imports ElfLoader BootInfo
begin

text \<open>
  The UEFI application \<open>boot/main.c\<close>. \<open>efi_main\<close> ends in one of three ways: it returns a
  status to the firmware, it enters the kernel, or it stops after boot services may have
  been shut down. \<open>system_table\<close> holds the two text consoles, null when absent.
\<close>

record EFI_SYSTEM_TABLE =
  ConOut :: u64
  StdErr :: u64

datatype boot_outcome =
    Returned EFI_STATUS
  | EnterKernel u64 u64 u64
  | Stopped EFI_STATUS

definition hex_digits :: "'a::comm_semiring_1 list" where
  "hex_digits = map of_char ''0123456789abcdef''"

text \<open>\<open>digits[(value >> ((15 - i) * 4)) & 15]\<close>\<close>

definition hex_digit :: "u64 \<Rightarrow> u64 \<Rightarrow> 'a::comm_semiring_1" where
  "hex_digit v i = hex_digits ! unat (drop_bit (unat ((15 - i) * 4)) v AND 15)"

definition fill_hex :: "nat \<Rightarrow> u64 \<Rightarrow> 'a::comm_semiring_1 list \<Rightarrow> 'a list" where
  "fill_hex start v text0 = for_up 0 16 (\<lambda>i t. t[start + unat i := hex_digit v i]) text0"

definition error_code :: "EFI_STATUS \<Rightarrow> u16 list" where
  "error_code st = fill_hex 10 st (map of_char '' status=0x0000000000000000'' @ [0x0d, 0x0a, 0])"

fun output_each :: "firmware \<Rightarrow> u64 \<Rightarrow> string \<Rightarrow> loader \<Rightarrow> loader" where
  "output_each efi out [] s = s"
| "output_each efi out (c # cs) s =
     output_each efi out cs (snd (call efi (OutputString out [of_char c, 0]) s))"

definition report_error ::
  "firmware \<Rightarrow> EFI_SYSTEM_TABLE \<Rightarrow> string \<Rightarrow> EFI_STATUS \<Rightarrow> loader \<Rightarrow> EFI_STATUS \<times> loader" where
  "report_error efi table operation st s =
     (let out = (if StdErr table \<noteq> 0 then StdErr table else ConOut table) in
      if out \<noteq> 0 then
        let s = snd (call efi (OutputString out ([0x0d, 0x0a] @ map of_char ''BOOT ERROR: '' @ [0])) s);
            s = output_each efi out operation s;
            s = snd (call efi (OutputString out (error_code st)) s)
        in (st, s)
      else (st, s))"

abbreviation (input) handoff_pages :: u64 where
  "handoff_pages \<equiv> 35"

abbreviation (input) map_capacity :: u64 where
  "map_capacity \<equiv> 16 * 4096"

text \<open>The stores into the information block, in program order; fields not written stay zero.\<close>

definition fill_info :: "u64 \<Rightarrow> LOADED_KERNEL \<Rightarrow> memory \<Rightarrow> memory" where
  "fill_info info kern m =
     (let m = store64 info BOOT_INFO_MAGIC m;
          m = store32 (info + 8) BOOT_INFO_VERSION m;
          m = store32 (info + 12) (ucast sizeof_BOOT_INFO) m;
          m = store64 (info + 16) (info + 4096) m;
          m = store64 (info + 48) (kbase kern) m;
          m = store64 (info + 56) (kpages kern * 4096) m;
          m = store64 (info + 64) (load64 m (info + 16) + map_capacity + 4096) m;
          m = store64 (info + 72) (16 * 4096) m
      in m)"

definition allocate_handoff :: "firmware \<Rightarrow> LOADED_KERNEL \<Rightarrow> loader \<Rightarrow> (EFI_STATUS + u64) \<times> loader" where
  "allocate_handoff efi kern s =
     (let (r, s) = call efi (AllocatePages 0 2 handoff_pages 0) s in
      if EFI_ERROR (status r) then (Inl (status r), s)
      else
        let base = result r;
            s = set_lmem (zero_bytes base (handoff_pages * 4096) (lmem s)) s;
            s = set_lmem (fill_info base kern (lmem s)) s
        in (Inr base, s))"

text \<open>\<open>boot_exit_failure = status; cli; spin\<close>\<close>

definition stop_boot :: "EFI_STATUS \<Rightarrow> loader \<Rightarrow> boot_outcome \<times> loader" where
  "stop_boot st s = (Stopped st, s\<lparr>lcpu := x86_disable_interrupts (lcpu s)\<rparr>)"

text \<open>One attempt to leave boot services: \<open>Inl\<close> ends the loop, \<open>Inr\<close> tries again.\<close>

definition exit_attempt ::
  "firmware \<Rightarrow> u64 \<Rightarrow> EFI_SYSTEM_TABLE \<Rightarrow> LOADED_KERNEL \<Rightarrow> u64 \<Rightarrow> u64 \<Rightarrow> EFI_STATUS \<times> loader
     \<Rightarrow> (boot_outcome \<times> loader) + (EFI_STATUS \<times> loader)" where
  "exit_attempt efi handle table kern info attempt st_s =
     (let s = snd st_s;
          buf = load64 (lmem s) (info + 16);
          (r, s) = call efi (GetMemoryMap map_capacity buf) s;
          s = set_lmem (store_bytes buf (bytes r) (lmem s)) s
      in if EFI_ERROR (status r) then
           if attempt = 0 then
             let s = snd (call efi (FreePages info handoff_pages) s);
                 s = snd (call efi (FreePages (kbase kern) (kpages kern)) s);
                 (st, s) = report_error efi table ''GetMemoryMap'' (status r) s
             in Inl (Returned st, s)
           else Inl (stop_boot (status r) s)
         else
           let m = store64 (info + 24) (result r) (lmem s);
               m = store64 (info + 32) (map_stride r) m;
               m = store32 (info + 40) (map_version r) m;
               (r2, s) = call efi (ExitBootServices handle (map_key r)) (set_lmem m s)
           in if status r2 = EFI_SUCCESS then
                let s = set_lmem (store64 (info + 80) BOOT_SERVICES_EXITED (lmem s)) s;
                    s = s\<lparr>lcpu := x86_disable_interrupts (lcpu s)\<rparr>
                in Inl (EnterKernel (kentry kern) info
                     (load64 (lmem s) (info + 64) + load64 (lmem s) (info + 72)), s)
              else if status r2 \<noteq> EFI_INVALID_PARAMETER then Inl (stop_boot (status r2) s)
              else Inr (status r2, s))"

definition start_kernel ::
  "firmware \<Rightarrow> u64 \<Rightarrow> EFI_SYSTEM_TABLE \<Rightarrow> LOADED_KERNEL \<Rightarrow> loader \<Rightarrow> boot_outcome \<times> loader" where
  "start_kernel efi handle table kern s =
     (case allocate_handoff efi kern s of
        (Inl st, s) \<Rightarrow>
          let s = snd (call efi (FreePages (kbase kern) (kpages kern)) s);
              (st, s) = report_error efi table ''AllocatePages(boot information)'' st s
          in (Returned st, s)
      | (Inr info, s) \<Rightarrow>
          (case for_ret 0 8 (exit_attempt efi handle table kern info) (0, s) of
             Inl r \<Rightarrow> r
           | Inr (st, s) \<Rightarrow> stop_boot st s))"

definition serial_guid :: EFI_GUID where
  "serial_guid = \<lparr>Data1 = 0xbb25cf6f, Data2 = 0xf1d4, Data3 = 0x11d2,
     Data4 = [0x9a, 0x0c, 0x00, 0x90, 0x27, 0x3f, 0xc1, 0xfd]\<rparr>"

definition banner :: "u8 list" where
  "banner = [0x0d, 0x0a] @ map of_char ''BOOT: UEFI x86_64 C entry'' @ [0x0d, 0x0a]
     @ map of_char ''BOOT: EFI_SERIAL_IO_PROTOCOL via LocateProtocol'' @ [0x0d, 0x0a]
     @ map of_char ''BOOT: serial ready (115200 8N1)'' @ [0x0d, 0x0a]
     @ map of_char ''BOOT: loading kernel.elf'' @ [0x0d, 0x0a]"

definition entry_text :: "u64 \<Rightarrow> u8 list" where
  "entry_text e = fill_hex 21 e (map of_char ''BOOT: kernel entry=0x0000000000000000'' @ [0x0d, 0x0a])"

definition fail_with :: "firmware \<Rightarrow> EFI_SYSTEM_TABLE \<Rightarrow> string \<Rightarrow> EFI_STATUS \<Rightarrow> loader \<Rightarrow> boot_outcome \<times> loader" where
  "fail_with efi table operation st s =
     (let (st, s) = report_error efi table operation st s in (Returned st, s))"

text \<open>\<open>efi_main\<close> after the serial port has been set up.\<close>

definition load_and_start :: "firmware \<Rightarrow> u64 \<Rightarrow> EFI_SYSTEM_TABLE \<Rightarrow> u64 \<Rightarrow> loader \<Rightarrow> boot_outcome \<times> loader" where
  "load_and_start efi handle table serial s =
     (case load_kernel efi handle s of
        (Inl st, s) \<Rightarrow> fail_with efi table ''load kernel.elf'' st s
      | (Inr kern, s) \<Rightarrow>
          let entry = entry_text (kentry kern);
              (r, s) = call efi (Write serial (of_nat (length entry)) entry) s
          in if EFI_ERROR (status r) \<or> result r \<noteq> of_nat (length entry) then
               let s = snd (call efi (FreePages (kbase kern) (kpages kern)) s) in
               fail_with efi table ''Serial IO Write''
                 (if EFI_ERROR (status r) then status r else EFI_DEVICE_ERROR) s
             else start_kernel efi handle table kern s)"

definition efi_main :: "firmware \<Rightarrow> u64 \<Rightarrow> EFI_SYSTEM_TABLE \<Rightarrow> loader \<Rightarrow> boot_outcome \<times> loader" where
  "efi_main efi handle table s =
     (let (r, s) = call efi (SetWatchdogTimer 0 0 0) s in
      if EFI_ERROR (status r) then fail_with efi table ''SetWatchdogTimer'' (status r) s
      else
        let (r, s) = call efi (LocateProtocol serial_guid) s in
        if EFI_ERROR (status r) then fail_with efi table ''LocateProtocol(Serial IO)'' (status r) s
        else if result r = 0 then fail_with efi table ''LocateProtocol(Serial IO)'' EFI_DEVICE_ERROR s
        else
          let serial = result r;
              (r, s) = call efi (SetAttributes serial 115200 0 10000 1 8 1) s
          in if EFI_ERROR (status r) then fail_with efi table ''Serial IO SetAttributes'' (status r) s
             else
               let (r, s) = call efi (Write serial (of_nat (length banner)) banner) s;
                   st = (if \<not> EFI_ERROR (status r) \<and> result r \<noteq> of_nat (length banner)
                         then EFI_DEVICE_ERROR else status r)
               in if EFI_ERROR st then fail_with efi table ''Serial IO Write'' st s
                  else load_and_start efi handle table serial s)"

end
