(* ===== verification/Tables.thy ===== *)
theory Tables
  imports Serial BootMain
begin

text \<open>
  Descriptor tables and the fatal exception handler, \<open>kernel/tables.c\<close>. The tables are kept
  as records; the addresses that the linker gives to them, and the entry points of the 256
  interrupt stubs (\<open>isr_table\<close>, assembly), are parameters.
\<close>

record TABLE_POINTER =
  limit :: u16
  table_base :: u64

record IDT_GATE =
  offset_low :: u16
  selector :: u16
  gate_ist :: u8
  gate_attributes :: u8
  offset_mid :: u16
  offset_high :: u32
  gate_reserved :: u32

text \<open>The fields of the task state segment that the kernel writes.\<close>

record TSS =
  tss_rsp :: "u64 list"
  tss_ist :: "u64 list"
  iomap_base :: u16

record table_symbols =
  gdt_address :: u64
  idt_address :: u64
  tss_address :: u64
  double_fault_stack :: u64
  isr_table :: "u64 list"

record tables =
  kernel_gdt :: "u64 list"
  kernel_idt :: "IDT_GATE list"
  kernel_tss :: TSS
  loaded_gdtr :: "TABLE_POINTER option"
  loaded_idtr :: "TABLE_POINTER option"

abbreviation (input) sizeof_TSS :: u64 where
  "sizeof_TSS \<equiv> 104"

definition make_gate :: "u64 \<Rightarrow> u64 \<Rightarrow> IDT_GATE" where
  "make_gate i target = \<lparr>offset_low = ucast target, selector = 0x08,
     gate_ist = (if i = 8 then 1 else 0), gate_attributes = 0x8e,
     offset_mid = ucast (drop_bit 16 target), offset_high = ucast (drop_bit 32 target),
     gate_reserved = 0\<rparr>"

text \<open>
  The assembly routine: \<open>cli\<close>, \<open>lgdt\<close>, reload the segment registers, \<open>ltr\<close> with selector
  \<open>0x18\<close>, which marks the descriptor busy (bit 41 of entry 3), and \<open>lidt\<close>.
\<close>

definition tables_load :: "TABLE_POINTER \<Rightarrow> TABLE_POINTER \<Rightarrow> tables \<times> machine \<Rightarrow> tables \<times> machine" where
  "tables_load gdtr idtr = (\<lambda>(t, m).
     (t\<lparr>loaded_gdtr := Some gdtr,
        kernel_gdt := (kernel_gdt t)[3 := kernel_gdt t ! 3 OR push_bit 41 1],
        loaded_idtr := Some idtr\<rparr>, x86_disable_interrupts m))"

definition tables_init :: "table_symbols \<Rightarrow> u64 \<Rightarrow> tables \<times> machine \<Rightarrow> tables \<times> machine" where
  "tables_init y stack_top tm =
     (let t = fst tm;
          gdt = (kernel_gdt t)[0 := 0, 1 := 0x00af9a000000ffff, 2 := 0x00cf92000000ffff];
          tss = kernel_tss t;
          tss = tss\<lparr>tss_rsp := (tss_rsp tss)[0 := stack_top]\<rparr>;
          tss = tss\<lparr>tss_ist := (tss_ist tss)[0 := double_fault_stack y + 16384]\<rparr>;
          tss = tss\<lparr>iomap_base := ucast sizeof_TSS\<rparr>;
          base = tss_address y;
          gdt = gdt[3 := (sizeof_TSS - 1) OR push_bit 16 (base AND 0xffffff) OR push_bit 40 0x89
                     OR push_bit 56 (drop_bit 24 base AND 0xff)];
          gdt = gdt[4 := drop_bit 32 base];
          idt = for_up 0 256 (\<lambda>i idt. idt[unat i := make_gate i (isr_table y ! unat i)]) (kernel_idt t);
          t = t\<lparr>kernel_gdt := gdt, kernel_tss := tss, kernel_idt := idt\<rparr>
      in tables_load \<lparr>limit = 5 * 8 - 1, table_base = gdt_address y\<rparr>
           \<lparr>limit = 256 * 16 - 1, table_base = idt_address y\<rparr> (t, snd tm))"


section \<open>Fatal exceptions\<close>

record EXCEPTION_FRAME =
  frame_vector :: u64
  frame_error :: u64
  frame_rip :: u64
  frame_cs :: u64
  frame_rflags :: u64
  frame_rsp :: u64
  frame_ss :: u64

text \<open>\<open>text[2 + i] = digits[(value >> (60 - i * 4)) & 15]\<close>; results of \<open>serial_write\<close> are ignored.\<close>

definition hex_text :: "u64 \<Rightarrow> u8 list" where
  "hex_text v = for_up 0 16
     (\<lambda>i t. t[unat (2 + i) := hex_digits ! unat (drop_bit (unat (60 - i * 4)) v AND 15)])
     (map of_char ''0x0000000000000000'' @ [0x0a])"

definition print_hex :: "string \<Rightarrow> u64 \<Rightarrow> drivers \<Rightarrow> drivers" where
  "print_hex label v d =
     (let d = snd (serial_write (map of_char label) d) in snd (serial_write (hex_text v) d))"

text \<open>The state in which \<open>exception_halt\<close> is entered.\<close>

definition exception_panic :: "EXCEPTION_FRAME \<Rightarrow> u64 \<Rightarrow> drivers \<Rightarrow> drivers" where
  "exception_panic frame cr2_value d =
     (let d = snd (serial_write ([0x0a] @ map of_char ''EXCEPTION: fatal'' @ [0x0a]) d);
          d = print_hex ''vector='' (frame_vector frame) d;
          d = print_hex ''error='' (frame_error frame) d;
          d = print_hex ''rip='' (frame_rip frame) d;
          d = print_hex ''cs='' (frame_cs frame) d;
          d = print_hex ''rflags='' (frame_rflags frame) d;
          d = print_hex ''rsp='' (frame_rsp frame) d;
          d = (if frame_vector frame = 14 then print_hex ''cr2='' cr2_value d else d)
      in snd (serial_flush d))"

end
