(* ===== verification/TablesProps.thy ===== *)
theory TablesProps
  imports Tables IrqProps
begin

text \<open>
  The descriptor tables as the processor reads them: the fields of gates and descriptors are
  decoded the way the architecture defines, and the hexadecimal output is read back.
\<close>

section \<open>Descriptors\<close>

definition gate_target :: "IDT_GATE \<Rightarrow> u64" where
  "gate_target g = ucast (offset_low g) OR push_bit 16 (ucast (offset_mid g)) OR push_bit 32 (ucast (offset_high g))"

text \<open>Base, limit and access byte of a system descriptor in two table entries.\<close>

definition descriptor_base :: "u64 \<Rightarrow> u64 \<Rightarrow> u64" where
  "descriptor_base lo hi = (drop_bit 16 lo AND 0xffffff) OR push_bit 24 (drop_bit 56 lo) OR push_bit 32 hi"

definition descriptor_limit :: "u64 \<Rightarrow> u64" where
  "descriptor_limit lo = (lo AND 0xffff) OR push_bit 16 (drop_bit 48 lo AND 0xf)"

definition descriptor_access :: "u64 \<Rightarrow> u64" where
  "descriptor_access lo = drop_bit 40 lo AND 0xff"

lemma gate_target_make [simp]: "gate_target (make_gate i t) = t"
proof (rule bit_word_eqI)
  fix n assume n: "n < LENGTH(64)"
  consider "n < 16" | "16 \<le> n" "n < 32" | "32 \<le> n" by linarith
  then show "bit (gate_target (make_gate i t)) n = bit t n"
    using n by cases (auto simp: gate_target_def make_gate_def bit_simps)
qed

text \<open>The two entries of the task state segment, with the busy bit that \<open>ltr\<close> sets.\<close>

definition tss_descriptor :: "u64 \<Rightarrow> u64" where
  "tss_descriptor b = (sizeof_TSS - 1) OR push_bit 16 (b AND 0xffffff) OR push_bit 40 0x89
     OR push_bit 56 (drop_bit 24 b AND 0xff) OR push_bit 41 1"

lemma masks: "(0xffffff :: u64) = mask 24" "(0xff :: u64) = mask 8" "(0xffff :: u64) = mask 16" "(0xf :: u64) = mask 4"
  by (simp_all add: mask_eq_exp_minus_1)

lemma bit_limit: "bit (103 :: u64) n \<longleftrightarrow> n \<in> {0, 1, 2, 5, 6}"
proof -
  have "\<forall>n \<in> set [0..<64]. bit (103 :: u64) n \<longleftrightarrow> n \<in> {0, 1, 2, 5, 6}" by code_simp
  then show ?thesis using bit_imp_le_length [of "103 :: u64" n] by auto
qed

lemma bit_access: "bit (0x89 :: u64) n \<longleftrightarrow> n \<in> {0, 3, 7}"
proof -
  have "\<forall>n \<in> set [0..<64]. bit (0x89 :: u64) n \<longleftrightarrow> n \<in> {0, 3, 7}" by code_simp
  then show ?thesis using bit_imp_le_length [of "0x89 :: u64" n] by auto
qed

lemma bit_busy: "bit (0x8b :: u64) n \<longleftrightarrow> n \<in> {0, 1, 3, 7}"
proof -
  have "\<forall>n \<in> set [0..<64]. bit (0x8b :: u64) n \<longleftrightarrow> n \<in> {0, 1, 3, 7}" by code_simp
  then show ?thesis using bit_imp_le_length [of "0x8b :: u64" n] by auto
qed

lemma bit_tss_descriptor:
  "bit (tss_descriptor b) n \<longleftrightarrow> n \<in> {0, 1, 2, 5, 6} \<or> 16 \<le> n \<and> n < 40 \<and> bit b (n - 16)
     \<or> n \<in> {40, 41, 43, 47} \<or> 56 \<le> n \<and> n < 64 \<and> bit b (n - 32)"
proof -
  have "bit (push_bit 16 (b AND mask 24)) n \<longleftrightarrow> 16 \<le> n \<and> n < 40 \<and> bit b (n - 16)"
    by (auto simp: bit_simps)
  moreover have "bit (push_bit 40 (0x89 :: u64)) n \<longleftrightarrow> n \<in> {40, 43, 47}"
    unfolding bit_push_bit_iff bit_access by auto
  moreover have "bit (push_bit 41 (1 :: u64)) n \<longleftrightarrow> n = 41"
    unfolding bit_push_bit_iff bit_1_iff by auto
  moreover have "bit (push_bit 56 (drop_bit 24 b AND mask 8)) n \<longleftrightarrow> 56 \<le> n \<and> n < 64 \<and> bit b (n - 32)"
    by (auto simp: bit_simps)
  moreover have "bit (sizeof_TSS - 1) n \<longleftrightarrow> n \<in> {0, 1, 2, 5, 6}" using bit_limit by simp
  ultimately show ?thesis unfolding tss_descriptor_def masks bit_or_iff by blast
qed

lemmas bit_fields = bit_or_iff bit_and_iff bit_drop_bit_eq bit_push_bit_iff bit_mask_iff bit_tss_descriptor

lemma tss_descriptor_base: "descriptor_base (tss_descriptor b) (drop_bit 32 b) = b"
proof (rule bit_word_eqI)
  fix n assume n: "n < LENGTH(64)"
  consider "n < 24" | "24 \<le> n" "n < 32" | "32 \<le> n" by linarith
  then show "bit (descriptor_base (tss_descriptor b) (drop_bit 32 b)) n = bit b n"
    using n unfolding descriptor_base_def masks by cases (auto simp: bit_fields)
qed

lemma tss_descriptor_limit: "descriptor_limit (tss_descriptor b) = 103"
proof (rule bit_word_eqI)
  fix n assume n: "n < LENGTH(64)"
  show "bit (descriptor_limit (tss_descriptor b)) n = bit (103 :: u64) n"
    unfolding descriptor_limit_def masks bit_fields bit_limit o_def by (cases "n < 16") auto
qed

lemma tss_descriptor_access: "descriptor_access (tss_descriptor b) = 0x8b"
proof (rule bit_word_eqI)
  fix n assume n: "n < LENGTH(64)"
  show "bit (descriptor_access (tss_descriptor b)) n = bit (0x8b :: u64) n"
    unfolding descriptor_access_def masks bit_fields bit_busy o_def by (cases "n < 8") auto
qed

section \<open>Filling arrays\<close>

text \<open>A loop that writes the elements \<open>start\<close>, \<open>start + 1\<close>, ... of an array.\<close>

lemma for_up_fill:
  assumes "start + unat n \<le> length xs"
  shows "for_up 0 n (\<lambda>i t. t[start + unat i := f i]) xs =
    take start xs @ map (\<lambda>k. f (of_nat k)) [0..<unat n] @ drop (start + unat n) xs"
proof -
  define P where "P = (\<lambda>k t. t = take start xs @ map (\<lambda>k. f (of_nat k)) [0..<k] @ drop (start + k) xs)"
  have "P (unat n) (for_up 0 n (\<lambda>i t. t[start + unat i := f i]) xs)"
  proof (rule for_up_inv [where P = P])
    fix k t assume "k < unat n" and t: "P k t"
    then have k: "start + k < length xs" and "unat (of_nat k :: u64) = k"
      using assms unat_lt64 [of n] by (simp_all add: unat_of_nat)
    moreover have "drop (start + k) xs = xs ! (start + k) # drop (start + Suc k) xs"
      using k by (simp add: Cons_nth_drop_Suc)
    ultimately show "P (Suc k) (t[start + unat (of_nat k :: u64) := f (of_nat k)])"
      using t by (simp add: P_def list_update_append)
  qed (simp_all add: P_def)
  then show ?thesis by (simp add: P_def)
qed


section \<open>The tables that the processor is given\<close>

definition tables_wf :: "table_symbols \<Rightarrow> tables \<Rightarrow> bool" where
  "tables_wf y t \<longleftrightarrow> length (kernel_gdt t) = 5 \<and> length (kernel_idt t) = 256
     \<and> length (tss_rsp (kernel_tss t)) = 3 \<and> length (tss_ist (kernel_tss t)) = 7 \<and> length (isr_table y) = 256"

lemma tables_init_idt:
  assumes "tables_wf y t"
  shows "kernel_idt (fst (tables_init y sp (t, m))) =
    map (\<lambda>k. make_gate (of_nat k) (isr_table y ! k)) [0..<256]"
proof -
  have "map (\<lambda>k. make_gate (of_nat k) (isr_table y ! unat (of_nat k :: u64))) [0..<256]
      = map (\<lambda>k. make_gate (of_nat k) (isr_table y ! k)) [0..<256]"
    by (rule map_cong) (simp_all add: unat_of_nat)
  then show ?thesis
    using assms for_up_fill [of 0 256 "kernel_idt t" "\<lambda>i. make_gate i (isr_table y ! unat i)"]
    by (simp add: tables_init_def tables_load_def tables_wf_def Let_def)
qed

lemma tables_init_gdt:
  assumes "tables_wf y t"
  shows "kernel_gdt (fst (tables_init y sp (t, m))) =
    [0, 0x00af9a000000ffff, 0x00cf92000000ffff, tss_descriptor (tss_address y), drop_bit 32 (tss_address y)]"
proof -
  have "length (kernel_gdt t) = Suc (Suc (Suc (Suc (Suc 0))))" using assms by (simp add: tables_wf_def)
  then obtain a b c d e where "kernel_gdt t = [a, b, c, d, e]" unfolding length_Suc_conv length_0_conv by blast
  then show ?thesis
    by (simp add: tables_init_def tables_load_def Let_def tss_descriptor_def or.assoc)
qed

text \<open>
  C34: The tables that \<open>tables_init\<close> builds, as the processor decodes them. Every vector has a present
  ring-0 interrupt gate to its own stub on the kernel code segment, and only the double
  fault switches stacks; entries 1 and 2 are the code and data segments; entries 3 and 4 describe
  a task state segment at the address of \<open>kernel_tss\<close> with the limit of its size, whose
  ring-0 and double fault stacks are the given ones; the two table registers cover the
  tables exactly, and interrupts are off.
\<close>

theorem tables_init_installs:
  assumes "tables_wf y t"
  shows "case tables_init y sp (t, m) of (t', m') \<Rightarrow>
      tables_wf y t' \<and> \<not> bit (rflags m') 9 \<and> m' = x86_disable_interrupts m
      \<and> (\<forall>k < 256. let g = kernel_idt t' ! k in gate_target g = isr_table y ! k
           \<and> selector g = 8 \<and> gate_attributes g = 0x8e \<and> (gate_ist g = 1 \<longleftrightarrow> k = 8)
           \<and> (k \<noteq> 8 \<longrightarrow> gate_ist g = 0))
      \<and> kernel_gdt t' ! 0 = 0 \<and> descriptor_access (kernel_gdt t' ! 1) = 0x9a
      \<and> bit (kernel_gdt t' ! 1) 53 \<and> descriptor_access (kernel_gdt t' ! 2) = 0x92
      \<and> descriptor_base (kernel_gdt t' ! 3) (kernel_gdt t' ! 4) = tss_address y
      \<and> descriptor_limit (kernel_gdt t' ! 3) + 1 = sizeof_TSS
      \<and> descriptor_access (kernel_gdt t' ! 3) = 0x8b
      \<and> tss_rsp (kernel_tss t') ! 0 = sp \<and> tss_ist (kernel_tss t') ! 0 = double_fault_stack y + 16384
      \<and> iomap_base (kernel_tss t') = 104
      \<and> loaded_gdtr t' = Some \<lparr>limit = 39, table_base = gdt_address y\<rparr>
      \<and> loaded_idtr t' = Some \<lparr>limit = 4095, table_base = idt_address y\<rparr>"
proof -
  obtain t' m' where t': "tables_init y sp (t, m) = (t', m')" by fastforce
  have idt: "kernel_idt t' = map (\<lambda>k. make_gate (of_nat k) (isr_table y ! k)) [0..<256]"
    and gdt: "kernel_gdt t' = [0, 0x00af9a000000ffff, 0x00cf92000000ffff,
      tss_descriptor (tss_address y), drop_bit 32 (tss_address y)]"
    using tables_init_idt [OF assms, of sp m] tables_init_gdt [OF assms, of sp m] t' by simp_all
  have rest: "m' = x86_disable_interrupts m" "loaded_gdtr t' = Some \<lparr>limit = 39, table_base = gdt_address y\<rparr>"
    "loaded_idtr t' = Some \<lparr>limit = 4095, table_base = idt_address y\<rparr>"
    "kernel_tss t' = \<lparr>tss_rsp = (tss_rsp (kernel_tss t))[0 := sp],
       tss_ist = (tss_ist (kernel_tss t))[0 := double_fault_stack y + 16384], iomap_base = 104\<rparr>"
    using t' by (auto simp: tables_init_def tables_load_def Let_def)
  have "(of_nat k :: u64) = 8 \<longleftrightarrow> k = 8" if "k < 256" for k
    using that by (simp add: word_unat_eq_iff unat_of_nat)
  then have gates: "let g = kernel_idt t' ! k in gate_target g = isr_table y ! k \<and> selector g = 8
      \<and> gate_attributes g = 0x8e \<and> (gate_ist g = 1 \<longleftrightarrow> k = 8) \<and> (k \<noteq> 8 \<longrightarrow> gate_ist g = 0)" if "k < 256" for k
    using that by (simp add: idt Let_def) (simp add: make_gate_def)
  have "descriptor_access 0x00af9a000000ffff = 0x9a" "bit (0x00af9a000000ffff :: u64) 53"
    "descriptor_access 0x00cf92000000ffff = 0x92" by (code_simp, code_simp, code_simp)
  then show ?thesis
    using assms gates idt gdt rest
    by (simp add: t' tables_wf_def tss_descriptor_base tss_descriptor_limit tss_descriptor_access
        x86_disable_interrupts_def bit_simps)
qed


text \<open>Tables as the loader leaves them: the memory of the kernel image is zero.\<close>

definition blank_gate :: IDT_GATE where
  "blank_gate = \<lparr>offset_low = 0, selector = 0, gate_ist = 0, gate_attributes = 0, offset_mid = 0,
     offset_high = 0, gate_reserved = 0\<rparr>"

definition blank_tables :: tables where
  "blank_tables = \<lparr>kernel_gdt = replicate 5 0, kernel_idt = replicate 256 blank_gate,
     kernel_tss = \<lparr>tss_rsp = replicate 3 0, tss_ist = replicate 7 0, iomap_base = 0\<rparr>,
     loaded_gdtr = None, loaded_idtr = None\<rparr>"

definition demo_symbols :: table_symbols where
  "demo_symbols = \<lparr>gdt_address = 0x110000, idt_address = 0x111000, tss_address = 0x112040,
     double_fault_stack = 0x120000, isr_table = map (\<lambda>k. 0x100000 + 16 * of_nat k) [0..<256]\<rparr>"

lemma demo_wf: "tables_wf demo_symbols blank_tables"
  by (simp add: tables_wf_def demo_symbols_def blank_tables_def)

theorem tables_init_installs_witness:
  "tables_wf demo_symbols blank_tables
   \<and> gate_target (kernel_idt (fst (tables_init demo_symbols 0x200000 (blank_tables, pc_machine))) ! 14) = 0x1000e0"
proof -
  have "isr_table demo_symbols ! 14 = 0x1000e0" by (simp add: demo_symbols_def)
  then show ?thesis
    using demo_wf tables_init_installs [OF demo_wf, where sp = "0x200000" and m = pc_machine]
    by (cases "tables_init demo_symbols 0x200000 (blank_tables, pc_machine)") (simp add: Let_def)
qed


section \<open>Hexadecimal output\<close>

definition hex_value :: "u8 \<Rightarrow> u64" where
  "hex_value c = (if c < 0x61 then ucast c - 0x30 else ucast c - 0x57)"

definition read_hex :: "u8 list \<Rightarrow> u64" where
  "read_hex cs = foldl (\<lambda>v c. push_bit 4 v OR hex_value c) 0 cs"

definition hex_column :: "u64 \<Rightarrow> nat \<Rightarrow> u8" where
  "hex_column v k = hex_digits ! unat (drop_bit (60 - 4 * k) v AND 15)"

lemma hex_value_digit: "hex_value (hex_digits ! unat (w AND 15)) = w AND 15"
proof -
  have "\<forall>k \<in> set [0..<16]. hex_value (hex_digits ! k) = of_nat k" by code_simp
  moreover have "unat (w AND 15) < 16" using word_and_le1 [of w 15] by (simp add: word_le_nat_alt)
  ultimately show ?thesis by simp
qed

lemma hex_value_column: "hex_value (hex_column v k) = drop_bit (60 - 4 * k) v AND 15"
  unfolding hex_column_def by (rule hex_value_digit)

lemma hex_text_columns: "hex_text v = map of_char ''0x'' @ map (hex_column v) [0..<16] @ [0x0a]"
proof -
  have body: "hex_text v = for_up 0 16 (\<lambda>i t. t[2 + unat i := hex_column v (unat i)])
      (map of_char ''0x0000000000000000'' @ [0x0a])"
    unfolding hex_text_def for_up_fold
    by (rule fold_cong) (auto simp: hex_column_def unat_of_nat unat_word_ariths unat_sub_if' mult.commute)
  have "map (\<lambda>k. hex_column v (unat (of_nat k :: u64))) [0..<16] = map (hex_column v) [0..<16]"
    by (rule map_cong) (simp_all add: unat_of_nat)
  then show ?thesis
    unfolding body using for_up_fill [of 2 16 "map of_char ''0x0000000000000000'' @ [0x0a]"
      "\<lambda>i. hex_column v (unat i)"] by simp
qed

lemma read_hex_columns: "k \<le> 16 \<Longrightarrow> read_hex (map (hex_column v) [0..<k]) = drop_bit (64 - 4 * k) v"
proof (induction k)
  case 0
  then show ?case by (simp add: read_hex_def)
next
  case (Suc k)
  let ?w = "drop_bit (60 - 4 * k) v"
  have "read_hex (map (hex_column v) [0..<Suc k]) = push_bit 4 (drop_bit (64 - 4 * k) v) OR (?w AND 15)"
    using Suc by (simp add: read_hex_def hex_value_column)
  also have "drop_bit (64 - 4 * k) v = drop_bit 4 ?w" using Suc.prems by (simp add: drop_bit_drop_bit)
  also have "push_bit 4 (drop_bit 4 ?w) OR (?w AND 15) = ?w"
    unfolding masks by (rule bit_word_eqI) (auto simp: bit_or_iff bit_and_iff bit_push_bit_iff bit_drop_bit_eq bit_mask_iff)
  finally show ?case by simp
qed

text \<open>
  The register dump prints every 64-bit value as \<open>0x\<close> and sixteen hexadecimal digits on a line
  of its own, and reading the digits gives the value back.
\<close>

lemma hex_text_reads_back:
  "length (hex_text v) = 19 \<and> take 2 (hex_text v) = [0x30, 0x78] \<and> hex_text v ! 18 = 0x0a
   \<and> read_hex (take 16 (drop 2 (hex_text v))) = v"
  using read_hex_columns [of 16 v] by (simp add: hex_text_columns nth_append)


section \<open>The fatal exception report\<close>

text \<open>What a run of \<open>serial_write\<close> calls with a working transmitter does.\<close>

definition reports :: "drivers \<Rightarrow> u8 list \<Rightarrow> drivers \<Rightarrow> bool" where
  "reports d cs d' \<longleftrightarrow> (\<exists>evs. did d evs d' \<and> sent evs = cs) \<and> same_setup d d'"

lemma reports_trans: "reports d xs d1 \<Longrightarrow> reports d1 ys d2 \<Longrightarrow> reports d (xs @ ys) d2"
  unfolding reports_def by (elim conjE exE, intro conjI exI) (auto intro: did_trans simp: same_setup_def)

lemma reports_alive: "reports d xs d' \<Longrightarrow> quiet d \<and> transmitter_alive (cpu d) \<Longrightarrow> quiet d' \<and> transmitter_alive (cpu d')"
  by (auto simp: reports_def did_def transmitter_alive_def quiet_def same_setup_def)

lemma serial_write_reports:
  assumes "quiet d \<and> transmitter_alive (cpu d)"
  shows "reports d (crlf cs) (snd (serial_write cs d))"
proof -
  obtain d' where w: "serial_write cs d = (True, d')"
    using serial_write_ready [of d cs] assms by (cases "serial_write cs d") simp
  then obtain evs where "polled (True \<and> receive_enabled d) d evs d'" "sent evs = crlf cs"
    using serial_write_polled [OF w] by blast
  then show ?thesis using w by (auto simp: reports_def polled_def)
qed

lemma print_hex_reports:
  assumes "quiet d \<and> transmitter_alive (cpu d)"
  shows "reports d (crlf (map of_char l @ hex_text v)) (print_hex l v d)"
proof -
  note r = serial_write_reports [OF assms, of "map of_char l"]
  show ?thesis
    using reports_trans [OF r serial_write_reports [OF reports_alive [OF r assms]]]
    by (simp add: print_hex_def Let_def crlf_def)
qed

lemma serial_flush_reports: "reports d [] (snd (serial_flush d))"
proof -
  obtain evs where "polled (fst (wait_status 0x40 d) \<and> receive_enabled d) d evs (snd (wait_status 0x40 d))" "sent evs = []"
    by (rule wait_status_polled [OF prod.collapse [symmetric]])
  then show ?thesis by (auto simp: reports_def polled_def serial_flush_def)
qed

text \<open>One line per register of the frame, and the fault address of a page fault.\<close>

definition panic_lines :: "EXCEPTION_FRAME \<Rightarrow> u64 \<Rightarrow> (string \<times> u64) list" where
  "panic_lines f a = [(''vector='', frame_vector f), (''error='', frame_error f), (''rip='', frame_rip f),
     (''cs='', frame_cs f), (''rflags='', frame_rflags f), (''rsp='', frame_rsp f)]
     @ (if frame_vector f = 14 then [(''cr2='', a)] else [])"

definition panic_text :: "EXCEPTION_FRAME \<Rightarrow> u64 \<Rightarrow> u8 list" where
  "panic_text f a = [0x0a] @ map of_char ''EXCEPTION: fatal'' @ [0x0a]
     @ concat (map (\<lambda>(l, v). map of_char l @ hex_text v) (panic_lines f a))"

lemma print_lines_report:
  assumes "quiet d \<and> transmitter_alive (cpu d)"
  shows "reports d (crlf (concat (map (\<lambda>(l, v). map of_char l @ hex_text v) ls))) (fold (\<lambda>(l, v). print_hex l v) ls d)"
  using assms
proof (induction ls arbitrary: d)
  case Nil
  then show ?case by (auto simp: crlf_def reports_def same_setup_def intro!: exI [of _ "[]"])
next
  case (Cons a ls)
  obtain l v where a: "a = (l, v)" by fastforce
  note r = print_hex_reports [OF Cons.prems, of l v]
  show ?case using reports_trans [OF r Cons.IH [OF reports_alive [OF r Cons.prems]]] by (simp add: a crlf_def)
qed

lemma exception_panic_fold:
  "exception_panic f a d = snd (serial_flush (fold (\<lambda>(l, v). print_hex l v) (panic_lines f a)
     (snd (serial_write ([0x0a] @ map of_char ''EXCEPTION: fatal'' @ [0x0a]) d))))"
  by (simp add: exception_panic_def panic_lines_def Let_def)

text \<open>
  C35: A fatal exception is reported completely before the processor halts. With interrupts off, as
  behind an interrupt gate, and a transmitter that keeps working, the bytes sent are the banner and
  one line for each of the six frame values, and for a page fault one more for the address
  in CR2; nothing else is sent.
\<close>

theorem exception_panic_reports:
  assumes "quiet d" and "transmitter_alive (cpu d)"
  shows "\<exists>evs. did d evs (exception_panic frame addr d) \<and> sent evs = crlf (panic_text frame addr)"
proof -
  have alive: "quiet d \<and> transmitter_alive (cpu d)" using assms by simp
  note w = serial_write_reports [OF alive, of "[0x0a] @ map of_char ''EXCEPTION: fatal'' @ [0x0a]"]
  note l = print_lines_report [OF reports_alive [OF w alive], of "panic_lines frame addr"]
  have "reports d (crlf (panic_text frame addr)) (exception_panic frame addr d)"
    unfolding exception_panic_fold
    using reports_trans [OF reports_trans [OF w l] serial_flush_reports] by (simp add: panic_text_def crlf_def)
  then show ?thesis by (simp add: reports_def)
qed

definition demo_frame :: EXCEPTION_FRAME where
  "demo_frame = \<lparr>frame_vector = 14, frame_error = 2, frame_rip = 0x100abc, frame_cs = 8, frame_rflags = 2,
     frame_rsp = 0x1ff000, frame_ss = 0x10\<rparr>"

theorem exception_panic_reports_witness:
  "quiet pc_drivers \<and> transmitter_alive (cpu pc_drivers)
   \<and> (\<exists>evs. did pc_drivers evs (exception_panic demo_frame 0xdead pc_drivers)
        \<and> sent evs = crlf (panic_text demo_frame 0xdead))"
  using exception_panic_reports [OF pc_alive] pc_alive by blast

end
