(* ===== verification/KernelMain.thy ===== *)
theory KernelMain
  imports PagingCheck PmmCheck Console Tables
begin

text \<open>
  \<open>kernel/main.c\<close>: the checks of the handed-over boot information and the order in which the
  components are brought up. The kernel's state consists of the drivers (with the processor), the page
  tables (with the page allocator) and the descriptor tables. The processor is part of the
  drivers; the paging code gets it for the time of its calls.
\<close>

record kernel =
  drv :: drivers
  vm :: paging
  tabs :: tables
  kernel_boot_info :: u64
  kernel_initial_rsp :: u64
  kernel_observed_rsp :: u64

abbreviation kernel_ram :: "kernel \<Rightarrow> memory" where
  "kernel_ram k \<equiv> ram (cpu (drv k))"

text \<open>
  How a step of the boot ends: in the next state, spinning forever, or (\<open>Diverged\<close>) in a page
  fault or an endless loop of the paging code.
\<close>

datatype boot = Running kernel | Spinning kernel | Diverged

primrec continue :: "boot \<Rightarrow> (kernel \<Rightarrow> boot) \<Rightarrow> boot" where
  "continue (Running k) f = f k"
| "continue (Spinning k) f = Spinning k"
| "continue Diverged f = Diverged"

definition on_drivers :: "(drivers \<Rightarrow> bool \<times> drivers) \<Rightarrow> kernel \<Rightarrow> bool \<times> kernel" where
  "on_drivers f k = (case f (drv k) of (r, d) \<Rightarrow> (r, k\<lparr>drv := d\<rparr>))"

definition on_paging :: "(paging \<Rightarrow> (bool \<times> paging) option) \<Rightarrow> kernel \<Rightarrow> (bool \<times> kernel) option" where
  "on_paging f k = map_option (\<lambda>(r, s). (r, k\<lparr>vm := s, drv := (drv k)\<lparr>cpu := mach s\<rparr>\<rparr>))
     (f ((vm k)\<lparr>mach := cpu (drv k)\<rparr>))"

definition on_pmm :: "(memory \<Rightarrow> pmm \<Rightarrow> bool \<times> memory \<times> pmm) \<Rightarrow> kernel \<Rightarrow> bool \<times> kernel" where
  "on_pmm f k = (case f (kernel_ram k) (pm (vm k)) of (r, m, p) \<Rightarrow>
     (r, k\<lparr>vm := (vm k)\<lparr>pm := p\<rparr>, drv := (drv k)\<lparr>cpu := (cpu (drv k))\<lparr>ram := m\<rparr>\<rparr>\<rparr>))"

text \<open>\<open>if (!r || !f()) failure; ...\<close>\<close>

definition both_hold :: "bool \<times> kernel \<Rightarrow> (kernel \<Rightarrow> bool \<times> kernel) \<Rightarrow> bool \<times> kernel" where
  "both_hold r f = (case r of (False, k) \<Rightarrow> (False, k) | (True, k) \<Rightarrow> f k)"


section \<open>Checks\<close>

definition valid_boot_header :: "memory \<Rightarrow> u64 \<Rightarrow> bool" where
  "valid_boot_header m p =
     (let info = load_BOOT_INFO m p in
      if p = 0 \<or> magic info \<noteq> BOOT_INFO_MAGIC then False
      else if version info \<noteq> BOOT_INFO_VERSION \<or> info_size info \<noteq> 88 then False
      else info_flags info = BOOT_SERVICES_EXITED \<and> reserved info = 0)"

definition valid_memory_map :: "BOOT_INFO \<Rightarrow> bool" where
  "valid_memory_map info =
     (if memory_map info = 0 \<or> memory_map_size info = 0 then False
      else if descriptor_size info < sizeof_BOOT_MEMORY_DESCRIPTOR then False
      else if memory_map_size info mod descriptor_size info \<noteq> 0 then False
      else descriptor_version info = 1)"

definition valid_stack :: "BOOT_INFO \<Rightarrow> u64 \<Rightarrow> u64 \<Rightarrow> bool" where
  "valid_stack info initial_rsp sp =
     (if stack_size info < 4096 then False
      else if stack_base info > - 1 - stack_size info then False
      else
        let stack_top = stack_base info + stack_size info in
        if sp < stack_base info \<or> sp \<ge> stack_top then False
        else initial_rsp = stack_top \<and> initial_rsp AND 15 = 0)"


section \<open>Boot sequence\<close>

definition boot_log :: "u8 list \<Rightarrow> kernel \<Rightarrow> boot" where
  "boot_log message k =
     (case both_hold (on_drivers (serial_write message) k) (on_drivers serial_flush) of
        (False, k) \<Rightarrow> Spinning k
      | (True, k) \<Rightarrow> Running k)"

definition boot_failure :: "u8 list \<Rightarrow> kernel \<Rightarrow> boot" where
  "boot_failure message k =
     (let k = snd (on_drivers (serial_write message) k);
          k = snd (on_drivers serial_flush k)
      in Spinning k)"

definition line_text :: "string \<Rightarrow> u8 list" where
  "line_text s = str s @ [0x0a]"

text \<open>After \<open>paging_init\<close> the RAM check runs on the identity map, so its accesses are still physical.\<close>

definition initialize_memory :: "layout \<Rightarrow> u64 \<Rightarrow> kernel \<Rightarrow> boot" where
  "initialize_memory L info k =
     (case both_hold (on_pmm (\<lambda>m p. case pmm_init m info p of (r, p) \<Rightarrow> (r, m, p)) k) (on_pmm pmm_boot_check) of
        (False, k) \<Rightarrow> boot_failure (line_text ''KERNEL ERROR: physical page management'') k
      | (True, k) \<Rightarrow>
      continue (boot_log (line_text ''KERNEL: physical pages ready (4 KiB, self-test passed)'') k) (\<lambda>k.
      case on_paging (paging_init L info) k of
        None \<Rightarrow> Diverged
      | Some r \<Rightarrow>
      (case both_hold r (on_pmm pmm_boot_check) of
        (False, k) \<Rightarrow> boot_failure (line_text ''KERNEL ERROR: paging initialization or RAM check'') k
      | (True, k) \<Rightarrow>
      continue (boot_log (line_text ''KERNEL: paging ready (own CR3, RAM check passed)'') k) (\<lambda>k.
      case on_paging (paging_boot_check L (kernel_boot_info k)) k of
        None \<Rightarrow> Diverged
      | Some (False, k) \<Rightarrow> boot_failure (line_text ''KERNEL ERROR: dynamic paging check'') k
      | Some (True, k) \<Rightarrow> boot_log (line_text ''KERNEL: dynamic paging checks passed'') k))))"

text \<open>
  The assembly routine sets the general registers, executes \<open>sti; hlt; cli\<close> and compares them.
  The registers are not modelled: \<open>survived\<close> is the outcome of the comparison.
\<close>

definition timer_check_registers :: "(drivers \<Rightarrow> bool) \<Rightarrow> drivers \<Rightarrow> bool \<times> drivers" where
  "timer_check_registers survived d =
     (let d = x86_enable_and_idle d in (survived d, d\<lparr>cpu := x86_disable_interrupts (cpu d)\<rparr>))"

definition initialize_timer :: "(drivers \<Rightarrow> bool) \<Rightarrow> kernel \<Rightarrow> boot" where
  "initialize_timer survived k =
     (case on_drivers timer_init k of
        (False, k) \<Rightarrow> Spinning k
      | (True, k) \<Rightarrow>
      (case on_drivers (timer_check_registers survived) k of
        (ok, k) \<Rightarrow>
          if \<not> ok \<or> timer_ticks (drv k) = 0 then Spinning k
          else boot_log (line_text ''KERNEL: timer ready (PIT, ~100 Hz)'') k))"

definition init_tables :: "table_symbols \<Rightarrow> u64 \<Rightarrow> kernel \<Rightarrow> kernel" where
  "init_tables y stack_top k =
     (case tables_init y stack_top (tabs k, cpu (drv k)) of
        (t, m) \<Rightarrow> k\<lparr>tabs := t, drv := (drv k)\<lparr>cpu := m\<rparr>\<rparr>)"

text \<open>\<open>Running\<close> is the state in which \<open>console_run\<close> is called.\<close>

definition kernel_main :: "table_symbols \<Rightarrow> layout \<Rightarrow> (drivers \<Rightarrow> bool) \<Rightarrow> u64 \<Rightarrow> kernel \<Rightarrow> boot" where
  "kernel_main y L survived p k =
     (let sp = x86_read_rsp (cpu (drv k));
          k = k\<lparr>kernel_observed_rsp := sp\<rparr>;
          info = load_BOOT_INFO (kernel_ram k) p in
      if \<not> valid_boot_header (kernel_ram k) p then Spinning k
      else if \<not> valid_memory_map info \<or> \<not> valid_stack info (kernel_initial_rsp k) sp then Spinning k
      else
        let k = k\<lparr>kernel_boot_info := p\<rparr> in
        case on_drivers serial_init k of
          (False, k) \<Rightarrow> Spinning k
        | (True, k) \<Rightarrow>
        continue (boot_log (line_text ''KERNEL: serial ready (COM1, 115200 8N1)''
            @ line_text ''KERNEL: boot information verified'') k) (\<lambda>k.
        let info = load_BOOT_INFO (kernel_ram k) p;
            k = init_tables y (stack_base info + stack_size info) k in
        continue (boot_log (line_text ''KERNEL: GDT/IDT/TSS ready'') k) (\<lambda>k.
        continue (initialize_memory L p k) (\<lambda>k.
        continue (initialize_timer survived k) (\<lambda>k.
        case on_drivers serial_enable_receive k of
          (False, k) \<Rightarrow> boot_failure (line_text ''KERNEL ERROR: serial receive IRQ'') k
        | (True, k) \<Rightarrow>
        continue (boot_log (line_text ''KERNEL: serial receive ready (IRQ4, 255-byte buffer)'') k) (\<lambda>k.
        Running (k\<lparr>drv := (drv k)\<lparr>cpu := x86_enable_interrupts (cpu (drv k))\<rparr>\<rparr>)))))))"

text \<open>
  \<open>kernel_entry\<close> in \<open>entry.S\<close>: \<open>cli\<close>, \<open>cld\<close>, the aligned stack, and the call. \<open>pushed\<close> is what the call and
  the prologue of \<open>kernel_main\<close> have pushed when it reads the stack pointer.
\<close>

definition kernel_entry :: "table_symbols \<Rightarrow> layout \<Rightarrow> (drivers \<Rightarrow> bool) \<Rightarrow> u64 \<Rightarrow> u64 \<Rightarrow> u64 \<Rightarrow> kernel \<Rightarrow> boot" where
  "kernel_entry y L survived pushed p stack_top k =
     (let m = x86_disable_interrupts (cpu (drv k));
          m = m\<lparr>rflags := rflags m AND NOT 0x400\<rparr>;
          sp = stack_top AND NOT 15;
          k = k\<lparr>drv := (drv k)\<lparr>cpu := m\<lparr>rsp := sp\<rparr>\<rparr>, kernel_initial_rsp := sp\<rparr>
      in kernel_main y L survived p (k\<lparr>drv := (drv k)\<lparr>cpu := (cpu (drv k))\<lparr>rsp := sp - pushed\<rparr>\<rparr>\<rparr>))"

end
