(* ===== verification/KernelProps.thy ===== *)
theory KernelProps
  imports KernelMain ConsoleRun TablesProps PagingFixtures
begin

text \<open>
  The boot sequence. Reaching the console implies that the handed-over information was valid and
  that the console's requirements hold. That it is reached is shown in \<open>KernelBoot\<close>.
\<close>

section \<open>Driver steps\<close>

text \<open>What the log and the set-up of the serial port may do to the drivers.\<close>

definition logged :: "drivers \<Rightarrow> drivers \<Rightarrow> bool" where
  "logged d d' \<longleftrightarrow> (\<exists>evs. polled False d evs d')"

lemma logged_refl [simp]: "logged d d"
  unfolding logged_def using polled_refl by blast

lemma logged_trans: "logged d d1 \<Longrightarrow> logged d1 d2 \<Longrightarrow> logged d d2"
  unfolding logged_def using polled_trans by blast

lemma used_logged: "used d d' \<Longrightarrow> logged d d'"
  unfolding used_def logged_def using traffic_polled by blast

lemma logged_facts:
  assumes "logged d d'"
  shows "\<exists>h. cpu d' = (cpu d)\<lparr>io := h\<rparr>" and "receive_enabled d' = receive_enabled d"
    and "irq_source d' = irq_source d" and "irq_initialized d' = irq_initialized d"
    and "timer_initialized d' = timer_initialized d"
    and "rx_wf (receive_buffer d) \<Longrightarrow> rx_wf (receive_buffer d')"
  using assms by (auto simp: logged_def polled_def did_def same_setup_def)

lemma wait_status_logged: "wait_status m d = (ok, d') \<Longrightarrow> logged d d'"
  by (erule wait_status_polled) (auto simp: logged_def dest: polled_weaken)

lemma serial_flush_logged: "serial_flush d = (ok, d') \<Longrightarrow> logged d d'"
  unfolding serial_flush_def by (rule wait_status_logged)

lemma serial_write_logged: "serial_write cs d = (ok, d') \<Longrightarrow> logged d d'"
  by (erule serial_write_polled) (auto simp: logged_def dest: polled_weaken)

lemma outb_logged: "logged d (outb p v d)"
  unfolding logged_def by (rule exI [of _ "[Out p v]"]) (simp add: polled_def same_setup_def)

lemma out_window_logged: "logged d (out_window p v d)"
  unfolding out_window_def by (rule logged_trans [OF used_logged [OF irq_window_used] outb_logged])

lemma boot_log_running:
  assumes "boot_log message k = Running k'"
  shows "k' = k\<lparr>drv := drv k'\<rparr>" and "logged (drv k) (drv k')"
proof -
  obtain d1 d2 where w: "serial_write message (drv k) = (True, d1)" "serial_flush d1 = (True, d2)" "k' = k\<lparr>drv := d2\<rparr>"
    using assms by (auto simp: boot_log_def both_hold_def on_drivers_def split: prod.splits bool.splits)
  then show "k' = k\<lparr>drv := drv k'\<rparr>" "logged (drv k) (drv k')"
    using logged_trans [OF serial_write_logged [OF w(1)] serial_flush_logged [OF w(2)]] by simp_all
qed


lemma serial_init_logged:
  assumes "serial_init d = (ok, d')"
  shows "logged d d'"
proof -
  obtain r d1 where w: "serial_flush d = (r, d1)" by fastforce
  note f = serial_flush_logged [OF w]
  show ?thesis
  proof (cases r)
    case True
    let ?d2 = "out_window (COM1 + 4) 0x03 (out_window (COM1 + 2) 0x07 (out_window (COM1 + 3) 0x03 (out_window (COM1 + 1) 0x00
      (out_window (COM1 + 0) 0x01 (out_window (COM1 + 3) 0x80 (out_window (COM1 + 1) 0x00 (out_window (COM1 + 3) 0x03 d1)))))))"
    have "logged d1 ?d2" by (intro logged_trans [OF _ out_window_logged] logged_refl)
    moreover have "wait_status 0x20 ?d2 = (ok, d')" using assms w True by (simp add: serial_init_def Let_def)
    then have "logged ?d2 d'" by (rule wait_status_logged)
    ultimately show ?thesis using f logged_trans by blast
  qed (use assms w f in \<open>simp add: serial_init_def\<close>)
qed


section \<open>Reaching the console\<close>

text \<open>Between the header check and the timer only the page code and the log are at work.\<close>

definition carried :: "kernel \<Rightarrow> kernel \<Rightarrow> bool" where
  "carried k k' \<longleftrightarrow> kernel_boot_info k' = kernel_boot_info k
     \<and> (rx_wf (receive_buffer (drv k)) \<longrightarrow> rx_wf (receive_buffer (drv k')))"

lemma carried_trans: "carried k k1 \<Longrightarrow> carried k1 k2 \<Longrightarrow> carried k k2"
  by (simp add: carried_def)

lemma boot_log_carried: "boot_log message k = Running k' \<Longrightarrow> carried k k'"
  using boot_log_running [of message k k'] logged_facts(6) by (cases k; cases k') (auto simp: carried_def)

lemma on_pmm_carried: "carried k (snd (on_pmm f k))"
  by (simp add: on_pmm_def carried_def split: prod.split)

lemma on_paging_carried: "on_paging f k = Some (r, k') \<Longrightarrow> carried k k'"
  by (auto simp: on_paging_def carried_def)

lemma continue_running: "continue b f = Running k' \<Longrightarrow> \<exists>k. b = Running k \<and> f k = Running k'"
  by (cases b) auto

lemma both_hold_True:
  assumes "both_hold r f = (True, k')"
  obtains k where "r = (True, k)" "f k = (True, k')"
  using assms by (cases r) (auto simp: both_hold_def split: bool.splits)

lemma boot_failure_stops: "boot_failure message k \<noteq> Running k'"
  by (simp add: boot_failure_def)

lemma initialize_memory_carried:
  assumes "initialize_memory L p k = Running k'"
  shows "carried k k'"
proof -
  let ?init = "on_pmm (\<lambda>m s. case pmm_init m p s of (r, s) \<Rightarrow> (r, m, s)) k"
  obtain r k1 where 1: "both_hold ?init (on_pmm pmm_boot_check) = (r, k1)" by fastforce
  have r using assms 1 boot_failure_stops by (cases r) (auto simp: initialize_memory_def)
  obtain k2 where 2: "boot_log (line_text ''KERNEL: physical pages ready (4 KiB, self-test passed)'') k1 = Running k2"
    using assms 1 \<open>r\<close> by (auto simp: initialize_memory_def dest!: continue_running)
  obtain r3 k3 where 3: "on_paging (paging_init L p) k2 = Some (r3, k3)"
    using assms 1 2 \<open>r\<close> by (cases "on_paging (paging_init L p) k2") (auto simp: initialize_memory_def)
  obtain r4 k4 where 4: "both_hold (r3, k3) (on_pmm pmm_boot_check) = (r4, k4)" by fastforce
  have r4 using assms 1 2 3 4 \<open>r\<close> boot_failure_stops by (cases r4) (auto simp: initialize_memory_def)
  obtain k5 where 5: "boot_log (line_text ''KERNEL: paging ready (own CR3, RAM check passed)'') k4 = Running k5"
    using assms 1 2 3 4 \<open>r\<close> \<open>r4\<close> by (auto simp: initialize_memory_def dest!: continue_running)
  obtain r6 k6 where 6: "on_paging (paging_boot_check L (kernel_boot_info k5)) k5 = Some (r6, k6)"
    using assms 1 2 3 4 5 \<open>r\<close> \<open>r4\<close>
    by (cases "on_paging (paging_boot_check L (kernel_boot_info k5)) k5") (auto simp: initialize_memory_def)
  have r6 using assms 1 2 3 4 5 6 \<open>r\<close> \<open>r4\<close> boot_failure_stops by (cases r6) (auto simp: initialize_memory_def)
  have 7: "boot_log (line_text ''KERNEL: dynamic paging checks passed'') k6 = Running k'"
    using assms 1 2 3 4 5 6 \<open>r\<close> \<open>r4\<close> \<open>r6\<close> by (simp add: initialize_memory_def)
  obtain k0 where k0: "?init = (True, k0)" "on_pmm pmm_boot_check k0 = (True, k1)" using 1 \<open>r\<close> by (auto elim: both_hold_True)
  have "on_pmm pmm_boot_check k3 = (True, k4)" using 4 \<open>r4\<close> by (auto elim: both_hold_True)
  then have "carried k k0" "carried k0 k1" "carried k3 k4"
    using on_pmm_carried [of k "\<lambda>m s. case pmm_init m p s of (r, s) \<Rightarrow> (r, m, s)"]
      on_pmm_carried [of k0 pmm_boot_check] on_pmm_carried [of k3 pmm_boot_check] k0 by simp_all
  then show ?thesis
    using boot_log_carried [OF 2] on_paging_carried [OF 3] boot_log_carried [OF 5] on_paging_carried [OF 6]
      boot_log_carried [OF 7] by (meson carried_trans)
qed


text \<open>\<open>timer_init\<close> touches the ports, the local APIC base and its own variables only.\<close>

lemma unmask_logged: "logged d (unmask port n d)"
proof -
  obtain v d1 where v: "inb port d = (v, d1)" by fastforce
  then have "logged d d1"
    using did_inb [OF v] inb_frame [OF v] unfolding logged_def polled_def same_setup_def by auto
  moreover have "logged d1 (pic_write port x d1)" for x
    unfolding pic_write_def by (rule logged_trans [OF outb_logged outb_logged])
  ultimately show ?thesis using logged_trans unfolding unmask_def by (simp add: v)
qed

text \<open>The state before \<open>timer_init\<close> unmasks its line.\<close>

definition timer_setup :: "drivers \<Rightarrow> drivers" where
  "timer_setup d = d\<lparr>irq_initialized := True, cpu := (apic_off (cpu d))\<lparr>io :=
       Out 0x40 (ucast (drop_bit 8 (11932 :: u32))) # Out 0x40 (11932 AND 255) # Out 0x43 0x34 # irq_init_trace @ io (cpu d)\<rparr>,
     ticks := 0, timer_initialized := True\<rparr>"

lemma timer_init_eq:
  "timer_init d = (if irq_ready d \<and> \<not> timer_initialized d then (True, unmask 0x21 0 (timer_setup d)) else (False, d))"
proof (cases "irq_ready d \<and> \<not> timer_initialized d")
  case True
  then have IF: "\<not> bit (rflags (cpu d)) 9" "rflags (apic_off (cpu d)) = rflags (cpu d)"
    by (simp_all add: irq_ready_def apic_off_def)
  then show ?thesis using True
    by (simp add: timer_init_def irq_init_works x86_read_rflags_def flag_bits port_defs Let_def irq_enable_eq timer_setup_def)
qed (auto simp: timer_init_def irq_init_fails)

lemma timer_init_frame:
  assumes "timer_init d = (r, d')"
  shows "receive_buffer d' = receive_buffer d" and "receive_enabled d' = receive_enabled d"
    and "irq_source d' = irq_source d" and "r \<Longrightarrow> timer_initialized d' \<and> irq_initialized d' \<and> ticks d' = 0"
    and "\<exists>f h. cpu d' = (cpu d)\<lparr>msr := f, io := h\<rparr>"
proof -
  have u: "receive_buffer (unmask port n e) = receive_buffer e" "ticks (unmask port n e) = ticks e" for port n e
    using inb_frame [of port e] by (simp_all add: unmask_def pic_write_def split: prod.split)
  have a: "\<exists>f. apic_off m = m\<lparr>msr := f\<rparr>" for m :: machine
    unfolding apic_off_def by (rule exI [of _ "msr (apic_off m)"]) (simp add: apic_off_def)
  obtain f where f: "apic_off (cpu d) = (cpu d)\<lparr>msr := f\<rparr>" using a by blast
  show "receive_buffer d' = receive_buffer d" "receive_enabled d' = receive_enabled d" "irq_source d' = irq_source d"
    "r \<Longrightarrow> timer_initialized d' \<and> irq_initialized d' \<and> ticks d' = 0"
    using assms u logged_facts(2-5) [OF unmask_logged] by (auto simp: timer_init_eq timer_setup_def split: if_splits)
  show "\<exists>f h. cpu d' = (cpu d)\<lparr>msr := f, io := h\<rparr>"
  proof (cases r)
    case True
    then have "d' = unmask 0x21 0 (timer_setup d)" using assms by (simp add: timer_init_eq split: if_splits)
    then obtain h where "cpu d' = (cpu (timer_setup d))\<lparr>io := h\<rparr>" using logged_facts(1) [OF unmask_logged] by blast
    then have "cpu d' = (cpu d)\<lparr>msr := f, io := h\<rparr>" using f by (simp add: timer_setup_def)
    then show ?thesis by blast
  next
    case False
    then have "d' = d" using assms by (simp add: timer_init_eq split: if_splits)
    then show ?thesis by (intro exI [of _ "msr (cpu d)"] exI [of _ "io (cpu d)"]) simp
  qed
qed

lemma initialize_timer_running:
  assumes "initialize_timer survived k = Running k'"
  shows "carried k k'" and "timer_initialized (drv k')"
proof -
  obtain r d1 where t: "timer_init (drv k) = (r, d1)" by fastforce
  have r using assms t by (cases r) (simp_all add: initialize_timer_def on_drivers_def)
  note fr = timer_init_frame [OF t]
  define d2 where "d2 = snd (timer_check_registers survived d1)"
  have log: "boot_log (line_text ''KERNEL: timer ready (PIT, ~100 Hz)'') (k\<lparr>drv := d2\<rparr>) = Running k'"
    using assms t \<open>r\<close> by (auto simp: initialize_timer_def on_drivers_def d2_def split: prod.splits if_splits)
  have "logged (d1\<lparr>cpu := x86_enable_interrupts (cpu d1)\<rparr>) (x86_enable_and_idle d1)"
    unfolding x86_enable_and_idle_def by (rule used_logged [OF irq_window_used])
  note l = logged_facts [OF this] and l2 = logged_facts [OF boot_log_running(2) [OF log]]
  have d2: "receive_buffer d2 = receive_buffer (x86_enable_and_idle d1)"
    "timer_initialized d2 = timer_initialized (x86_enable_and_idle d1)"
    by (simp_all add: d2_def timer_check_registers_def Let_def)
  show "timer_initialized (drv k')" using fr(4) \<open>r\<close> l(5) l2(5) d2(2) by simp
  have "carried k (k\<lparr>drv := d2\<rparr>)" using fr(1) l(6) d2(1) by (simp add: carried_def)
  then show "carried k k'" using boot_log_carried [OF log] carried_trans by blast
qed

lemma serial_enable_receive_True:
  assumes "serial_enable_receive d = (True, d')"
  shows "receive_enabled d' \<and> irq_initialized d' \<and> \<not> bit (rflags (cpu d')) 9 \<and> timer_initialized d' = timer_initialized d
    \<and> (rx_wf (receive_buffer d) \<longrightarrow> rx_wf (receive_buffer d'))"
  using assms rxq.reset_wf
  by (auto simp: serial_enable_receive_def irq_enable_def port_defs x86_read_rflags_def bit9_iff Let_def split: if_splits)

text \<open>
  C39: What reaching the console implies, whatever the devices do: the boot information passed
  the checks of its header, memory map and stack, it is published, the interrupt controller and
  the timer have been set up, receiving is enabled with a well-formed buffer, and interrupts are
  on. So the console starts in a state in which its invariant holds ever after.
\<close>

theorem kernel_main_enters_console:
  assumes "kernel_main y L survived p k = Running k'" and "rx_wf (receive_buffer (drv k))"
  shows "valid_boot_header (kernel_ram k) p \<and> valid_memory_map (load_BOOT_INFO (kernel_ram k) p)
    \<and> valid_stack (load_BOOT_INFO (kernel_ram k) p) (kernel_initial_rsp k) (rsp (cpu (drv k)))
    \<and> kernel_boot_info k' = p \<and> timer_initialized (drv k') \<and> irq_initialized (drv k')
    \<and> receive_enabled (drv k') \<and> rx_wf (receive_buffer (drv k')) \<and> bit (rflags (cpu (drv k'))) 9
    \<and> (\<forall>editor ed e. length (line editor) = 128 \<longrightarrow> console_run (pm (vm k')) editor (drv k') (Inr (ed, e)) \<longrightarrow>
        console_ok (drv k') ed e)"
proof -
  let ?k = "k\<lparr>kernel_observed_rsp := rsp (cpu (drv k)), kernel_boot_info := p\<rparr>"
  have v: "valid_boot_header (kernel_ram k) p" "valid_memory_map (load_BOOT_INFO (kernel_ram k) p)"
    "valid_stack (load_BOOT_INFO (kernel_ram k) p) (kernel_initial_rsp k) (rsp (cpu (drv k)))"
    using assms(1) by (auto simp: kernel_main_def Let_def x86_read_rsp_def split: if_splits)
  obtain r d1 where 1: "serial_init (drv k) = (r, d1)" by fastforce
  have r using assms(1) v 1 by (cases r) (simp_all add: kernel_main_def Let_def x86_read_rsp_def on_drivers_def)
  obtain k2 where 2: "boot_log (line_text ''KERNEL: serial ready (COM1, 115200 8N1)''
      @ line_text ''KERNEL: boot information verified'') (?k\<lparr>drv := d1\<rparr>) = Running k2"
    and rest: "continue (boot_log (line_text ''KERNEL: GDT/IDT/TSS ready'')
        (init_tables y (stack_base (load_BOOT_INFO (kernel_ram k2) p) + stack_size (load_BOOT_INFO (kernel_ram k2) p)) k2)) (\<lambda>k.
        continue (initialize_memory L p k) (\<lambda>k.
        continue (initialize_timer survived k) (\<lambda>k.
        case on_drivers serial_enable_receive k of
          (False, k) \<Rightarrow> boot_failure (line_text ''KERNEL ERROR: serial receive IRQ'') k
        | (True, k) \<Rightarrow>
        continue (boot_log (line_text ''KERNEL: serial receive ready (IRQ4, 255-byte buffer)'') k) (\<lambda>k.
        Running (k\<lparr>drv := (drv k)\<lparr>cpu := x86_enable_interrupts (cpu (drv k))\<rparr>\<rparr>))))) = Running k'"
    using assms(1) v 1 \<open>r\<close>
    by (auto simp: kernel_main_def Let_def x86_read_rsp_def on_drivers_def dest!: continue_running)
  obtain k3 k4 k5 where 3: "boot_log (line_text ''KERNEL: GDT/IDT/TSS ready'')
      (init_tables y (stack_base (load_BOOT_INFO (kernel_ram k2) p) + stack_size (load_BOOT_INFO (kernel_ram k2) p)) k2) = Running k3"
    and 4: "initialize_memory L p k3 = Running k4" and 5: "initialize_timer survived k4 = Running k5"
    and rest: "(case on_drivers serial_enable_receive k5 of
          (False, k) \<Rightarrow> boot_failure (line_text ''KERNEL ERROR: serial receive IRQ'') k
        | (True, k) \<Rightarrow>
        continue (boot_log (line_text ''KERNEL: serial receive ready (IRQ4, 255-byte buffer)'') k) (\<lambda>k.
        Running (k\<lparr>drv := (drv k)\<lparr>cpu := x86_enable_interrupts (cpu (drv k))\<rparr>\<rparr>))) = Running k'"
    using rest by (blast dest: continue_running)
  obtain d6 where 6: "serial_enable_receive (drv k5) = (True, d6)"
    using rest boot_failure_stops by (cases "serial_enable_receive (drv k5)") (auto simp: on_drivers_def split: bool.splits)
  obtain k7 where 7: "boot_log (line_text ''KERNEL: serial receive ready (IRQ4, 255-byte buffer)'') (k5\<lparr>drv := d6\<rparr>) = Running k7"
    and k': "k' = k7\<lparr>drv := (drv k7)\<lparr>cpu := x86_enable_interrupts (cpu (drv k7))\<rparr>\<rparr>"
    using rest 6 by (auto simp: on_drivers_def dest!: continue_running)
  have "carried ?k (?k\<lparr>drv := d1\<rparr>)" using logged_facts(6) [OF serial_init_logged [OF 1]] by (simp add: carried_def)
  moreover have "carried k2 (init_tables y s k2)" for s by (simp add: init_tables_def carried_def split: prod.split)
  ultimately have "carried ?k k5"
    using boot_log_carried [OF 2] boot_log_carried [OF 3] initialize_memory_carried [OF 4] initialize_timer_running(1) [OF 5]
    by (meson carried_trans)
  then have c: "kernel_boot_info k5 = p" "rx_wf (receive_buffer (drv k5))" using assms(2) by (simp_all add: carried_def)
  note s = serial_enable_receive_True [OF 6] and l = logged_facts [OF boot_log_running(2) [OF 7]]
  have ready: "timer_initialized (drv k')" "irq_initialized (drv k')" "receive_enabled (drv k')"
    "rx_wf (receive_buffer (drv k'))" "bit (rflags (cpu (drv k'))) 9"
    using s l c initialize_timer_running(2) [OF 5] by (simp_all add: k' x86_enable_interrupts_def bit_or_iff)
  moreover have "kernel_boot_info k7 = p" using boot_log_carried [OF 7] c(1) by (simp add: carried_def)
  then have "kernel_boot_info k' = p" by (simp add: k')
  ultimately show ?thesis using v console_run_ok [OF _ refl _ ready(4,3,5)] by blast
qed

end
