(* ===== verification/KernelBoot.thy ===== *)
theory KernelBoot
  imports KernelProps
begin

text \<open>
  The boot sequence succeeds on a machine that meets the demands of its parts. Each stage is
  followed in turn: the log with a working transmitter, the page allocator and its RAM check, the page
  tables and their self-test, the timer and its first interrupt.
\<close>

section \<open>Log and serial port\<close>

text \<open>A serial port that is present and becomes ready and empty within the polling limit.\<close>

definition serial_alive :: "machine \<Rightarrow> bool" where
  "serial_alive m \<longleftrightarrow> (\<forall>h. device m h (COM1 + 5) \<noteq> 0xff
     \<and> (\<forall>b \<in> {0x20, 0x40}. \<exists>k < 1000000. device m (poll_hist (device m) k h) (COM1 + 5) AND b = b))"

lemma serial_alive_transmits: "serial_alive m \<Longrightarrow> transmitter_alive m"
  by (simp add: serial_alive_def transmitter_alive_def)

lemma serial_alive_io [simp]: "serial_alive (m\<lparr>io := h\<rparr>) = serial_alive m"
  by (simp add: serial_alive_def)

lemma wait_alive:
  assumes "quiet d" and "serial_alive (cpu d)" and "b \<in> {0x20, 0x40}"
  obtains d' where "wait_status b d = (True, d')"
proof -
  have "fst (wait_status b d)"
    using assms(2,3) unfolding serial_alive_def
    by (intro wait_ready_bits [OF assms(1)]) (auto simp: poll_status_def)
  then show ?thesis using that by (cases "wait_status b d") simp
qed

lemma logged_quiet: "logged d d' \<Longrightarrow> \<not> bit (rflags (cpu d)) 9 \<Longrightarrow> \<not> bit (rflags (cpu d')) 9 \<and> quiet d'"
  using logged_facts(1) [of d d'] by (auto simp: quiet_def)

lemma logged_alive: "logged d d' \<Longrightarrow> serial_alive (cpu d) \<Longrightarrow> serial_alive (cpu d')"
  using logged_facts(1) [of d d'] by auto

lemma boot_log_runs:
  assumes IF: "\<not> bit (rflags (cpu (drv k))) 9" and alive: "serial_alive (cpu (drv k))"
  obtains d where "boot_log message k = Running (k\<lparr>drv := d\<rparr>)" "logged (drv k) d"
proof -
  have q: "quiet (drv k)" using IF by (simp add: quiet_def)
  obtain d1 where w: "serial_write message (drv k) = (True, d1)"
    using serial_write_ready [OF q serial_alive_transmits [OF alive], of message]
    by (cases "serial_write message (drv k)") simp
  note l = serial_write_logged [OF w]
  obtain d2 where f: "serial_flush d1 = (True, d2)"
    using wait_alive [of d1 "0x40"] logged_quiet [OF l IF] logged_alive [OF l alive] by (auto simp: serial_flush_def)
  show ?thesis
    using that [of d2] w f logged_trans [OF l serial_flush_logged [OF f]]
    by (simp add: boot_log_def both_hold_def on_drivers_def)
qed

lemma serial_init_runs:
  assumes IF: "\<not> bit (rflags (cpu d)) 9" and alive: "serial_alive (cpu d)"
  obtains d' where "serial_init d = (True, d')" "logged d d'"
proof -
  obtain d1 where f: "serial_flush d = (True, d1)"
    using wait_alive [of d "0x40"] IF alive by (auto simp: serial_flush_def quiet_def)
  note l = serial_flush_logged [OF f]
  define d2 where "d2 = out_window (COM1 + 4) 0x03 (out_window (COM1 + 2) 0x07 (out_window (COM1 + 3) 0x03 (out_window (COM1 + 1) 0x00
      (out_window (COM1 + 0) 0x01 (out_window (COM1 + 3) 0x80 (out_window (COM1 + 1) 0x00 (out_window (COM1 + 3) 0x03 d1)))))))"
  have "logged d1 d2" unfolding d2_def by (intro logged_trans [OF _ out_window_logged] logged_refl)
  from logged_trans [OF l this] obtain d3 where "wait_status 0x20 d2 = (True, d3)"
    using wait_alive [of d2 "0x20"] logged_quiet [of d d2] logged_alive [of d d2] IF alive by auto
  then have "serial_init d = (True, d3)" using f by (simp add: serial_init_def d2_def Let_def)
  then show ?thesis using that serial_init_logged by blast
qed


section \<open>The RAM check\<close>

lemma fill_pattern_outside: "page_aligned a \<Longrightarrow> a \<in> A \<Longrightarrow> outside A m (fill_pattern a m)"
  unfolding fill_pattern_def by (rule outside_fill)

lemma check_allocate_outside:
  "pmm_inv s \<Longrightarrow> pmm_avail s \<subseteq> A \<Longrightarrow> check_allocate n ps m s = (r, m', s') \<Longrightarrow> outside A m m'"
proof (induction n arbitrary: ps m s)
  case (Suc n)
  obtain x t where x: "pmm_alloc True s = (x, t)" by fastforce
  show ?case
  proof (cases x)
    case (Some a)
    note al = pmm_fa.alloc_Some [OF Suc.prems(1) x [unfolded Some]] and fr = pmm_fa.alloc_fresh [OF Suc.prems(1) x [unfolded Some]]
    have 1: "outside A m (fill_pattern a m)"
      using fr al Suc.prems(2) by (intro fill_pattern_outside) (auto simp: frame_addr_def)
    show ?thesis
    proof (cases "a \<in> set ps")
      case False
      then have "check_allocate n (ps @ [a]) (fill_pattern a m) t = (r, m', s')" using Suc.prems(3) x Some by simp
      moreover have "pmm_inv t" "pmm_avail t \<subseteq> A" using al Suc.prems(2) by auto
      ultimately have "outside A (fill_pattern a m) m'" by (intro Suc.IH)
      from outside_trans [OF 1 this order_refl] show ?thesis .
    qed (use Suc.prems(3) x Some in simp)
  qed (use Suc.prems(3) x in simp)
qed simp

lemma pmm_boot_check_outside:
  assumes "pmm_inv s" and "pmm_boot_check m s = (r, m', s')"
  shows "outside (pmm_avail s) m m'"
proof (cases "pmm_available s < 3")
  case False
  obtain x m1 s1 where c: "check_allocate 3 [] m s = (x, m1, s1)" by (cases "check_allocate 3 [] m s") auto
  then have "m' = m1"
    using assms(2) False unfolding pmm_boot_check_def Let_def
    by (auto split: option.splits prod.splits if_splits)
  then show ?thesis using check_allocate_outside [OF assms(1) order_refl c] by simp
qed (use assms(2) pmm_boot_check_few in auto)

lemma pmm_check_runs:
  assumes "pmm_inv s" and "3 \<le> card (pmm_avail s)"
  obtains m' s' where "pmm_boot_check m s = (True, m', s')" "pmm_inv s'" "pmm_used s' = pmm_used s"
    "pmm_avail s' = pmm_avail s" "outside (pmm_avail s) m m'"
proof -
  have "3 \<le> pmm_available s" using assms by (simp add: card_pmm_avail word_le_nat_alt)
  then show ?thesis using that pmm_boot_check_passes [OF assms(1), of m] pmm_boot_check_outside [OF assms(1), of m] by blast
qed


section \<open>Stability\<close>

lemma boot_free_stable:
  assumes free: "boot_free m p pm0" and out: "outside (pmm_avail pm0) m m'"
    and pm1: "pmm_inv pm1" "pmm_used pm1 = {}" "pmm_avail pm1 = pmm_avail pm0"
  defines "info \<equiv> load_BOOT_INFO m p"
  shows "boot_free m' p pm1" and "load_BOOT_INFO m' p = info" and "boot_ram m' info = boot_ram m info"
    and "\<And>i. i < desc_count info \<Longrightarrow> descriptor m' info (of_nat i) = descriptor m info (of_nat i)"
proof -
  have ctx: "boot_ctx m p (pmm_avail pm0)" using free by (simp add: boot_free_def)
  show i: "load_BOOT_INFO m' p = info" unfolding info_def by (rule boot_info_stable [OF ctx out order_refl])
  show d: "descriptor m' info (of_nat i) = descriptor m info (of_nat i)" if "i < desc_count info" for i
    using descriptor_stable [OF ctx out order_refl] that by (simp add: info_def descriptor_def)
  show r: "boot_ram m' info = boot_ram m info" unfolding boot_ram_def using d by simp
  have "valid_boot_info m' p" using ctx i by (simp add: boot_ctx_def valid_boot_info_def info_def)
  moreover have "valid_map_ranges m' info" using ctx d by (simp add: boot_ctx_def valid_map_ranges_iff info_def)
  ultimately show "boot_free m' p pm1"
    using free pm1 i r by (simp add: boot_free_def boot_ctx_def info_def)
qed

lemma vm_inv_mach:
  assumes "ram m = ram (mach s)" and "tlb m = tlb (mach s)"
  shows "vm_inv (s\<lparr>mach := m\<rparr>) = vm_inv s" and "vmap (s\<lparr>mach := m\<rparr>) = vmap s"
proof -
  show "vm_inv (s\<lparr>mach := m\<rparr>) = vm_inv s" using assms by (simp add: vm_inv_def vm_tree_def pt_inv_def tlb_ok_def)
  have "vmap (s\<lparr>mach := m\<rparr>) w = vmap s w" for w using assms by (simp add: vmap_def)
  then show "vmap (s\<lparr>mach := m\<rparr>) = vmap s" by blast
qed

lemma settled_mach:
  assumes "settled L p r A s" and "ram m = ram (mach s)" and "cr0 m = cr0 (mach s)" and "cr3 m = cr3 (mach s)"
    and "tlb m = tlb (mach s)" and "rflags m = rflags (mach s)"
  shows "settled L p r A (s\<lparr>mach := m\<rparr>)"
  using assms vm_inv_mach [of m s] by (simp add: settled_def boot_map_def running_def)

lemma outside_agree:
  assumes out: "outside F m m'" and al: "\<forall>t \<in> T \<union> F. page_aligned t" and dj: "T \<inter> F = {}"
  shows "agree T m m'"
  unfolding agree_def
proof (intro ballI allI impI)
  fix t i assume t: "t \<in> T" and i: "i < (512 :: u64)"
  have "page_of t \<noteq> page_of u" if "u \<in> F" for u
  proof
    assume "page_of t = page_of u"
    moreover have "unat t = 4096 * page_of t" "unat u = 4096 * page_of u"
      using al t that by (auto simp: page_of_def page_aligned_unat)
    ultimately have "t = u" by (simp add: word_unat_eq_iff)
    then show False using dj t that by blast
  qed
  then have nt: "page_of t \<notin> page_of ` F" by auto
  have "m' (t + 8 * i + of_nat j) = m (t + 8 * i + of_nat j)" if "j < 8" for j
  proof -
    have "unat ((t + 8 * i + of_nat j) - (t + 8 * i)) < 8" using that by (simp add: unat_of_nat64)
    then have "page_of (t + 8 * i + of_nat j) = page_of t" using entry_byte_page [OF _ i] al t by blast
    then show ?thesis using out nt by (simp add: outside_def)
  qed
  then have "bit (load64 m' (t + 8 * i)) n = bit (load64 m (t + 8 * i)) n" for n
    by (auto simp: load64_def bit_load_le)
  then show "get_entry m' t i = get_entry m t i" unfolding get_entry_def by (intro bit_word_eqI) simp
qed

lemma settled_pmm:
  assumes st: "settled L p r A s" and out: "outside (pmm_avail (pm s)) (ram (mach s)) m'"
    and pm1: "pmm_inv pm1" "pmm_used pm1 = pmm_used (pm s)" "pmm_avail pm1 = pmm_avail (pm s)"
  shows "settled L p r A (s\<lparr>mach := (mach s)\<lparr>ram := m'\<rparr>, pm := pm1\<rparr>)"
proof -
  let ?s = "s\<lparr>mach := (mach s)\<lparr>ram := m'\<rparr>, pm := pm1\<rparr>"
  obtain f where f: "vm_tree s f" using st by (auto simp: settled_def boot_map_def vm_inv_def)
  then have tab: "tab_inv s" by (simp add: vm_tree_def pt_inv_def)
  have "frame_addr t" if "t \<in> tables s \<union> pmm_avail (pm s)" for t
    using that table_frames [OF tab] pmm_fa.frames [of "pm s" t] tab by (auto simp: tab_inv_def)
  moreover have "tables s \<inter> pmm_avail (pm s) = {}" using st by (auto simp: settled_def)
  ultimately have "agree (tables s) (ram (mach s)) m'" by (intro outside_agree [OF out]) (auto simp: frame_addr_def)
  moreover have "tables s \<subseteq> pmm_used pm1" using st pm1(2) by (simp add: settled_def)
  ultimately have vm: "vm_tree ?s f" "vmap ?s = vmap s" using vm_tree_agree [OF f _ pm1(1) _ refl] by blast+
  have "outside A r (ram (mach s))" "pmm_avail (pm s) \<subseteq> A" using st by (auto simp: settled_def)
  moreover have "outside A (ram (mach s)) m'" using outside_trans [OF outside_refl out] calculation(2) out
    by (auto simp: outside_def)
  ultimately have "outside A r m'" by (auto intro: outside_trans)
  then show ?thesis using st vm pm1 by (auto simp: settled_def boot_map_def vm_inv_def running_def)
qed


section \<open>Memory\<close>

text \<open>What is the same before and after a step that is not about the drivers.\<close>

definition steady :: "drivers \<Rightarrow> drivers \<Rightarrow> bool" where
  "steady d d' \<longleftrightarrow> same_io (cpu d) ((cpu d')\<lparr>io := io (cpu d)\<rparr>) \<and> same_setup d d'
     \<and> (rx_wf (receive_buffer d) \<longrightarrow> rx_wf (receive_buffer d'))"

lemma steady_trans: "steady d d1 \<Longrightarrow> steady d1 d2 \<Longrightarrow> steady d d2"
  by (simp add: steady_def same_io_def same_setup_def)

lemma logged_steady: "logged d d' \<Longrightarrow> steady d d'"
  using logged_facts(1) [of d d'] by (auto simp: logged_def polled_def steady_def same_io_def)

lemma steady_cpu: "same_io (cpu d) m \<Longrightarrow> steady d (d\<lparr>cpu := m\<rparr>)"
  by (simp add: steady_def same_io_def same_setup_def)

lemma steady_facts:
  assumes "steady d d'"
  shows "rflags (cpu d') = rflags (cpu d)" and "serial_alive (cpu d') = serial_alive (cpu d)" and "device (cpu d') = device (cpu d)"
  using assms by (simp_all add: steady_def same_io_def serial_alive_def)

text \<open>The page tables of a kernel state, with the processor it has.\<close>

abbreviation paged :: "kernel \<Rightarrow> paging" where
  "paged k \<equiv> (vm k)\<lparr>mach := cpu (drv k)\<rparr>"

text \<open>A step of the memory set-up once the page tables are in use.\<close>

definition memory_step :: "layout \<Rightarrow> u64 \<Rightarrow> memory \<Rightarrow> u64 set \<Rightarrow> kernel \<Rightarrow> kernel \<Rightarrow> bool" where
  "memory_step L p r A k k' \<longleftrightarrow> tabs k' = tabs k \<and> kernel_boot_info k' = kernel_boot_info k \<and> steady (drv k) (drv k')
     \<and> settled L p r A (paged k') \<and> tables (vm k') = tables (vm k)"

lemma log_settled:
  assumes st: "settled L p r A (paged k)" and d: "logged (drv k) d"
  shows "memory_step L p r A k (k\<lparr>drv := d\<rparr>)"
proof -
  obtain h where "cpu d = (cpu (drv k))\<lparr>io := h\<rparr>" using logged_facts(1) [OF d] by blast
  then have "settled L p r A ((paged k)\<lparr>mach := cpu d\<rparr>)" by (intro settled_mach [OF st]) simp_all
  then show ?thesis using logged_steady [OF d] by (simp add: memory_step_def)
qed

lemma ram_check_settled:
  assumes st: "settled L p r A (paged k)" and "3 \<le> card (A - tables (vm k))"
  obtains k' where "on_pmm pmm_boot_check k = (True, k')" "memory_step L p r A k k'"
proof -
  let ?s = "paged k"
  have "pmm_inv (pm ?s)" using st by (auto simp: settled_def boot_map_def vm_inv_def vm_tree_def pt_inv_def tab_inv_def)
  moreover have av: "pmm_avail (pm ?s) = A - tables ?s" using st by (simp add: settled_def)
  ultimately obtain m' p' where c: "pmm_boot_check (kernel_ram k) (pm ?s) = (True, m', p')" "pmm_inv p'"
    "pmm_used p' = pmm_used (pm ?s)" "pmm_avail p' = pmm_avail (pm ?s)" "outside (pmm_avail (pm ?s)) (kernel_ram k) m'"
    using pmm_check_runs [of "pm ?s" "kernel_ram k"] assms(2) by auto
  let ?k = "k\<lparr>vm := (vm k)\<lparr>pm := p'\<rparr>, drv := (drv k)\<lparr>cpu := (cpu (drv k))\<lparr>ram := m'\<rparr>\<rparr>\<rparr>"
  have "settled L p r A (?s\<lparr>mach := (mach ?s)\<lparr>ram := m'\<rparr>, pm := p'\<rparr>)"
    using c by (intro settled_pmm [OF st]) simp_all
  moreover have "?s\<lparr>mach := (mach ?s)\<lparr>ram := m'\<rparr>, pm := p'\<rparr> = paged ?k" by (cases "vm k") simp
  ultimately have "settled L p r A (paged ?k)" by (simp only:)
  moreover have "steady (drv k) (drv ?k)" by (simp add: steady_def same_io_def same_setup_def)
  ultimately show ?thesis using that [of ?k] c(1) by (simp add: on_pmm_def memory_step_def)
qed

lemma paging_check_settled:
  assumes ctx: "boot_ctx r p A" "A \<subseteq> boot_ram r (load_BOOT_INFO r p)" and st: "settled L p r A (paged k)"
    and pl: "aligned8 p" "placed_well L (load_BOOT_INFO r p) A"
    and room: "6 \<le> card (A - tables (vm k))" "card (tables (vm k)) + 4 \<le> 4096"
  obtains k' where "on_paging (paging_boot_check L p) k = Some (True, k')" "memory_step L p r A k k'"
proof -
  have "pmm_avail (pm (paged k)) = A - tables (paged k)" using st by (simp add: settled_def)
  then obtain s' where s': "paging_boot_check L p (paged k) = Some (True, s')" "settled L p r A s'"
    "tables s' = tables (vm k)" "same_io (cpu (drv k)) (mach s')"
    using settled_check [OF ctx st pl] room by auto
  let ?k = "k\<lparr>vm := s', drv := (drv k)\<lparr>cpu := mach s'\<rparr>\<rparr>"
  have "s'\<lparr>mach := mach s'\<rparr> = s'" by simp
  then show ?thesis
    using that [of ?k] s' steady_cpu [OF s'(4)] by (simp add: on_paging_def memory_step_def)
qed

lemma memory_step_trans: "memory_step L p r A k k1 \<Longrightarrow> memory_step L p r A k1 k2 \<Longrightarrow> memory_step L p r A k k2"
  using steady_trans [of "drv k" "drv k1" "drv k2"] by (simp add: memory_step_def)


text \<open>
  The demands of the memory set-up: the boot information is accepted, the linker and the loader placed
  things as they should, the boot RAM is write-back and holds what it has to, and there is room for
  the page tables and for the self-tests.
\<close>

definition memory_demands :: "layout \<Rightarrow> u64 \<Rightarrow> memory \<Rightarrow> pmm \<Rightarrow> bool" where
  "memory_demands L p r pm0 \<longleftrightarrow> (let info = load_BOOT_INFO r p; R = boot_ram r info in
     pmm_init r p pmm_bss = (True, pm0) \<and> aligned8 p \<and> placed_well L info (pmm_avail pm0)
     \<and> (\<forall>i < desc_count info. desc_frames (descriptor r info (of_nat i)) \<noteq> {} \<longrightarrow>
          attributes (descriptor r info (of_nat i)) AND 8 \<noteq> 0)
     \<and> card (paths R) + 5 \<le> 4096 \<and> card (paths R) + 7 \<le> card (pmm_avail pm0)
     \<and> region_in R (kernel_base info) (kernel_size info) \<and> region_in R (stack_base info) (stack_size info)
     \<and> region_in R p sizeof_BOOT_INFO \<and> region_in R (memory_map info) (memory_map_size info)
     \<and> distinct (guard_list L info) \<and> set (guard_list L info) \<subseteq> R)"

lemma settled_base:
  assumes free: "boot_free r p pm0" and out: "outside (pmm_avail pm0) r r1" and st: "settled L p r1 (pmm_avail pm0) s"
  shows "settled L p r (pmm_avail pm0) s"
proof -
  have pm: "pmm_inv pm0" "pmm_used pm0 = {}" using free by (simp_all add: boot_free_def)
  note b = boot_free_stable [OF free out pm refl]
  have "outside (pmm_avail pm0) r (ram (mach s))" using outside_trans [OF out _ order_refl] st by (simp add: settled_def)
  then show ?thesis using st b(2,3) by (simp add: settled_def)
qed

text \<open>The first RAM check, before the page tables.\<close>

lemma first_ram_check:
  assumes dem: "memory_demands L p (kernel_ram k) pm0" and bss: "vm k = paging_bss x pmm_bss"
  obtains k' pm1 where
    "both_hold (on_pmm (\<lambda>m s. case pmm_init m p s of (r, s) \<Rightarrow> (r, m, s)) k) (on_pmm pmm_boot_check) = (True, k')"
    "vm k' = paging_bss x pm1" "pmm_inv pm1" "pmm_used pm1 = {}" "pmm_avail pm1 = pmm_avail pm0"
    "outside (pmm_avail pm0) (kernel_ram k) (kernel_ram k')" "drv k' = (drv k)\<lparr>cpu := (cpu (drv k))\<lparr>ram := kernel_ram k'\<rparr>\<rparr>"
    "tabs k' = tabs k" "kernel_boot_info k' = kernel_boot_info k"
proof -
  have init: "pmm_init (kernel_ram k) p pmm_bss = (True, pm0)" and room: "3 \<le> card (pmm_avail pm0)"
    using dem by (simp_all add: memory_demands_def Let_def)
  have free: "pmm_inv pm0" "pmm_used pm0 = {}" using boot_free_init [OF init] by (simp_all add: boot_free_def)
  obtain m1 pm1 where c: "pmm_boot_check (kernel_ram k) pm0 = (True, m1, pm1)" "pmm_inv pm1" "pmm_used pm1 = {}"
    "pmm_avail pm1 = pmm_avail pm0" "outside (pmm_avail pm0) (kernel_ram k) m1"
    using pmm_check_runs [OF free(1) room, of "kernel_ram k"] free(2) by metis
  show ?thesis
    using init c bss
    by (intro that [of "k\<lparr>vm := paging_bss x pm1, drv := (drv k)\<lparr>cpu := (cpu (drv k))\<lparr>ram := m1\<rparr>\<rparr>\<rparr>" pm1])
      (simp_all add: on_pmm_def both_hold_def paging_bss_def)
qed

lemma supported_cpu_upd [simp]:
  "supported_cpu_state c (m\<lparr>ram := r\<rparr>) = supported_cpu_state c m" "supported_cpu_state c (m\<lparr>io := h\<rparr>) = supported_cpu_state c m"
  by (simp_all add: supported_cpu_state_def x86_read_rflags_def x86_cpuid_def)

text \<open>The page tables, on memory that the RAM check has changed.\<close>

lemma paging_init_stage:
  assumes dem: "memory_demands L p r pm0" and out: "outside (pmm_avail pm0) r (kernel_ram k)"
    and pm1: "vm k = paging_bss x pm1" "pmm_inv pm1" "pmm_used pm1 = {}" "pmm_avail pm1 = pmm_avail pm0"
    and cpu: "supported_cpu_state (cr4 (cpu (drv k))) (cpu (drv k))"
  obtains k' where "on_paging (paging_init L p) k = Some (True, k')" "settled L p r (pmm_avail pm0) (paged k')"
    "steady (drv k) (drv k')" "tabs k' = tabs k" "kernel_boot_info k' = kernel_boot_info k"
    "6 \<le> card (pmm_avail pm0 - tables (vm k'))" "card (tables (vm k')) + 4 \<le> 4096"
proof -
  let ?m = "cpu (drv k)" and ?info = "load_BOOT_INFO r p"
  have init: "pmm_init r p pmm_bss = (True, pm0)" using dem by (simp add: memory_demands_def Let_def)
  note free0 = boot_free_init [OF init]
  note b = boot_free_stable [OF free0 out pm1(2-4)]
  have lives: "\<exists>s'. paging_init L p (paging_bss ?m pm1) = Some (True, s') \<and> card (tables s') \<le> Suc (card (paths (boot_ram r ?info)))"
    using paging_init_lives [OF b(1) cpu, of L] dem b(4) unfolding b(2,3) pm1(4) by (simp add: memory_demands_def Let_def)
  then obtain s' where s': "paging_init L p (paging_bss ?m pm1) = Some (True, s')"
    "card (tables s') \<le> Suc (card (paths (boot_ram r ?info)))" by blast
  note ok = init_success [OF b(1) s'(1)]
  have st: "settled L p r (pmm_avail pm0) s'" using ok(1) settled_base [OF free0 out] pm1(4) by simp
  let ?k = "k\<lparr>vm := s', drv := (drv k)\<lparr>cpu := mach s'\<rparr>\<rparr>"
  have "on_paging (paging_init L p) k = Some (True, ?k)" using s'(1) pm1(1) by (simp add: on_paging_def paging_bss_def)
  moreover have "s'\<lparr>mach := mach s'\<rparr> = s'" by simp
  moreover have "tables s' \<subseteq> pmm_avail pm0" using st by (simp add: settled_def)
  then have "card (pmm_avail pm0 - tables s') = card (pmm_avail pm0) - card (tables s')" by (simp add: card_Diff_subset)
  moreover have "card (paths (boot_ram r ?info)) + 5 \<le> 4096" "card (paths (boot_ram r ?info)) + 7 \<le> card (pmm_avail pm0)"
    using dem by (simp_all add: memory_demands_def Let_def)
  ultimately show ?thesis using that [of ?k] st s'(2) steady_cpu [OF ok(2)] by simp
qed


text \<open>A log line does not disturb a settled state.\<close>

lemma log_step:
  assumes st: "settled L p r A (paged k)" and "\<not> bit (rflags (cpu (drv k))) 9" and "serial_alive (cpu (drv k))"
  obtains k' where "boot_log message k = Running k'" "memory_step L p r A k k'"
  using boot_log_runs [OF assms(2,3), of message] log_settled [OF st] by metis

lemma memory_step_drivers:
  assumes "memory_step L p r A k k'"
  shows "bit (rflags (cpu (drv k'))) 9 = bit (rflags (cpu (drv k))) 9"
    and "serial_alive (cpu (drv k')) = serial_alive (cpu (drv k))" and "settled L p r A (paged k')"
    and "tables (vm k') = tables (vm k)" and "kernel_boot_info k' = kernel_boot_info k"
  using assms steady_facts [of "drv k" "drv k'"] by (simp_all add: memory_step_def)

lemma initialize_memory_runs:
  assumes dem: "memory_demands L p (kernel_ram k) pm0" and bss: "vm k = paging_bss x pmm_bss"
    and cpu: "supported_cpu_state (cr4 (cpu (drv k))) (cpu (drv k))"
    and IF: "\<not> bit (rflags (cpu (drv k))) 9" and alive: "serial_alive (cpu (drv k))" and info: "kernel_boot_info k = p"
  obtains k' where "initialize_memory L p k = Running k'" "settled L p (kernel_ram k) (pmm_avail pm0) (paged k')"
    "steady (drv k) (drv k')" "tabs k' = tabs k" "kernel_boot_info k' = p"
proof -
  let ?r = "kernel_ram k" and ?A = "pmm_avail pm0"
  obtain k1 pm1 where 1: "both_hold (on_pmm (\<lambda>m s. case pmm_init m p s of (r, s) \<Rightarrow> (r, m, s)) k) (on_pmm pmm_boot_check) = (True, k1)"
    and k1: "vm k1 = paging_bss x pm1" "pmm_inv pm1" "pmm_used pm1 = {}" "pmm_avail pm1 = ?A"
    "outside ?A ?r (kernel_ram k1)" "drv k1 = (drv k)\<lparr>cpu := (cpu (drv k))\<lparr>ram := kernel_ram k1\<rparr>\<rparr>"
    "tabs k1 = tabs k" "kernel_boot_info k1 = kernel_boot_info k"
    by (rule first_ram_check [OF dem bss])
  define rr where "rr = kernel_ram k1"
  have d1: "drv k1 = (drv k)\<lparr>cpu := (cpu (drv k))\<lparr>ram := rr\<rparr>\<rparr>" using k1(6) by (simp add: rr_def)
  have s1: "steady (drv k) (drv k1)" unfolding d1 by (simp add: steady_def same_io_def same_setup_def)
  obtain d2 where 2: "boot_log (line_text ''KERNEL: physical pages ready (4 KiB, self-test passed)'') k1 = Running (k1\<lparr>drv := d2\<rparr>)"
    "logged (drv k1) d2" using boot_log_runs [of k1] IF alive steady_facts [OF s1] by auto
  obtain h where h: "cpu d2 = (cpu (drv k))\<lparr>ram := rr, io := h\<rparr>" using logged_facts(1) [OF 2(2)] unfolding d1 by auto
  have "supported_cpu_state (cr4 (cpu d2)) (cpu d2)" using cpu by (simp add: h)
  then obtain k3 where 3: "on_paging (paging_init L p) (k1\<lparr>drv := d2\<rparr>) = Some (True, k3)" "settled L p ?r ?A (paged k3)"
    "steady d2 (drv k3)" "tabs k3 = tabs k" "kernel_boot_info k3 = p"
    and room: "6 \<le> card (?A - tables (vm k3))" "card (tables (vm k3)) + 4 \<le> 4096"
    using paging_init_stage [OF dem, of "k1\<lparr>drv := d2\<rparr>" x pm1] k1 h info by (auto simp: rr_def)
  have s3: "steady (drv k) (drv k3)" using steady_trans [OF steady_trans [OF s1 logged_steady [OF 2(2)]] 3(3)] .
  obtain k4 where 4: "on_pmm pmm_boot_check k3 = (True, k4)" "memory_step L p ?r ?A k3 k4"
    using ram_check_settled [OF 3(2)] room(1) by auto
  note m4 = memory_step_drivers [OF 4(2)]
  have on: "\<not> bit (rflags (cpu (drv k4))) 9" "serial_alive (cpu (drv k4))"
    using m4(1,2) steady_facts [OF s3] IF alive by simp_all
  obtain k5 where 5: "boot_log (line_text ''KERNEL: paging ready (own CR3, RAM check passed)'') k4 = Running k5"
    "memory_step L p ?r ?A k4 k5" using log_step [OF m4(3) on] by metis
  note m5 = memory_step_drivers [OF 5(2)]
  have ctx: "boot_ctx ?r p ?A" "?A \<subseteq> boot_ram ?r (load_BOOT_INFO ?r p)" and pl: "aligned8 p" "placed_well L (load_BOOT_INFO ?r p) ?A"
    using dem boot_free_init [of ?r p pm0] by (simp_all add: memory_demands_def boot_free_def Let_def)
  have "tables (vm k5) = tables (vm k3)" using m4(4) m5(4) by simp
  with room obtain k6 where 6: "on_paging (paging_boot_check L p) k5 = Some (True, k6)" "memory_step L p ?r ?A k5 k6"
    using paging_check_settled [OF ctx m5(3) pl] by auto
  note m6 = memory_step_drivers [OF 6(2)]
  obtain k7 where 7: "boot_log (line_text ''KERNEL: dynamic paging checks passed'') k6 = Running k7"
    "memory_step L p ?r ?A k6 k7" using log_step [OF m6(3)] on m5(1,2) m6(1,2) by metis
  note all = memory_step_trans [OF memory_step_trans [OF 4(2) 5(2)] memory_step_trans [OF 6(2) 7(2)]]
  have "initialize_memory L p k = Running k7"
    using 1 2(1) 3(1) 4(1) 5(1) 6(1) 7(1) m4(5) m5(5) 3(5) by (simp add: initialize_memory_def both_hold_def)
  then show ?thesis using that all steady_trans [OF s3] 3(4,5) by (simp add: memory_step_def)
qed


section \<open>Timer\<close>

text \<open>The registers of the page code are as before.\<close>

definition same_paging :: "machine \<Rightarrow> machine \<Rightarrow> bool" where
  "same_paging m m' \<longleftrightarrow> ram m' = ram m \<and> cr0 m' = cr0 m \<and> cr3 m' = cr3 m \<and> tlb m' = tlb m
     \<and> rflags m' = rflags m \<and> device m' = device m"

lemma same_paging_trans: "same_paging a b \<Longrightarrow> same_paging b c \<Longrightarrow> same_paging a c"
  by (simp add: same_paging_def)

lemma logged_paging: "logged d d' \<Longrightarrow> same_paging (cpu d) (cpu d')"
  using logged_facts(1) [of d d'] by (auto simp: same_paging_def)

lemma flag_off:
  assumes "\<not> bit (f :: u64) 9"
  shows "f AND NOT 0x200 = f" and "(f OR 0x200) AND NOT 0x200 = f"
proof -
  have e: "(0x200 :: u64) = 2 ^ 9" by simp
  have "bit (f AND NOT (2 ^ 9)) n = bit f n" "bit ((f OR 2 ^ 9) AND NOT (2 ^ 9)) n = bit f n" if "n < LENGTH(64)" for n
    using assms that by (auto simp only: bit_and_iff bit_or_iff bit_not_iff bit_exp_iff possible_bit_word)
  then show "f AND NOT 0x200 = f" "(f OR 0x200) AND NOT 0x200 = f"
    unfolding e by (intro bit_word_eqI; simp only:)+
qed

lemma disable_off: "\<not> bit (rflags m) 9 \<Longrightarrow> x86_disable_interrupts m = m"
  unfolding x86_disable_interrupts_def using flag_off(1) [of "rflags m"] by simp

lemma timer_check_runs:
  assumes IF: "\<not> bit (rflags (cpu d)) 9" and src: "irq_source d = (\<lambda>_. [32])" and regs: "\<And>d. survived d"
  shows "timer_check_registers survived d =
    (True, d\<lparr>ticks := ticks d + 1, cpu := (cpu d)\<lparr>io := Out 0x20 0x20 # io (cpu d)\<rparr>\<rparr>)"
proof -
  have "bit (rflags (x86_enable_interrupts (cpu d))) 9" by (simp add: x86_enable_interrupts_def bit_or_iff)
  then have "x86_enable_and_idle d = d\<lparr>ticks := ticks d + 1,
      cpu := (x86_enable_interrupts (cpu d))\<lparr>io := Out 0x20 0x20 # io (cpu d)\<rparr>\<rparr>"
    using src by (simp add: x86_enable_and_idle_def irq_window_def take_irq_def irq_dispatch_def timer_interrupt_def
        outb_def x86_outb_def x86_disable_interrupts_def x86_enable_interrupts_def Let_def)
  then show ?thesis
    using regs flag_off(2) [OF IF]
    by (simp add: timer_check_registers_def Let_def x86_disable_interrupts_def x86_enable_interrupts_def)
qed


lemma timer_init_ready:
  assumes "irq_ready d" and "\<not> timer_initialized d"
  obtains d' where "timer_init d = (True, d')" "same_paging (cpu d) (cpu d')" "ticks d' = 0" "irq_initialized d'"
    "receive_enabled d' = receive_enabled d" "receive_buffer d' = receive_buffer d" "irq_source d' = irq_source d"
proof -
  obtain d' where t: "timer_init d = (True, d')" using assms by (simp add: timer_init_eq)
  note f = timer_init_frame [OF t]
  have "same_paging (cpu d) (cpu d')" using f(5) by (auto simp: same_paging_def)
  then show ?thesis using that t f by simp
qed

lemma initialize_timer_runs:
  assumes ready: "irq_ready (drv k)" "\<not> timer_initialized (drv k)" and alive: "serial_alive (cpu (drv k))"
    and src: "irq_source (drv k) = (\<lambda>_. [32])" and regs: "\<And>d. survived d" and rx: "rx_wf (receive_buffer (drv k))"
  obtains d where "initialize_timer survived k = Running (k\<lparr>drv := d\<rparr>)" "same_paging (cpu (drv k)) (cpu d)"
    "irq_initialized d" "receive_enabled d = receive_enabled (drv k)" "rx_wf (receive_buffer d)"
proof -
  have IF: "\<not> bit (rflags (cpu (drv k))) 9" using ready(1) by (simp add: irq_ready_def)
  obtain d1 where 1: "timer_init (drv k) = (True, d1)" "same_paging (cpu (drv k)) (cpu d1)" "ticks d1 = 0" "irq_initialized d1"
    "receive_enabled d1 = receive_enabled (drv k)" "receive_buffer d1 = receive_buffer (drv k)" "irq_source d1 = irq_source (drv k)"
    by (rule timer_init_ready [OF ready])
  define d2 where "d2 = d1\<lparr>ticks := 1, cpu := (cpu d1)\<lparr>io := Out 0x20 0x20 # io (cpu d1)\<rparr>\<rparr>"
  have "\<not> bit (rflags (cpu d1)) 9" using 1(2) IF by (simp add: same_paging_def)
  then have 2: "timer_check_registers survived d1 = (True, d2)"
    using timer_check_runs [of d1 survived] 1(3,7) src regs by (simp add: d2_def)
  have p2: "same_paging (cpu (drv k)) (cpu d2)" using 1(2) by (simp add: d2_def same_paging_def)
  then have "\<not> bit (rflags (cpu d2)) 9" "serial_alive (cpu d2)" using IF alive by (simp_all add: same_paging_def serial_alive_def)
  then obtain d3 where 3: "boot_log (line_text ''KERNEL: timer ready (PIT, ~100 Hz)'') (k\<lparr>drv := d2\<rparr>) = Running (k\<lparr>drv := d3\<rparr>)"
    "logged d2 d3" using boot_log_runs [of "k\<lparr>drv := d2\<rparr>"] by auto
  have "initialize_timer survived k = Running (k\<lparr>drv := d3\<rparr>)"
    using 1(1) 2 3(1) by (simp add: initialize_timer_def on_drivers_def timer_ticks_def d2_def)
  then show ?thesis
    using that same_paging_trans [OF p2 logged_paging [OF 3(2)]] logged_facts [OF 3(2)] 1 rx by (simp add: d2_def)
qed

lemma serial_enable_receive_runs:
  assumes "\<not> receive_enabled d" and "irq_initialized d" and "\<not> bit (rflags (cpu d)) 9"
  obtains d' where "serial_enable_receive d = (True, d')" "same_paging (cpu d) (cpu d')"
proof -
  have four: "(4 :: u32) < 16" by simp
  have e: "irq_enable 4 d = (True, unmask 0x21 4 d)" using irq_enable_eq [OF assms(2) four assms(3)] by simp
  define d' where "d' = snd (serial_enable_receive d)"
  have "serial_enable_receive d = (True, d')"
    using assms e by (simp add: serial_enable_receive_def x86_read_rflags_def bit9_iff d'_def Let_def)
  moreover have "same_paging (cpu d) (cpu (unmask 0x21 4 d))" by (rule logged_paging [OF unmask_logged])
  then have "same_paging (cpu d) (cpu d')"
    using assms e by (simp add: d'_def serial_enable_receive_def x86_read_rflags_def bit9_iff Let_def outb_def x86_outb_def same_paging_def)
  ultimately show ?thesis using that by blast
qed

lemma tables_init_machine: "fst (tables_init y t (tab, m)) = fst (tables_init y t (tab, m'))"
  "snd (tables_init y t (tab, m)) = x86_disable_interrupts m"
  by (simp_all add: tables_init_def tables_load_def Let_def)



section \<open>The whole boot\<close>

text \<open>The kernel at its entry: nothing has been set up, interrupts are off.\<close>

definition at_entry :: "kernel \<Rightarrow> bool" where
  "at_entry k \<longleftrightarrow> (\<exists>x. vm k = paging_bss x pmm_bss) \<and> irq_ready (drv k) \<and> \<not> timer_initialized (drv k)
     \<and> \<not> receive_enabled (drv k) \<and> rx_wf (receive_buffer (drv k))"

lemma kernel_main_start:
  assumes hdr: "valid_boot_header (kernel_ram k) p" "valid_memory_map (load_BOOT_INFO (kernel_ram k) p)"
      "valid_stack (load_BOOT_INFO (kernel_ram k) p) (kernel_initial_rsp k) (rsp (cpu (drv k)))"
    and IF: "\<not> bit (rflags (cpu (drv k))) 9" and alive: "serial_alive (cpu (drv k))"
  defines "top_of \<equiv> stack_base (load_BOOT_INFO (kernel_ram k) p) + stack_size (load_BOOT_INFO (kernel_ram k) p)"
  obtains k3 where "kernel_main y L survived p k = continue (initialize_memory L p k3) (\<lambda>k.
        continue (initialize_timer survived k) (\<lambda>k.
        case on_drivers serial_enable_receive k of
          (False, k) \<Rightarrow> boot_failure (line_text ''KERNEL ERROR: serial receive IRQ'') k
        | (True, k) \<Rightarrow>
        continue (boot_log (line_text ''KERNEL: serial receive ready (IRQ4, 255-byte buffer)'') k) (\<lambda>k.
        Running (k\<lparr>drv := (drv k)\<lparr>cpu := x86_enable_interrupts (cpu (drv k))\<rparr>\<rparr>))))"
    "logged (drv k) (drv k3)" "vm k3 = vm k" "kernel_boot_info k3 = p"
    "tabs k3 = fst (tables_init y top_of (tabs k, cpu (drv k)))"
proof -
  let ?k = "k\<lparr>kernel_observed_rsp := rsp (cpu (drv k)), kernel_boot_info := p\<rparr>"
  obtain d1 where 1: "serial_init (drv k) = (True, d1)" "logged (drv k) d1" by (rule serial_init_runs [OF IF alive])
  obtain d2 where 2: "boot_log (line_text ''KERNEL: serial ready (COM1, 115200 8N1)''
      @ line_text ''KERNEL: boot information verified'') (?k\<lparr>drv := d1\<rparr>) = Running (?k\<lparr>drv := d2\<rparr>)" "logged d1 d2"
    using boot_log_runs [of "?k\<lparr>drv := d1\<rparr>"] logged_quiet [OF 1(2) IF] logged_alive [OF 1(2) alive] by auto
  note l2 = logged_trans [OF 1(2) 2(2)]
  have ram2: "ram (cpu d2) = kernel_ram k" using logged_facts(1) [OF l2] by auto
  have off: "\<not> bit (rflags (cpu d2)) 9" "serial_alive (cpu d2)" using logged_quiet [OF l2 IF] logged_alive [OF l2 alive] by simp_all
  define t where "t = fst (tables_init y top_of (tabs k, cpu (drv k)))"
  have tab: "tables_init y top_of (tabs k, cpu d2) = (t, cpu d2)"
    using tables_init_machine(1) [of y top_of "tabs k" "cpu d2" "cpu (drv k)"]
      tables_init_machine(2) [of y top_of "tabs k" "cpu d2"] disable_off [OF off(1)] by (simp add: t_def prod_eq_iff)
  let ?k2 = "?k\<lparr>drv := d2, tabs := t\<rparr>"
  have init: "init_tables y top_of (?k\<lparr>drv := d2\<rparr>) = ?k2" using tab by (simp add: init_tables_def)
  obtain d3 where 3: "boot_log (line_text ''KERNEL: GDT/IDT/TSS ready'') ?k2 = Running (?k2\<lparr>drv := d3\<rparr>)" "logged d2 d3"
    using boot_log_runs [of ?k2] off by auto
  show ?thesis
    using that [of "?k2\<lparr>drv := d3\<rparr>"] hdr 1(1) 2(1) 3 init ram2 logged_trans [OF l2 3(2)]
    by (simp add: kernel_main_def x86_read_rsp_def on_drivers_def Let_def top_of_def t_def)
qed

lemma kernel_main_runs:
  assumes "valid_boot_header (kernel_ram k) p" and "valid_memory_map (load_BOOT_INFO (kernel_ram k) p)"
    and "valid_stack (load_BOOT_INFO (kernel_ram k) p) (kernel_initial_rsp k) (rsp (cpu (drv k)))"
    and mem: "memory_demands L p (kernel_ram k) pm0" and entry: "at_entry k"
    and cpu: "supported_cpu_state (cr4 (cpu (drv k))) (cpu (drv k))" and alive: "serial_alive (cpu (drv k))"
    and src: "irq_source (drv k) = (\<lambda>_. [32])" and regs: "\<And>d. survived d"
  defines "info \<equiv> load_BOOT_INFO (kernel_ram k) p" and "R \<equiv> boot_ram (kernel_ram k) (load_BOOT_INFO (kernel_ram k) p)"
  shows "\<exists>k'. kernel_main y L survived p k = Running k'
    \<and> tabs k' = fst (tables_init y (stack_base info + stack_size info) (tabs k, cpu (drv k)))
    \<and> vm_inv (paged k') \<and> active (vm k') \<and> cr3 (cpu (drv k')) = paging_root (vm k') \<and> bit (cr0 (cpu (drv k'))) 16
    \<and> (\<forall>w. vmap (paged k') w = (if w \<in> R - guard_pages L info then Some (section_mapping L w) else None))
    \<and> pmm_used (pm (vm k')) = tables (vm k') \<and> pmm_avail (pm (vm k')) = pmm_avail pm0 - tables (vm k')
    \<and> outside (pmm_avail pm0) (kernel_ram k) (kernel_ram k')
    \<and> receive_enabled (drv k') \<and> rx_wf (receive_buffer (drv k')) \<and> bit (rflags (cpu (drv k'))) 9"
proof -
  let ?A = "pmm_avail pm0"
  obtain x where e: "vm k = paging_bss x pmm_bss" "irq_ready (drv k)" "\<not> timer_initialized (drv k)"
    "\<not> receive_enabled (drv k)" "rx_wf (receive_buffer (drv k))" using entry by (auto simp: at_entry_def)
  then have IF: "\<not> bit (rflags (cpu (drv k))) 9" by (simp add: irq_ready_def)
  obtain k3 where main: "kernel_main y L survived p k = continue (initialize_memory L p k3) (\<lambda>k.
        continue (initialize_timer survived k) (\<lambda>k.
        case on_drivers serial_enable_receive k of
          (False, k) \<Rightarrow> boot_failure (line_text ''KERNEL ERROR: serial receive IRQ'') k
        | (True, k) \<Rightarrow>
        continue (boot_log (line_text ''KERNEL: serial receive ready (IRQ4, 255-byte buffer)'') k) (\<lambda>k.
        Running (k\<lparr>drv := (drv k)\<lparr>cpu := x86_enable_interrupts (cpu (drv k))\<rparr>\<rparr>))))"
    and k3: "logged (drv k) (drv k3)" "vm k3 = vm k" "kernel_boot_info k3 = p"
      "tabs k3 = fst (tables_init y (stack_base info + stack_size info) (tabs k, cpu (drv k)))"
    using kernel_main_start [OF assms(1-3) IF alive] unfolding info_def by blast
  obtain h where c3: "cpu (drv k3) = (cpu (drv k))\<lparr>io := h\<rparr>" using logged_facts(1) [OF k3(1)] by blast
  obtain k4 where 4: "initialize_memory L p k3 = Running k4" "settled L p (kernel_ram k) ?A (paged k4)"
    "steady (drv k3) (drv k4)" "tabs k4 = tabs k3"
    using initialize_memory_runs [of L p k3 pm0 x] mem cpu IF alive k3(2,3) e(1) by (auto simp: c3)
  have s4: "steady (drv k) (drv k4)" using steady_trans [OF logged_steady [OF k3(1)] 4(3)] .
  have "irq_ready (drv k4)" "\<not> timer_initialized (drv k4)" "irq_source (drv k4) = (\<lambda>_. [32])" "\<not> receive_enabled (drv k4)"
    "rx_wf (receive_buffer (drv k4))" "serial_alive (cpu (drv k4))"
    using s4 e src alive by (simp_all add: steady_def same_io_def same_setup_def irq_ready_def serial_alive_def)
  then obtain d5 where 5: "initialize_timer survived k4 = Running (k4\<lparr>drv := d5\<rparr>)" "same_paging (cpu (drv k4)) (cpu d5)"
    "irq_initialized d5" "\<not> receive_enabled d5" "rx_wf (receive_buffer d5)"
    using initialize_timer_runs [of k4 survived] regs by auto
  have off: "\<not> bit (rflags (cpu d5)) 9" "serial_alive (cpu d5)"
    using 5(2) steady_facts [OF s4] IF alive by (simp_all add: same_paging_def serial_alive_def)
  obtain d6 where 6: "serial_enable_receive d5 = (True, d6)" "same_paging (cpu d5) (cpu d6)"
    by (rule serial_enable_receive_runs [OF 5(4,3) off(1)])
  note r6 = serial_enable_receive_True [OF 6(1)]
  obtain d7 where 7: "boot_log (line_text ''KERNEL: serial receive ready (IRQ4, 255-byte buffer)'') (k4\<lparr>drv := d6\<rparr>) = Running (k4\<lparr>drv := d7\<rparr>)"
    "logged d6 d7" using boot_log_runs [of "k4\<lparr>drv := d6\<rparr>"] r6 6(2) off(2) by (auto simp: same_paging_def serial_alive_def)
  define k' where "k' = k4\<lparr>drv := d7\<lparr>cpu := x86_enable_interrupts (cpu d7)\<rparr>\<rparr>"
  have "kernel_main y L survived p k = Running k'" using main 4(1) 5(1) 6(1) 7(1) by (simp add: on_drivers_def k'_def)
  moreover have same: "same_paging (cpu (drv k4)) (cpu d7)"
    using same_paging_trans [OF same_paging_trans [OF 5(2) 6(2)] logged_paging [OF 7(2)]] .
  then have "ram (cpu (drv k')) = kernel_ram k4" "tlb (cpu (drv k')) = tlb (cpu (drv k4))" "cr3 (cpu (drv k')) = cr3 (cpu (drv k4))"
    "cr0 (cpu (drv k')) = cr0 (cpu (drv k4))" by (simp_all add: k'_def x86_enable_interrupts_def same_paging_def)
  note hw = this and vm = vm_inv_mach [of "cpu (drv k')" "paged k4"]
  have "vm_inv (paged k')" "vmap (paged k') = vmap (paged k4)" using hw vm 4(2) by (simp_all add: k'_def settled_def boot_map_def)
  ultimately show ?thesis
    using hw 4(2,4) k3(4) r6 5(5) logged_facts [OF 7(2)]
    by (intro exI [of _ k'])
      (simp add: settled_def boot_map_def running_def k'_def R_def info_def x86_enable_interrupts_def bit_or_iff)
qed


text \<open>The machine of \<open>live_machine\<close>, with a serial port and a timer.\<close>

definition boot_machine :: machine where
  "boot_machine = live_machine\<lparr>rsp := 0x131f00, device := pc_device\<rparr>"

definition boot_kernel :: kernel where
  "boot_kernel = \<lparr>drv = pc_drivers\<lparr>cpu := boot_machine, irq_source := (\<lambda>_. [32])\<rparr>,
     vm = paging_bss boot_machine pmm_bss, tabs = blank_tables, kernel_boot_info = 0,
     kernel_initial_rsp = 0x132000, kernel_observed_rsp = 0\<rparr>"

lemma boot_kernel_facts:
  "cpu (drv boot_kernel) = boot_machine" "kernel_ram boot_kernel = live_memory"
  "supported_cpu_state (cr4 boot_machine) boot_machine" "serial_alive boot_machine"
  "irq_source (drv boot_kernel) = (\<lambda>_. [32])" "at_entry boot_kernel"
proof -
  show c: "cpu (drv boot_kernel) = boot_machine" "irq_source (drv boot_kernel) = (\<lambda>_. [32])"
    by (simp_all add: boot_kernel_def)
  show "kernel_ram boot_kernel = live_memory" by (simp add: c boot_machine_def live_init_facts(3))
  show "supported_cpu_state (cr4 boot_machine) boot_machine"
    by (simp add: boot_machine_def live_machine_def demo_machine_def supported_cpu_state_def x86_read_rflags_def x86_cpuid_def)
  show "serial_alive boot_machine"
    by (auto simp: serial_alive_def boot_machine_def pc_device_def intro!: exI [of _ 0])
  have "irq_ready (drv boot_kernel)"
    by (simp add: irq_ready_def c) (simp add: boot_kernel_def pc_drivers_def boot_machine_def live_machine_def demo_machine_def
        bit_numeral_word_iff)
  moreover have "vm boot_kernel = paging_bss (cpu (drv boot_kernel)) pmm_bss" by (simp add: c) (simp add: boot_kernel_def)
  moreover have "\<not> timer_initialized (drv boot_kernel)" "\<not> receive_enabled (drv boot_kernel)"
    "rx_wf (receive_buffer (drv boot_kernel))" using demo_buffer_wf by (simp_all add: boot_kernel_def pc_drivers_def)
  ultimately show "at_entry boot_kernel" by (auto simp: at_entry_def)
qed

lemma boot_kernel_header:
  "valid_boot_header (kernel_ram boot_kernel) 0x110000"
  "valid_memory_map (load_BOOT_INFO (kernel_ram boot_kernel) 0x110000)"
  "valid_stack (load_BOOT_INFO (kernel_ram boot_kernel) 0x110000) (kernel_initial_rsp boot_kernel) (rsp (cpu (drv boot_kernel)))"
proof -
  have "rsp (cpu (drv boot_kernel)) = 0x131f00" "kernel_initial_rsp boot_kernel = 0x132000"
    by (simp_all add: boot_kernel_def boot_machine_def)
  then show "valid_boot_header (kernel_ram boot_kernel) 0x110000"
    "valid_memory_map (load_BOOT_INFO (kernel_ram boot_kernel) 0x110000)"
    "valid_stack (load_BOOT_INFO (kernel_ram boot_kernel) 0x110000) (kernel_initial_rsp boot_kernel) (rsp (cpu (drv boot_kernel)))"
    unfolding boot_kernel_facts(2)
    by (simp_all add: valid_boot_header_def valid_memory_map_def valid_stack_def live.info live_info_def Let_def)
qed

context live_map
begin

lemma meets_demands: "memory_demands live_layout 0x110000 m (live_pmm_of m)"
  unfolding memory_demands_def Let_def info
  using init_ok placed demands paths_card avail(2) by (simp add: aligned8_def)

end

lemma boot_kernel_memory: "memory_demands live_layout 0x110000 (kernel_ram boot_kernel) live_pmm"
  unfolding boot_kernel_facts(2) live_pmm_def by (rule live.meets_demands)

text \<open>
  C2: The kernel boots. On a machine that meets the demands of its parts (valid boot information, memory
  as \<open>memory_demands\<close> says, a supported processor state, a working serial port, no x2APIC, and a
  timer whose interrupt wakes the processor and leaves its registers alone), \<open>kernel_main\<close>
  reaches the console, without a fault and past every failure branch. There the descriptor tables are those of
  \<open>tables_init\<close>, the processor runs on its own page tables with exactly the boot map, the only frames in use are
  the tables, no memory outside the frames that were free at first has changed, and interrupts and receiving are on.
\<close>

theorem kernel_main_boots:
  assumes "valid_boot_header (kernel_ram k) p" and "valid_memory_map (load_BOOT_INFO (kernel_ram k) p)"
    and "valid_stack (load_BOOT_INFO (kernel_ram k) p) (kernel_initial_rsp k) (rsp (cpu (drv k)))"
    and mem: "memory_demands L p (kernel_ram k) pm0" and entry: "at_entry k"
    and cpu: "supported_cpu_state (cr4 (cpu (drv k))) (cpu (drv k))" and alive: "serial_alive (cpu (drv k))"
    and src: "irq_source (drv k) = (\<lambda>_. [32])" and regs: "\<And>d. survived d"
  defines "info \<equiv> load_BOOT_INFO (kernel_ram k) p" and "R \<equiv> boot_ram (kernel_ram k) (load_BOOT_INFO (kernel_ram k) p)"
  shows "\<exists>k'. kernel_main y L survived p k = Running k'
    \<and> tabs k' = fst (tables_init y (stack_base info + stack_size info) (tabs k, cpu (drv k)))
    \<and> vm_inv (paged k') \<and> active (vm k') \<and> cr3 (cpu (drv k')) = paging_root (vm k') \<and> bit (cr0 (cpu (drv k'))) 16
    \<and> (\<forall>w. vmap (paged k') w = (if w \<in> R - guard_pages L info then Some (section_mapping L w) else None))
    \<and> pmm_used (pm (vm k')) = tables (vm k') \<and> pmm_avail (pm (vm k')) = pmm_avail pm0 - tables (vm k')
    \<and> outside (pmm_avail pm0) (kernel_ram k) (kernel_ram k')
    \<and> receive_enabled (drv k') \<and> rx_wf (receive_buffer (drv k')) \<and> bit (rflags (cpu (drv k'))) 9"
  unfolding info_def R_def by (rule kernel_main_runs [OF assms(1-9)])

theorem kernel_main_boots_witness:
  "\<exists>k'. kernel_main demo_symbols live_layout (\<lambda>_. True) 0x110000 boot_kernel = Running k'
    \<and> (\<forall>w. vmap (paged k') w = (if w \<in> boot_ram live_memory live_info - guard_pages live_layout live_info
         then Some (section_mapping live_layout w) else None))
    \<and> pmm_used (pm (vm k')) = tables (vm k') \<and> receive_enabled (drv k') \<and> bit (rflags (cpu (drv k'))) 9"
  using kernel_main_boots [OF boot_kernel_header boot_kernel_memory boot_kernel_facts(6), of "\<lambda>_. True" demo_symbols]
    boot_kernel_facts(1-5) live.info by auto

theorem kernel_main_enters_console_witness:
  "\<exists>k'. kernel_main demo_symbols live_layout (\<lambda>_. True) 0x110000 boot_kernel = Running k'
    \<and> kernel_boot_info k' = 0x110000 \<and> timer_initialized (drv k') \<and> receive_enabled (drv k')"
proof -
  obtain k' where k': "kernel_main demo_symbols live_layout (\<lambda>_. True) 0x110000 boot_kernel = Running k'"
    using kernel_main_runs [OF boot_kernel_header boot_kernel_memory boot_kernel_facts(6), of "\<lambda>_. True" demo_symbols]
      boot_kernel_facts(1-5) by auto
  moreover have "rx_wf (receive_buffer (drv boot_kernel))" using boot_kernel_facts(6) by (simp add: at_entry_def)
  ultimately show ?thesis using kernel_main_enters_console [OF k'] by blast
qed

end
