(* ===== verification/ElfProps.thy ===== *)
theory ElfProps
  imports ElfLoader "HOL-Library.Multiset"
begin

text \<open>
  Correctness of the ELF loader: which files it accepts, what memory holds afterwards, and
  what it returns to the firmware.
\<close>

section \<open>Segments\<close>

lemma unat_floor: "unat (a AND NOT 4095 :: u64) = unat a div 4096 * 4096"
proof -
  have m: "(4095 :: u64) = mask 12" by (simp add: mask_eq_exp_minus_1)
  have "a AND NOT 4095 = push_bit 12 (drop_bit 12 a)"
    unfolding m by (rule bit_word_eqI) (auto simp: bit_simps)
  moreover have "unat (push_bit 12 (drop_bit 12 a)) = unat a div 4096 * 4096"
  proof -
    have "unat (a div 4096) * unat (4096 :: u64) < 2 ^ 64" using unat_lt64 [of a] by (simp add: unat_div)
    from unat_mult_no_wrap [OF this] show ?thesis by (simp add: push_bit_eq_mult drop_bit_eq_div unat_div)
  qed
  ultimately show ?thesis by simp
qed

definition loadable :: "ELF_PROGRAM \<Rightarrow> bool" where
  "loadable p \<longleftrightarrow> p_type p = 1 \<and> p_memsz p \<noteq> 0"

text \<open>The bytes a segment occupies, and those of them that come from the file.\<close>

definition seg_range :: "ELF_PROGRAM \<Rightarrow> nat set" where
  "seg_range p = {unat (p_vaddr p)..<unat (p_vaddr p) + unat (p_memsz p)}"

definition file_range :: "ELF_PROGRAM \<Rightarrow> nat set" where
  "file_range p = {unat (p_vaddr p)..<unat (p_vaddr p) + unat (p_filesz p)}"

text \<open>Page-aligned bounds around a segment.\<close>

definition seg_floor :: "ELF_PROGRAM \<Rightarrow> nat" where
  "seg_floor p = unat (p_vaddr p) div 4096 * 4096"

definition seg_ceil :: "ELF_PROGRAM \<Rightarrow> nat" where
  "seg_ceil p = (unat (p_vaddr p) + unat (p_memsz p) + 4095) div 4096 * 4096"

lemma valid_segment_bounds:
  assumes "valid_segment p n"
  shows "unat (p_filesz p) \<le> unat (p_memsz p)" "unat (p_offset p) + unat (p_filesz p) \<le> unat n"
    "0x100000 \<le> unat (p_vaddr p)" "unat (p_vaddr p) + unat (p_memsz p) \<le> 0x100000000"
proof -
  have v: "p_filesz p \<le> p_memsz p" "p_offset p \<le> n" "p_filesz p \<le> n - p_offset p"
    "0x100000 \<le> p_vaddr p" "p_vaddr p < 0x100000000" "p_memsz p \<le> 0x100000000 - p_vaddr p"
    using assms by (auto simp: valid_segment_def split: if_splits)
  show "unat (p_filesz p) \<le> unat (p_memsz p)" "0x100000 \<le> unat (p_vaddr p)"
    using v(1,4) by (simp_all add: word_le_nat_alt)
  have "unat (n - p_offset p) = unat n - unat (p_offset p)" using v(2) by (simp add: unat_sub)
  then show "unat (p_offset p) + unat (p_filesz p) \<le> unat n" using v(2,3) by (simp add: word_le_nat_alt)
  have "unat (0x100000000 - p_vaddr p) = 0x100000000 - unat (p_vaddr p)" using v(5) by (simp add: unat_sub)
  then show "unat (p_vaddr p) + unat (p_memsz p) \<le> 0x100000000"
    using v(5,6) by (simp add: word_le_nat_alt word_less_nat_alt)
qed

lemma valid_segment_words:
  assumes "valid_segment p n"
  shows "unat (p_vaddr p + p_memsz p) = unat (p_vaddr p) + unat (p_memsz p)"
    "unat (p_vaddr p AND NOT 4095) = seg_floor p"
    "unat ((p_vaddr p + p_memsz p + 4095) AND NOT 4095) = seg_ceil p"
proof -
  note b = valid_segment_bounds(4) [OF assms]
  show sum: "unat (p_vaddr p + p_memsz p) = unat (p_vaddr p) + unat (p_memsz p)"
    using b by (simp add: unat_add_no_wrap)
  have "unat (p_vaddr p + p_memsz p + 4095) = unat (p_vaddr p) + unat (p_memsz p) + 4095"
    using b sum by (simp add: unat_add_no_wrap)
  then show "unat ((p_vaddr p + p_memsz p + 4095) AND NOT 4095) = seg_ceil p"
    "unat (p_vaddr p AND NOT 4095) = seg_floor p"
    by (simp_all only: unat_floor seg_ceil_def seg_floor_def)
qed

text \<open>What the loop requires of the program header at index \<open>i\<close>.\<close>

definition seg_ok :: "memory \<Rightarrow> u64 \<Rightarrow> u64 \<Rightarrow> nat \<Rightarrow> bool" where
  "seg_ok m ph n i \<longleftrightarrow> (let p = program m ph (of_nat i) in
     p_type p \<noteq> 2 \<and> p_type p \<noteq> 3 \<and> (p_type p = 1 \<longrightarrow> valid_segment p n)
     \<and> (loadable p \<longrightarrow> (\<forall>j < i. let q = program m ph (of_nat j) in
          loadable q \<longrightarrow> seg_range p \<inter> seg_range q = {})))"

definition entry_in :: "u64 \<Rightarrow> ELF_PROGRAM \<Rightarrow> bool" where
  "entry_in e p \<longleftrightarrow> loadable p \<and> bit (p_flags p) 0 \<and> unat e \<in> file_range p"

lemma overlaps_iff:
  assumes "i < 2 ^ 64" and prev: "\<forall>j < i. seg_ok m ph n j" and cur: "valid_segment (program m ph (of_nat i)) n"
    and mem: "p_memsz (program m ph (of_nat i)) \<noteq> 0"
  shows "overlaps_previous_segment m ph (of_nat i) \<longleftrightarrow>
    (\<exists>j < i. loadable (program m ph (of_nat j))
       \<and> seg_range (program m ph (of_nat i)) \<inter> seg_range (program m ph (of_nat j)) \<noteq> {})"
proof -
  define p where "p = program m ph (of_nat i)"
  let ?P = "\<lambda>k. let q = program m ph k in loadable q \<and> p_vaddr p < p_vaddr q + p_memsz q
    \<and> p_vaddr q < p_vaddr p + p_memsz p"
  have body: "(\<lambda>k (_ :: unit).
        let other = program m ph k in
        if p_type other \<noteq> 1 \<or> p_memsz other = 0 then Inr ()
        else if p_vaddr p \<ge> p_vaddr other + p_memsz other then Inr ()
        else if p_vaddr other < p_vaddr p + p_memsz p then Inl True
        else Inr ()) = (\<lambda>k _. if ?P k then Inl True else Inr ())"
    by (auto simp: fun_eq_iff Let_def loadable_def not_le)
  have i: "unat (of_nat i :: u64) = i" using assms(1) by (rule unat_of_nat64)
  have "overlaps_previous_segment m ph (of_nat i) \<longleftrightarrow> (\<exists>k < i. ?P (of_nat k))"
    unfolding overlaps_previous_segment_def p_def [symmetric] Let_def [of p] body for_ret_search_unit i by auto
  moreover have "?P (of_nat k) \<longleftrightarrow> loadable (program m ph (of_nat k))
      \<and> seg_range p \<inter> seg_range (program m ph (of_nat k)) \<noteq> {}" if "k < i" for k
  proof (cases "loadable (program m ph (of_nat k))")
    case True
    define q where "q = program m ph (of_nat k)"
    have vq: "valid_segment q n" using prev that True by (auto simp: seg_ok_def q_def loadable_def Let_def)
    have "0 < unat (p_memsz p)" "0 < unat (p_memsz q)"
      using mem True by (simp_all add: p_def q_def loadable_def unat_gt_0)
    from intervals_meet [OF this, of "unat (p_vaddr p)" "unat (p_vaddr q)"]
    show ?thesis using True valid_segment_words(1) [OF vq] valid_segment_words(1) [OF cur]
      by (simp add: q_def p_def seg_range_def word_less_nat_alt Let_def)
  qed (simp add: Let_def)
  ultimately show ?thesis unfolding p_def by blast
qed

text \<open>The loop variables after the first \<open>k\<close> headers.\<close>

definition inspected :: "memory \<Rightarrow> u64 \<Rightarrow> u64 \<Rightarrow> u64 \<Rightarrow> nat \<Rightarrow> inspection \<Rightarrow> bool" where
  "inspected m ph e n k s \<longleftrightarrow> (\<forall>i < k. seg_ok m ph n i)
     \<and> (\<forall>i < k. loadable (program m ph (of_nat i)) \<longrightarrow>
          unat (low s) \<le> seg_floor (program m ph (of_nat i)) \<and> seg_ceil (program m ph (of_nat i)) \<le> unat (high s))
     \<and> (low s = UINT64_MAX \<and> high s = 0 \<or>
          (\<exists>i < k. loadable (program m ph (of_nat i)) \<and> unat (low s) = seg_floor (program m ph (of_nat i)))
          \<and> (\<exists>i < k. loadable (program m ph (of_nat i)) \<and> unat (high s) = seg_ceil (program m ph (of_nat i))))
     \<and> (entry_valid s \<longleftrightarrow> (\<exists>i < k. entry_in e (program m ph (of_nat i))))"

lemma entry_test:
  assumes "valid_segment p n" and "p_type p = 1" and "p_memsz p \<noteq> 0"
  shows "p_flags p AND 1 \<noteq> 0 \<and> e \<ge> p_vaddr p \<and> e - p_vaddr p < p_filesz p \<longleftrightarrow> entry_in e p"
proof -
  have "p_flags p AND 1 \<noteq> 0 \<longleftrightarrow> bit (p_flags p) 0"
    using and_exp_eq_0_iff_not_bit [of "p_flags p" 0] by simp
  moreover have "e \<ge> p_vaddr p \<and> e - p_vaddr p < p_filesz p \<longleftrightarrow> unat e \<in> file_range p"
    by (auto simp: file_range_def word_le_nat_alt word_less_nat_alt unat_sub)
  ultimately show ?thesis using assms by (simp add: entry_in_def loadable_def)
qed

lemma less_Suc_all: "(\<forall>i < Suc k. P i) \<longleftrightarrow> (\<forall>i < k. P i) \<and> P k" "(\<exists>i < Suc k. P i) \<longleftrightarrow> (\<exists>i < k. P i) \<or> P k"
  by (auto simp: less_Suc_eq)

lemma seg_floor_less_ceil:
  assumes "p_memsz p \<noteq> 0" and "valid_segment p n"
  shows "seg_floor p < seg_ceil p" "seg_ceil p \<le> 0x100000000" "0x100000 \<le> seg_floor p"
proof -
  note b = valid_segment_bounds [OF assms(2)]
  have "0 < unat (p_memsz p)" using assms(1) by (simp add: unat_gt_0)
  then show "seg_floor p < seg_ceil p" unfolding seg_floor_def seg_ceil_def by linarith
  have "(unat (p_vaddr p) + unat (p_memsz p) + 4095) div 4096 \<le> (0x100000000 + 4095) div 4096"
    by (rule div_le_mono) (use b(4) in simp)
  then show "seg_ceil p \<le> 0x100000000" unfolding seg_ceil_def by simp
  have "0x100000 div 4096 \<le> unat (p_vaddr p) div 4096" using b(3) by (rule div_le_mono)
  then show "0x100000 \<le> seg_floor p" unfolding seg_floor_def by simp
qed

lemma inspected_load:
  assumes s: "inspected m ph e n k s" and p: "loadable (program m ph (of_nat k))" "seg_ok m ph n k"
    and lo: "unat (low s') = min (unat (low s)) (seg_floor (program m ph (of_nat k)))"
    and hi: "unat (high s') = max (unat (high s)) (seg_ceil (program m ph (of_nat k)))"
    and ev: "entry_valid s' \<longleftrightarrow> entry_valid s \<or> entry_in e (program m ph (of_nat k))"
    and top: "seg_floor (program m ph (of_nat k)) \<le> unat UINT64_MAX"
  shows "inspected m ph e n (Suc k) s'"
proof -
  let ?L = "\<lambda>i. loadable (program m ph (of_nat i))"
  let ?f = "\<lambda>i. seg_floor (program m ph (of_nat i))" and ?c = "\<lambda>i. seg_ceil (program m ph (of_nat i))"
  have "(\<exists>i < Suc k. ?L i \<and> unat (low s') = ?f i) \<and> (\<exists>i < Suc k. ?L i \<and> unat (high s') = ?c i)"
  proof (cases "low s = UINT64_MAX \<and> high s = 0")
    case True
    then have "unat (low s') = ?f k" "unat (high s') = ?c k" using lo hi top by simp_all
    then show ?thesis using p(1) by blast
  next
    case False
    then obtain i j where "i < k" "?L i" "unat (low s) = ?f i" "j < k" "?L j" "unat (high s) = ?c j"
      using s by (auto simp: inspected_def)
    then have "\<exists>i' \<in> {i, k}. ?L i' \<and> unat (low s') = ?f i'" "\<exists>j' \<in> {j, k}. ?L j' \<and> unat (high s') = ?c j'"
      using lo hi p(1) by (auto simp: min_def max_def)
    then show ?thesis using \<open>i < k\<close> \<open>j < k\<close> by (auto intro: less_SucI)
  qed
  moreover have "\<forall>i < Suc k. seg_ok m ph n i" using s p(2) by (simp add: inspected_def less_Suc_all)
  moreover have "\<forall>i < Suc k. ?L i \<longrightarrow> unat (low s') \<le> ?f i \<and> ?c i \<le> unat (high s')"
    using s unfolding inspected_def less_Suc_all lo hi by (auto simp: min_le_iff_disj le_max_iff_disj)
  moreover have "entry_valid s' \<longleftrightarrow> (\<exists>i < Suc k. entry_in e (program m ph (of_nat i)))"
    using s ev unfolding inspected_def less_Suc_all by blast
  ultimately show ?thesis unfolding inspected_def by blast
qed

lemma inspect_segment_step:
  assumes k: "k < 2 ^ 64" and s: "inspected m ph (e_entry h) n k s"
  shows "case inspect_segment m ph h n (of_nat k) s of
      Inl st \<Rightarrow> \<not> seg_ok m ph n k \<and> EFI_ERROR st
    | Inr s' \<Rightarrow> inspected m ph (e_entry h) n (Suc k) s'"
proof -
  define p where "p = program m ph (of_nat k)"
  have prev: "\<forall>j < k. seg_ok m ph n j" using s by (simp add: inspected_def)
  have err: "EFI_ERROR EFI_UNSUPPORTED" "EFI_ERROR EFI_LOAD_ERROR"
    by (simp_all add: EFI_ERROR_def EFI_UNSUPPORTED_def EFI_LOAD_ERROR_def EFI_ERROR_BIT_def)
  consider (dyn) "p_type p = 2 \<or> p_type p = 3" | (skip) "p_type p \<noteq> 2" "p_type p \<noteq> 3" "p_type p \<noteq> 1"
    | (bad) "p_type p = 1" "\<not> valid_segment p n" | (empty) "p_type p = 1" "valid_segment p n" "p_memsz p = 0"
    | (load) "p_type p = 1" "valid_segment p n" "p_memsz p \<noteq> 0" by blast
  then show ?thesis
  proof cases
    case dyn
    then show ?thesis using err by (auto simp: inspect_segment_def p_def [symmetric] seg_ok_def Let_def)
  next
    case skip
    then have "inspect_segment m ph h n (of_nat k) s = Inr s" "seg_ok m ph n k" "\<not> loadable p" "\<not> entry_in (e_entry h) p"
      by (simp_all add: inspect_segment_def p_def [symmetric] seg_ok_def loadable_def entry_in_def Let_def)
    then show ?thesis using s by (auto simp: inspected_def less_Suc_all p_def [symmetric])
  next
    case bad
    then show ?thesis using err by (simp add: inspect_segment_def p_def [symmetric] seg_ok_def Let_def)
  next
    case empty
    then have "inspect_segment m ph h n (of_nat k) s = Inr s" "seg_ok m ph n k" "\<not> loadable p" "\<not> entry_in (e_entry h) p"
      by (simp_all add: inspect_segment_def p_def [symmetric] seg_ok_def loadable_def entry_in_def Let_def)
    then show ?thesis using s by (auto simp: inspected_def less_Suc_all p_def [symmetric])
  next
    case load
    have lp: "loadable p" using load by (simp add: loadable_def)
    have ov: "overlaps_previous_segment m ph (of_nat k) \<longleftrightarrow> \<not> seg_ok m ph n k"
      using overlaps_iff [OF k prev] load lp by (auto simp: p_def seg_ok_def Let_def)
    show ?thesis
    proof (cases "overlaps_previous_segment m ph (of_nat k)")
      case True
      then show ?thesis using load ov err by (simp add: inspect_segment_def p_def [symmetric] Let_def)
    next
      case False
      define b where "b = p_vaddr p AND NOT 4095"
      define c where "c = (p_vaddr p + p_memsz p + 4095) AND NOT 4095"
      note w = valid_segment_words [OF load(2), folded b_def c_def]
      define s' where "s' = \<lparr>low = (if b < low s then b else low s), high = (if c > high s then c else high s),
        entry_valid = (entry_valid s \<or> entry_in (e_entry h) p)\<rparr>"
      have r: "inspect_segment m ph h n (of_nat k) s = Inr s'"
        unfolding inspect_segment_def p_def [symmetric] Let_def b_def [symmetric] c_def [symmetric]
        using load False entry_test [OF load(2,1,3), of "e_entry h"] by (cases s) (simp add: s'_def)
      have lo: "unat (low s') = min (unat (low s)) (seg_floor p)" and hi: "unat (high s') = max (unat (high s)) (seg_ceil p)"
        unfolding s'_def by (simp_all add: word_less_nat_alt w)
      have ev: "entry_valid s' \<longleftrightarrow> entry_valid s \<or> entry_in (e_entry h) p" by (simp add: s'_def)
      have "seg_floor p \<le> unat UINT64_MAX"
        using seg_floor_less_ceil [OF load(3,2)] by (simp add: unat_UINT64_MAX)
      then have "inspected m ph (e_entry h) n (Suc k) s'"
        using s lp ov False by (intro inspected_load) (simp_all add: lo hi ev p_def)
      then show ?thesis using r by simp
    qed
  qed
qed


section \<open>Which files are accepted\<close>

abbreviation (input) phdr :: "memory \<Rightarrow> u64 \<Rightarrow> ELF_HEADER \<Rightarrow> nat \<Rightarrow> ELF_PROGRAM" where
  "phdr m data h i \<equiv> program m (data + e_phoff h) (of_nat i)"

definition acceptable :: "memory \<Rightarrow> u64 \<Rightarrow> ELF_HEADER \<Rightarrow> u64 \<Rightarrow> bool" where
  "acceptable m data h n \<longleftrightarrow> (\<forall>i < unat (e_phnum h). seg_ok m (data + e_phoff h) n i)
     \<and> (\<exists>i < unat (e_phnum h). entry_in (e_entry h) (phdr m data h i))
     \<and> (\<forall>i < unat (e_phnum h). \<forall>j < unat (e_phnum h). loadable (phdr m data h i) \<longrightarrow>
          loadable (phdr m data h j) \<longrightarrow> seg_ceil (phdr m data h i) \<le> seg_floor (phdr m data h j) + 0x4000000)"

text \<open>The page-aligned hull of the loadable segments.\<close>

definition image_hull :: "memory \<Rightarrow> u64 \<Rightarrow> ELF_HEADER \<Rightarrow> IMAGE_RANGE \<Rightarrow> bool" where
  "image_hull m data h img \<longleftrightarrow>
     (\<forall>i < unat (e_phnum h). loadable (phdr m data h i) \<longrightarrow>
        unat (range_base img) \<le> seg_floor (phdr m data h i) \<and> seg_ceil (phdr m data h i) \<le> unat (range_end img))
     \<and> (\<exists>i < unat (e_phnum h). loadable (phdr m data h i) \<and> unat (range_base img) = seg_floor (phdr m data h i))
     \<and> (\<exists>i < unat (e_phnum h). loadable (phdr m data h i) \<and> unat (range_end img) = seg_ceil (phdr m data h i))"

lemma phnum64: "unat (ucast (k :: u16) :: u64) = unat k"
  by (simp add: unsigned_ucast_eq take_bit_nat_eq_self_iff less_trans [OF unsigned_less])

lemma seg_ok_valid: "seg_ok m ph n i \<Longrightarrow> loadable (program m ph (of_nat i)) \<Longrightarrow> valid_segment (program m ph (of_nat i)) n"
  by (simp add: seg_ok_def loadable_def Let_def)

lemma inspect_loop:
  "case for_ret 0 (ucast (e_phnum h)) (inspect_segment m ph h n) \<lparr>low = UINT64_MAX, high = 0, entry_valid = False\<rparr> of
     Inl st \<Rightarrow> (\<exists>i < unat (e_phnum h). \<not> seg_ok m ph n i) \<and> EFI_ERROR st
   | Inr s \<Rightarrow> inspected m ph (e_entry h) n (unat (e_phnum h)) s"
proof -
  define N where "N = unat (e_phnum h)"
  define s0 where "s0 = \<lparr>low = UINT64_MAX, high = 0, entry_valid = False\<rparr>"
  have "N < 2 ^ LENGTH(16)" unfolding N_def by (rule unsigned_less)
  then have big: "N < 2 ^ 64" by simp
  have "case for_ret 0 (ucast (e_phnum h)) (inspect_segment m ph h n) s0 of
      Inl st \<Rightarrow> (\<exists>i < N. \<not> seg_ok m ph n i) \<and> EFI_ERROR st
    | Inr s \<Rightarrow> inspected m ph (e_entry h) n (unat (ucast (e_phnum h) :: u64)) s"
  proof (rule for_ret_inv)
    show "inspected m ph (e_entry h) n (unat (0 :: u64)) s0" by (simp add: inspected_def s0_def)
    fix k t assume "k < unat (ucast (e_phnum h) :: u64)" and t: "inspected m ph (e_entry h) n k t"
    then have k: "k < N" by (simp add: phnum64 N_def)
    then have k64: "k < 2 ^ 64" using big by simp
    show "case inspect_segment m ph h n (of_nat k) t of
        Inl st \<Rightarrow> (\<exists>i < N. \<not> seg_ok m ph n i) \<and> EFI_ERROR st
      | Inr t' \<Rightarrow> inspected m ph (e_entry h) n (Suc k) t'"
      using inspect_segment_step [OF k64 t] k by (auto split: sum.splits)
  qed simp
  then show ?thesis unfolding phnum64 N_def s0_def .
qed

text \<open>The bounds after the loop are those of the hull; the 64 MiB limit on them is a limit on any two segments.\<close>

lemma inspected_hull:
  assumes s: "inspected m ph e n N s" and "entry_valid s"
  defines "L \<equiv> \<lambda>i. loadable (program m ph (of_nat i))"
    and "lo \<equiv> \<lambda>i. seg_floor (program m ph (of_nat i))" and "hi \<equiv> \<lambda>i. seg_ceil (program m ph (of_nat i))"
  shows "\<And>i. L i \<Longrightarrow> i < N \<Longrightarrow> unat (low s) \<le> lo i \<and> hi i \<le> unat (high s)" and "unat (low s) < unat (high s)"
    and "\<exists>i < N. L i \<and> unat (low s) = lo i" and "\<exists>j < N. L j \<and> unat (high s) = hi j"
    and "(unat (high s) \<le> unat (low s) + 0x4000000) \<longleftrightarrow> (\<forall>i < N. \<forall>j < N. L i \<longrightarrow> L j \<longrightarrow> hi i \<le> lo j + 0x4000000)"
proof -
  obtain e where e: "e < N" "L e" using assms by (auto simp: inspected_def entry_in_def)
  have "valid_segment (program m ph (of_nat e)) n" using s e seg_ok_valid by (auto simp: inspected_def L_def)
  then have "lo e < hi e" using seg_floor_less_ceil(1) e(2) by (auto simp: loadable_def lo_def hi_def L_def)
  moreover show bnd: "unat (low s) \<le> lo i \<and> hi i \<le> unat (high s)" if "L i" "i < N" for i
    using s that by (simp add: inspected_def L_def lo_def hi_def)
  ultimately show lh: "unat (low s) < unat (high s)" using e by (meson le_less_trans less_le_trans)
  then have "high s \<noteq> 0" by auto
  then obtain i j where ij: "i < N" "L i" "unat (low s) = lo i" "j < N" "L j" "unat (high s) = hi j"
    using s by (auto simp: inspected_def L_def lo_def hi_def)
  then show "\<exists>i < N. L i \<and> unat (low s) = lo i" "\<exists>j < N. L j \<and> unat (high s) = hi j" by auto
  show "(unat (high s) \<le> unat (low s) + 0x4000000) \<longleftrightarrow> (\<forall>i < N. \<forall>j < N. L i \<longrightarrow> L j \<longrightarrow> hi i \<le> lo j + 0x4000000)"
  proof (intro iffI allI impI)
    fix i' j' assume "unat (high s) \<le> unat (low s) + 0x4000000" "i' < N" "j' < N" "L i'" "L j'"
    then show "hi i' \<le> lo j' + 0x4000000" using bnd [of i'] bnd [of j'] by linarith
  next
    assume "\<forall>i < N. \<forall>j < N. L i \<longrightarrow> L j \<longrightarrow> hi i \<le> lo j + 0x4000000"
    then have "hi j \<le> lo i + 0x4000000" using ij by blast
    then show "unat (high s) \<le> unat (low s) + 0x4000000" using ij by simp
  qed
qed

lemma wider_than_64M:
  fixes a b :: u64
  assumes "unat a < unat b"
  shows "b - a > 64 * 1024 * 1024 \<longleftrightarrow> unat a + 0x4000000 < unat b"
proof -
  have "unat (b - a) = unat b - unat a" using assms by (simp add: unat_sub word_le_nat_alt)
  moreover have "unat (64 * 1024 * 1024 :: u64) = 0x4000000" by simp
  ultimately have "b - a > 64 * 1024 * 1024 \<longleftrightarrow> 0x4000000 < unat b - unat a" by (simp only: word_less_nat_alt)
  then show ?thesis by linarith
qed

lemma inspect_segments_cases:
  "case inspect_segments m data h n of
     Inl st \<Rightarrow> \<not> acceptable m data h n \<and> EFI_ERROR st
   | Inr img \<Rightarrow> acceptable m data h n \<and> image_hull m data h img"
proof -
  define ph where "ph = data + e_phoff h"
  define N where "N = unat (e_phnum h)"
  define s0 where "s0 = \<lparr>low = UINT64_MAX, high = 0, entry_valid = False\<rparr>"
  have err: "EFI_ERROR EFI_LOAD_ERROR"
    by (simp add: EFI_ERROR_def EFI_LOAD_ERROR_def EFI_ERROR_BIT_def)
  note loop = inspect_loop [of h m ph n, folded N_def s0_def]
  show ?thesis
  proof (cases "for_ret 0 (ucast (e_phnum h)) (inspect_segment m ph h n) s0")
    case (Inl st)
    then show ?thesis using loop
      by (auto simp: inspect_segments_def acceptable_def ph_def N_def s0_def Let_def)
  next
    case (Inr s)
    then have s: "inspected m ph (e_entry h) n N s" using loop by simp
    have r: "inspect_segments m data h n =
        (if \<not> entry_valid s \<or> high s \<le> low s \<or> high s - low s > 64 * 1024 * 1024 then Inl EFI_LOAD_ERROR
         else Inr \<lparr>range_base = low s, range_end = high s\<rparr>)"
      using Inr by (simp add: inspect_segments_def ph_def s0_def Let_def)
    show ?thesis
    proof (cases "entry_valid s")
      case False
      then have "\<not> (\<exists>i < N. entry_in (e_entry h) (program m ph (of_nat i)))" using s by (simp add: inspected_def)
      then show ?thesis using r False err by (simp add: acceptable_def ph_def N_def)
    next
      case True
      note hull = inspected_hull [OF s True]
      have "\<forall>i < N. seg_ok m ph n i" "\<exists>i < N. entry_in (e_entry h) (program m ph (of_nat i))"
        using s True by (simp_all add: inspected_def)
      then have "acceptable m data h n \<longleftrightarrow> unat (high s) \<le> unat (low s) + 0x4000000"
        unfolding acceptable_def ph_def [symmetric] N_def [symmetric] hull(5) by blast
      moreover have "\<not> high s \<le> low s" using hull(2) by (simp add: word_le_nat_alt)
      ultimately have "if acceptable m data h n then inspect_segments m data h n = Inr \<lparr>range_base = low s, range_end = high s\<rparr>
          else inspect_segments m data h n = Inl EFI_LOAD_ERROR"
        using r True wider_than_64M [OF hull(2)] by simp
      moreover have "image_hull m data h \<lparr>range_base = low s, range_end = high s\<rparr>"
        using hull(1,3,4) by (auto simp: image_hull_def ph_def N_def)
      ultimately show ?thesis using err by (auto split: if_splits)
    qed
  qed
qed


section \<open>What memory holds\<close>

lemma offset_eq: "k < 2 ^ 64 \<Longrightarrow> (b :: u64) = a + of_nat k \<longleftrightarrow> unat (b - a) = k"
proof -
  assume "k < 2 ^ 64"
  moreover have "b = a + of_nat k \<longleftrightarrow> b - a = of_nat k" by (auto simp: algebra_simps)
  ultimately show ?thesis by (simp add: word_unat_eq_iff unat_of_nat64)
qed

lemma zero_bytes_eq: "zero_bytes a n m = (\<lambda>b. if unat (b - a) < unat n then 0 else m b)"
proof -
  have "for_up 0 n (\<lambda>i m. m(a + i := 0)) m = (\<lambda>b. if unat (b - a) < unat n then 0 else m b)"
  proof (rule for_up_inv [where P = "\<lambda>k t. t = (\<lambda>b. if unat (b - a) < k then 0 else m b)"])
    fix k t assume k: "k < unat n" and t: "t = (\<lambda>b. if unat (b - a) < k then 0 else m b)"
    have "b = a + of_nat k \<longleftrightarrow> unat (b - a) = k" for b
      using k unat_lt64 [of n] by (intro offset_eq) simp
    then show "t(a + of_nat k := 0) = (\<lambda>b. if unat (b - a) < Suc k then 0 else m b)"
      by (auto simp: t fun_eq_iff less_Suc_eq)
  qed simp_all
  then show ?thesis by (simp add: zero_bytes_def)
qed

lemma copy_bytes_eq:
  assumes apart: "\<And>i. i < unat n \<Longrightarrow> unat n \<le> unat (src + of_nat i - dst)"
  shows "copy_bytes dst src n m = (\<lambda>b. if unat (b - dst) < unat n then m (src + (b - dst)) else m b)"
proof -
  have "for_up 0 n (\<lambda>j m. m(dst + j := m (src + j))) m
      = (\<lambda>b. if unat (b - dst) < unat n then m (src + (b - dst)) else m b)"
  proof (rule for_up_inv [where P = "\<lambda>k t. t = (\<lambda>b. if unat (b - dst) < k then m (src + (b - dst)) else m b)"])
    fix k t assume k: "k < unat n" and t: "t = (\<lambda>b. if unat (b - dst) < k then m (src + (b - dst)) else m b)"
    have eq: "b = dst + of_nat k \<longleftrightarrow> unat (b - dst) = k" for b
      using k unat_lt64 [of n] by (intro offset_eq) simp
    have "t (src + of_nat k) = m (src + of_nat k)" using apart [OF k] k by (simp add: t)
    then show "t(dst + of_nat k := t (src + of_nat k))
        = (\<lambda>b. if unat (b - dst) < Suc k then m (src + (b - dst)) else m b)"
      using eq by (auto simp: t fun_eq_iff less_Suc_eq)
  qed simp_all
  then show ?thesis by (simp add: copy_bytes_def)
qed

text \<open>The byte of the file that a segment puts at an address.\<close>

definition file_byte :: "memory \<Rightarrow> u64 \<Rightarrow> ELF_PROGRAM \<Rightarrow> u64 \<Rightarrow> u8" where
  "file_byte m data p b = m (data + p_offset p + (b - p_vaddr p))"

text \<open>
  The first \<open>k\<close> segments are in place: their file bytes, zeros elsewhere in the image, and
  the memory outside the image as before.
\<close>

definition image_upto :: "memory \<Rightarrow> u64 \<Rightarrow> u64 \<Rightarrow> nat set \<Rightarrow> nat \<Rightarrow> memory \<Rightarrow> bool" where
  "image_upto m data ph R k t \<longleftrightarrow>
     (\<forall>i < k. \<forall>b. p_type (program m ph (of_nat i)) = 1 \<longrightarrow> unat b \<in> file_range (program m ph (of_nat i)) \<longrightarrow>
        t b = file_byte m data (program m ph (of_nat i)) b)
     \<and> (\<forall>b. unat b \<in> R \<longrightarrow> (\<forall>i < k. p_type (program m ph (of_nat i)) = 1 \<longrightarrow>
        unat b \<notin> file_range (program m ph (of_nat i))) \<longrightarrow> t b = 0)
     \<and> (\<forall>b. unat b \<notin> R \<longrightarrow> t b = m b)"

lemma load_ELF_PROGRAM_same: "same_bytes m m' a 56 \<Longrightarrow> load_ELF_PROGRAM m' a = load_ELF_PROGRAM m a"
  using same_bytes_load [of m m' a 56 0 4] same_bytes_load [of m m' a 56 4 4]
    same_bytes_load [of m m' a 56 8 8] same_bytes_load [of m m' a 56 16 8]
    same_bytes_load [of m m' a 56 24 8] same_bytes_load [of m m' a 56 32 8]
    same_bytes_load [of m m' a 56 40 8] same_bytes_load [of m m' a 56 48 8]
  by (simp add: load_ELF_PROGRAM_def load32_def load64_def)

lemma in_file_range: "unat p + unat n < 2 ^ 64 \<Longrightarrow> unat ((b :: u64) - p) < unat n \<longleftrightarrow> unat b \<in> {unat p..<unat p + unat n}"
  for p n :: u64
proof -
  assume nw: "unat p + unat n < 2 ^ 64"
  show ?thesis
  proof (cases "p \<le> b")
    case True
    then show ?thesis by (auto simp: unat_sub word_le_nat_alt)
  next
    case False
    then have "unat b < unat p" by (simp add: word_le_nat_alt)
    moreover from this have "unat (b - p) = 2 ^ 64 + unat b - unat p"
      using unat_lt64 [of p] by (simp add: unat_sub_if' word_le_nat_alt)
    ultimately show ?thesis using nw by auto
  qed
qed

text \<open>
  The file lies outside the image, in one piece: what \<open>AllocatePages\<close> at the image's address
  guarantees for a buffer that was allocated before.
\<close>

definition file_apart :: "u64 \<Rightarrow> u64 \<Rightarrow> nat set \<Rightarrow> bool" where
  "file_apart data n R \<longleftrightarrow> unat data + unat n < 2 ^ 64 \<and> {unat data..<unat data + unat n} \<inter> R = {}"

lemma file_apart_same:
  assumes "file_apart data n R" and "\<And>b. unat b \<notin> R \<Longrightarrow> t b = m b" and "k + j \<le> unat n"
  shows "same_bytes m t (data + of_nat k) j"
proof -
  have "t (data + of_nat k + of_nat i) = m (data + of_nat k + of_nat i)" if "i < j" for i
  proof (rule assms(2))
    have "unat data + (k + i) < 2 ^ 64" using assms(1,3) that by (simp add: file_apart_def)
    then have "unat (data + of_nat (k + i)) = unat data + (k + i)"
      by (simp add: unat_add_no_wrap unat_of_nat64 del: of_nat_add)
    then have "unat (data + of_nat (k + i)) \<in> {unat data..<unat data + unat n}" using assms(3) that by simp
    then have "unat (data + of_nat (k + i)) \<notin> R" using assms(1) by (auto simp: file_apart_def)
    then show "unat (data + of_nat k + of_nat i) \<notin> R" by (simp add: add.assoc)
  qed
  then show ?thesis by (simp add: same_bytes_def)
qed

lemma file_range_subset: "valid_segment p n \<Longrightarrow> file_range p \<subseteq> seg_range p"
  using valid_segment_bounds(1) [of p n] by (auto simp: file_range_def seg_range_def)

lemma seg_ok_disjoint:
  assumes "seg_ok m ph n k" and "seg_ok m ph n i" and "i < k"
    and "p_type (program m ph (of_nat k)) = 1" and "p_type (program m ph (of_nat i)) = 1"
  shows "file_range (program m ph (of_nat k)) \<inter> file_range (program m ph (of_nat i)) = {}"
proof -
  define p q where "p = program m ph (of_nat k)" and "q = program m ph (of_nat i)"
  have v: "valid_segment p n" "valid_segment q n" using assms by (simp_all add: seg_ok_def p_def q_def Let_def)
  have empty: "file_range r = {}" if "valid_segment r n" "p_memsz r = 0" for r
    using file_range_subset [OF that(1)] that(2) by (simp add: seg_range_def)
  show ?thesis
  proof (cases "loadable p \<and> loadable q")
    case True
    then have "seg_range p \<inter> seg_range q = {}" using assms(1,3) by (auto simp: seg_ok_def p_def q_def Let_def)
    then show ?thesis using v file_range_subset unfolding p_def q_def by blast
  next
    case False
    then show ?thesis using empty v assms(4,5) by (auto simp: loadable_def p_def q_def)
  qed
qed

lemma copy_segment_step:
  assumes t: "image_upto m data ph R k t" and apart: "file_apart data n R"
    and hdr: "program t ph (of_nat k) = program m ph (of_nat k)"
    and ok: "\<forall>i \<le> k. seg_ok m ph n i"
    and sub: "p_type (program m ph (of_nat k)) = 1 \<Longrightarrow> file_range (program m ph (of_nat k)) \<subseteq> R"
  shows "image_upto m data ph R (Suc k) (copy_segment data ph (of_nat k) t)"
proof -
  define p where "p = program m ph (of_nat k)"
  show ?thesis
  proof (cases "p_type p = 1")
    case False
    then show ?thesis using t hdr
      by (simp add: image_upto_def copy_segment_def less_Suc_all all_conj_distrib p_def [symmetric] Let_def)
  next
    case True
    have v: "valid_segment p n" using ok True by (auto simp: seg_ok_def p_def Let_def)
    note b = valid_segment_bounds [OF v]
    have fr: "unat (x - p_vaddr p) < unat (p_filesz p) \<longleftrightarrow> unat x \<in> file_range p" for x
      unfolding file_range_def using b by (intro in_file_range) simp
    have src: "unat (data + p_offset p + of_nat i) \<notin> R" "t (data + p_offset p + of_nat i) = m (data + p_offset p + of_nat i)"
      if "i < unat (p_filesz p)" for i
    proof -
      have "unat (p_offset p) + i < unat n" using b(2) that by simp
      moreover from this have "unat data + (unat (p_offset p) + i) < 2 ^ 64" using apart by (simp add: file_apart_def)
      ultimately have "unat (data + (p_offset p + of_nat i)) \<in> {unat data..<unat data + unat n}"
        by (simp add: unat_add_no_wrap unat_of_nat64)
      then show "unat (data + p_offset p + of_nat i) \<notin> R" using apart by (auto simp: file_apart_def add.assoc)
      then show "t (data + p_offset p + of_nat i) = m (data + p_offset p + of_nat i)"
        using t by (simp add: image_upto_def)
    qed
    have "unat (p_filesz p) \<le> unat (data + p_offset p + of_nat i - p_vaddr p)" if "i < unat (p_filesz p)" for i
    proof (rule ccontr)
      assume "\<not> ?thesis"
      then have "unat (data + p_offset p + of_nat i) \<in> file_range p"
        using fr [of "data + p_offset p + of_nat i"] by simp
      then show False using src(1) [OF that] sub True by (auto simp: p_def)
    qed
    note copy = copy_bytes_eq [of "p_filesz p" "data + p_offset p" "p_vaddr p" t, OF this]
    define u where "u = copy_segment data ph (of_nat k) t"
    have u: "u x = (if unat x \<in> file_range p then t (data + p_offset p + (x - p_vaddr p)) else t x)" for x
      using True hdr copy fr by (simp add: u_def copy_segment_def p_def [symmetric] Let_def)
    have here: "u x = file_byte m data p x" if "unat x \<in> file_range p" for x
      using u [of x] src(2) [of "unat (x - p_vaddr p)"] fr [of x] that by (simp add: file_byte_def)
    have disj: "file_range p \<inter> file_range (program m ph (of_nat i)) = {}"
      if "i < k" "p_type (program m ph (of_nat i)) = 1" for i
      using seg_ok_disjoint [of m ph n k i] ok that True by (simp add: p_def)
    have "image_upto m data ph R (Suc k) u" unfolding image_upto_def
    proof (intro conjI allI impI)
      fix i and x :: u64 assume i: "i < Suc k" "p_type (program m ph (of_nat i)) = 1" "unat x \<in> file_range (program m ph (of_nat i))"
      show "u x = file_byte m data (program m ph (of_nat i)) x"
      proof (cases "i = k")
        case True
        then show ?thesis using i here by (simp add: p_def)
      next
        case False
        then have "unat x \<notin> file_range p" using disj [of i] i by auto
        then show ?thesis using u [of x] t i False by (simp add: image_upto_def)
      qed
    next
      fix x :: u64 assume "unat x \<in> R" "\<forall>i < Suc k. p_type (program m ph (of_nat i)) = 1 \<longrightarrow> unat x \<notin> file_range (program m ph (of_nat i))"
      then show "u x = 0" using u [of x] t True by (simp add: image_upto_def less_Suc_all p_def [symmetric])
    next
      fix x :: u64 assume "unat x \<notin> R"
      then show "u x = m x" using u [of x] t sub True by (auto simp: image_upto_def p_def)
    qed
    then show ?thesis by (simp add: u_def)
  qed
qed

definition img_range :: "IMAGE_RANGE \<Rightarrow> nat set" where
  "img_range img = {unat (range_base img)..<unat (range_end img)}"

lemma valid_table:
  assumes "valid_elf_header h n" and "i < unat (e_phnum h)"
  shows "unat (e_phoff h) + 56 * i + 56 \<le> unat n"
proof -
  have v: "e_phoff h \<le> n" "ucast (e_phnum h) \<le> (n - e_phoff h) div 56"
    using assms(1) by (auto simp: valid_elf_header_def Let_def split: if_splits)
  have "unat (ucast (e_phnum h) :: u64) \<le> unat ((n - e_phoff h) div 56)" using v(2) by (simp add: word_le_nat_alt)
  then have "unat (e_phnum h) \<le> (unat n - unat (e_phoff h)) div 56"
    using v(1) by (simp add: phnum64 unat_div unat_sub)
  then have "unat (e_phnum h) * 56 \<le> unat n - unat (e_phoff h)" by (simp add: less_eq_div_iff_mult_less_eq)
  moreover have "56 * i + 56 \<le> unat (e_phnum h) * 56" using assms(2) by simp
  moreover have "unat (e_phoff h) \<le> unat n" using v(1) by (simp add: word_le_nat_alt)
  ultimately show ?thesis by linarith
qed

lemma hull_facts:
  assumes "acceptable m data h n" and "image_hull m data h img"
  shows "unat (range_base img) < unat (range_end img)" "0x100000 \<le> unat (range_base img)"
    "unat (range_end img) \<le> 0x100000000" "unat (range_end img) \<le> unat (range_base img) + 0x4000000"
    "4096 dvd unat (range_base img)" "4096 dvd unat (range_end img)"
    "i < unat (e_phnum h) \<Longrightarrow> p_type (phdr m data h i) = 1 \<Longrightarrow> seg_range (phdr m data h i) \<subseteq> img_range img"
proof -
  let ?p = "phdr m data h"
  have ok: "valid_segment (?p i) n" if "i < unat (e_phnum h)" "p_type (?p i) = 1" for i
    using assms(1) that by (auto simp: acceptable_def seg_ok_def Let_def)
  obtain a b where a: "a < unat (e_phnum h)" "loadable (?p a)" "unat (range_base img) = seg_floor (?p a)"
    and b: "b < unat (e_phnum h)" "loadable (?p b)" "unat (range_end img) = seg_ceil (?p b)"
    using assms(2) by (auto simp: image_hull_def)
  have hull: "unat (range_base img) \<le> seg_floor (?p i) \<and> seg_ceil (?p i) \<le> unat (range_end img)"
    if "i < unat (e_phnum h)" "loadable (?p i)" for i using assms(2) that by (simp add: image_hull_def)
  have va: "valid_segment (?p a) n" "valid_segment (?p b) n" using ok a b by (simp_all add: loadable_def)
  have ne: "p_memsz (?p a) \<noteq> 0" "p_memsz (?p b) \<noteq> 0" using a b by (simp_all add: loadable_def)
  show "0x100000 \<le> unat (range_base img)" using seg_floor_less_ceil(3) [OF ne(1) va(1)] a(3) by simp
  show "unat (range_end img) \<le> 0x100000000" using seg_floor_less_ceil(2) [OF ne(2) va(2)] b(3) by simp
  show "unat (range_base img) < unat (range_end img)"
    using seg_floor_less_ceil(1) [OF ne(1) va(1)] hull [OF a(1,2)] a(3) by linarith
  show "unat (range_end img) \<le> unat (range_base img) + 0x4000000"
    using assms(1) a b by (simp add: acceptable_def)
  show "4096 dvd unat (range_base img)" "4096 dvd unat (range_end img)"
    using a(3) b(3) by (simp_all add: seg_floor_def seg_ceil_def)
  assume i: "i < unat (e_phnum h)" "p_type (?p i) = 1"
  show "seg_range (?p i) \<subseteq> img_range img"
  proof (cases "p_memsz (?p i) = 0")
    case False
    then have "unat (range_base img) \<le> seg_floor (?p i)" "seg_ceil (?p i) \<le> unat (range_end img)"
      using hull [OF i(1)] i(2) by (simp_all add: loadable_def)
    moreover have "seg_floor (?p i) \<le> unat (p_vaddr (?p i))" by (simp add: seg_floor_def)
    moreover have "unat (p_vaddr (?p i)) + unat (p_memsz (?p i)) \<le> seg_ceil (?p i)"
      unfolding seg_ceil_def by linarith
    ultimately show ?thesis by (auto simp: seg_range_def img_range_def)
  qed (simp add: seg_range_def)
qed

lemma copy_segments_image:
  assumes acc: "acceptable m data h n" and hull: "image_hull m data h img" and h: "valid_elf_header h n"
    and apart: "file_apart data n (img_range img)"
  shows "image_upto m data (data + e_phoff h) (img_range img) (unat (e_phnum h)) (copy_segments data h img m)"
proof -
  define ph where "ph = data + e_phoff h"
  define m0 where "m0 = zero_bytes (range_base img) (range_end img - range_base img) m"
  note facts = hull_facts [OF acc hull]
  have len: "unat (range_end img - range_base img) = unat (range_end img) - unat (range_base img)"
    using facts(1) by (simp add: unat_sub word_le_nat_alt)
  have inR: "unat (b - range_base img) < unat (range_end img - range_base img) \<longleftrightarrow> unat b \<in> img_range img" for b
    using in_file_range [of "range_base img" "range_end img - range_base img" b] facts(1,3)
    by (simp add: len img_range_def)
  have m0: "image_upto m data ph (img_range img) 0 m0"
    by (simp add: image_upto_def m0_def zero_bytes_eq inR)
  have "image_upto m data ph (img_range img) (unat (ucast (e_phnum h) :: u64))
      (for_up 0 (ucast (e_phnum h)) (copy_segment data ph) m0)"
  proof (rule for_up_inv [where P = "image_upto m data ph (img_range img)"])
    fix k t assume "k < unat (ucast (e_phnum h) :: u64)" and t: "image_upto m data ph (img_range img) k t"
    then have k: "k < unat (e_phnum h)" by (simp add: phnum64)
    have "data + of_nat (unat (e_phoff h) + 56 * k) = ph + 56 * of_nat k" by (simp add: ph_def)
    moreover have "same_bytes m t (data + of_nat (unat (e_phoff h) + 56 * k)) 56"
      using valid_table [OF h k] t by (intro file_apart_same [OF apart]) (simp_all add: image_upto_def)
    ultimately have "same_bytes m t (ph + 56 * of_nat k) 56" by (simp only:)
    then have hdr: "program t ph (of_nat k) = program m ph (of_nat k)"
      by (simp add: program_def load_ELF_PROGRAM_same)
    have ok: "\<forall>i \<le> k. seg_ok m ph n i" using acc k by (simp add: acceptable_def ph_def)
    have "file_range (program m ph (of_nat k)) \<subseteq> img_range img" if "p_type (program m ph (of_nat k)) = 1"
      using facts(7) [OF k] file_range_subset [of "program m ph (of_nat k)" n] ok that
      by (auto simp: ph_def seg_ok_def Let_def)
    then show "image_upto m data ph (img_range img) (Suc k) (copy_segment data ph (of_nat k) t)"
      by (intro copy_segment_step [OF t apart hdr ok])
  qed (use m0 in simp_all)
  then show ?thesis by (simp add: copy_segments_def phnum64 ph_def m0_def Let_def)
qed


section \<open>Placing the kernel\<close>

definition image_pages :: "IMAGE_RANGE \<Rightarrow> u64" where
  "image_pages img = (range_end img - range_base img) div 4096"

lemma set_lmem_simps [simp]:
  "lmem (set_lmem m s) = m" "calls (set_lmem m s) = calls s" "lmem (s\<lparr>calls := c\<rparr>) = lmem s"
  by (simp_all add: lmem_def set_lmem_def)

text \<open>A successful call: the file is acceptable and the image is in place.\<close>

definition placed :: "firmware \<Rightarrow> u64 \<Rightarrow> u64 \<Rightarrow> loader \<Rightarrow> LOADED_KERNEL \<Rightarrow> loader \<Rightarrow> bool" where
  "placed efi data n s k s' \<longleftrightarrow> (\<exists>h img.
     h = load_ELF_HEADER (lmem s) data \<and> valid_elf_header h n \<and> acceptable (lmem s) data h n
     \<and> image_hull (lmem s) data h img \<and> kentry k = e_entry h \<and> kpages k = image_pages img
     \<and> calls s' = AllocatePages 2 1 (image_pages img) (range_base img) # calls s
     \<and> \<not> EFI_ERROR (status (efi (calls s'))) \<and> kbase k = result (efi (calls s'))
     \<and> (file_apart data n (img_range img) \<longrightarrow>
          image_upto (lmem s) data (data + e_phoff h) (img_range img) (unat (e_phnum h)) (lmem s')))"

lemma place_kernel_cases:
  "case place_kernel efi data n s of
     (Inl st, s') \<Rightarrow> EFI_ERROR st \<and> lmem s' = lmem s \<and>
       (calls s' = calls s \<and> \<not> (64 \<le> n \<and> valid_elf_header (load_ELF_HEADER (lmem s) data) n
          \<and> acceptable (lmem s) data (load_ELF_HEADER (lmem s) data) n)
        \<or> (\<exists>pages a. calls s' = AllocatePages 2 1 pages a # calls s \<and> status (efi (calls s')) = st))
   | (Inr k, s') \<Rightarrow> 64 \<le> n \<and> placed efi data n s k s'"
proof -
  define h where "h = load_ELF_HEADER (lmem s) data"
  have err: "EFI_ERROR EFI_LOAD_ERROR" by (simp add: EFI_ERROR_def EFI_LOAD_ERROR_def EFI_ERROR_BIT_def)
  show ?thesis
  proof (cases "64 \<le> n \<and> valid_elf_header h n")
    case False
    then show ?thesis using err by (auto simp: place_kernel_def h_def not_less [symmetric] Let_def)
  next
    case True
    note ic = inspect_segments_cases [of "lmem s" data h n]
    show ?thesis
    proof (cases "inspect_segments (lmem s) data h n")
      case (Inl st)
      then show ?thesis using True ic by (auto simp: place_kernel_def h_def [symmetric] Let_def)
    next
      case (Inr img)
      define c where "c = AllocatePages 2 1 (image_pages img) (range_base img)"
      have pk: "place_kernel efi data n s =
          (if EFI_ERROR (status (efi (c # calls s))) then (Inl (status (efi (c # calls s))), s\<lparr>calls := c # calls s\<rparr>)
           else (Inr \<lparr>kbase = result (efi (c # calls s)), kpages = image_pages img, kentry = e_entry h\<rparr>,
             set_lmem (copy_segments data h img (lmem s)) (s\<lparr>calls := c # calls s\<rparr>)))"
        using True Inr by (auto simp: place_kernel_def h_def [symmetric] call_def c_def image_pages_def Let_def)
      have "acceptable (lmem s) data h n" "image_hull (lmem s) data h img" using ic Inr by simp_all
      then show ?thesis unfolding pk using True copy_segments_image [of "lmem s" data h n img]
        by (auto simp: placed_def h_def c_def)
    qed
  qed
qed


section \<open>Reading the file\<close>

text \<open>The reads so far, newest first: how many bytes they delivered.\<close>

definition reads :: "u64 \<Rightarrow> efi_call list \<Rightarrow> bool" where
  "reads f cs \<longleftrightarrow> list_all (\<lambda>c. \<exists>n a. c = Read f n a) cs"

lemma read_entire_file_calls:
  "\<exists>cs. calls (snd (read_entire_file efi f buffer n got s)) = cs @ calls s \<and> reads f cs
     \<and> length cs \<le> unat n - unat got"
proof (induction efi f buffer n got s rule: read_entire_file.induct)
  case (1 efi f buffer n got s)
  define c where "c = Read f (n - got) (buffer + got)"
  define r where "r = efi (c # calls s)"
  define s1 where "s1 = set_lmem (store_bytes (buffer + got) (bytes r) (lmem s)) (s\<lparr>calls := c # calls s\<rparr>)"
  show ?case
  proof (cases "got < n")
    case False
    then show ?thesis by (simp add: read_entire_file.simps [of efi f buffer n got s] reads_def)
  next
    case lt: True
    then have gap: "0 < unat n - unat got" by (simp add: word_less_nat_alt)
    have step: "read_entire_file efi f buffer n got s = (if EFI_ERROR (status r) then (status r, s1)
        else if result r = 0 \<or> result r > n - got then (EFI_LOAD_ERROR, s1)
        else read_entire_file efi f buffer n (got + result r) s1)"
      using lt by (simp add: read_entire_file.simps [of efi f buffer n got s] call_def c_def r_def s1_def Let_def)
    have cs1: "calls s1 = [c] @ calls s" by (simp add: s1_def)
    show ?thesis
    proof (cases "EFI_ERROR (status r) \<or> result r = 0 \<or> result r > n - got")
      case True
      then have "snd (read_entire_file efi f buffer n got s) = s1" by (auto simp: step)
      then show ?thesis using cs1 gap by (intro exI [of _ "[c]"]) (simp add: reads_def c_def)
    next
      case False
      then have go: "\<not> EFI_ERROR (status r)" "\<not> (result r = 0 \<or> result r > n - got)" by auto
      note pr = read_progress [OF lt, of "result r"]
      have "\<exists>cs. calls (snd (read_entire_file efi f buffer n (got + result r) s1)) = cs @ calls s1
          \<and> reads f cs \<and> length cs \<le> unat n - unat (got + result r)"
        using 1 [OF lt refl, of "(r, s\<lparr>calls := c # calls s\<rparr>)" r "s\<lparr>calls := c # calls s\<rparr>" s1 "result r"] go
        by (simp add: call_def c_def r_def s1_def)
      then obtain cs where cs: "calls (snd (read_entire_file efi f buffer n (got + result r) s1)) = cs @ calls s1"
        "reads f cs" "length cs \<le> unat n - unat (got + result r)" by blast
      have "length (cs @ [c]) \<le> unat n - unat got" using cs(3) pr go by (simp add: not_less)
      then show ?thesis using cs cs1 go step
        by (intro exI [of _ "cs @ [c]"]) (auto simp: reads_def c_def)
    qed
  qed
qed


section \<open>Resources\<close>

datatype resource = Handle u64 | Pool u64 | Pages u64

text \<open>What the loader owes the firmware after a history of calls.\<close>

definition gained :: "firmware \<Rightarrow> efi_call list \<Rightarrow> resource multiset" where
  "gained efi h = (if EFI_ERROR (status (efi h)) then {#} else
     case h of
       OpenVolume _ # _ \<Rightarrow> {#Handle (result (efi h))#}
     | Open _ _ _ _ # _ \<Rightarrow> {#Handle (result (efi h))#}
     | AllocatePool _ _ # _ \<Rightarrow> {#Pool (result (efi h))#}
     | AllocatePages _ _ _ _ # _ \<Rightarrow> {#Pages (result (efi h))#}
     | _ \<Rightarrow> {#})"

fun released :: "efi_call \<Rightarrow> resource multiset" where
  "released (Close f) = {#Handle f#}"
| "released (FreePool b) = {#Pool b#}"
| "released (FreePages a n) = {#Pages a#}"
| "released _ = {#}"

primrec held :: "firmware \<Rightarrow> efi_call list \<Rightarrow> resource multiset" where
  "held efi [] = {#}"
| "held efi (c # h) = (held efi h - released c) + gained efi (c # h)"

lemma held_reads: "reads f cs \<Longrightarrow> held efi (cs @ h) = held efi h"
  by (induction cs) (auto simp: reads_def gained_def)

text \<open>The firmware reports success only together with an object.\<close>

definition no_null :: "firmware \<Rightarrow> bool" where
  "no_null efi \<longleftrightarrow> (\<forall>c h. (\<exists>a p x y. c = Open a p x y) \<or> (\<exists>t n. c = AllocatePool t n) \<longrightarrow>
     \<not> EFI_ERROR (status (efi (c # h))) \<longrightarrow> result (efi (c # h)) \<noteq> 0)"

definition kernel_pages :: "EFI_STATUS + LOADED_KERNEL \<Rightarrow> resource multiset" where
  "kernel_pages k = (case k of Inl _ \<Rightarrow> {#} | Inr k \<Rightarrow> {#Pages (kbase k)#})"

lemma place_kernel_held:
  assumes "place_kernel efi data n s = (k, s')"
  shows "held efi (calls s') = held efi (calls s) + kernel_pages k"
  using place_kernel_cases [where efi = efi and data = data and n = n and s = s] assms
  by (auto simp: kernel_pages_def placed_def gained_def split: sum.splits)

lemma read_entire_file_held: "read_entire_file efi f buffer n got s = (st, s') \<Longrightarrow> held efi (calls s') = held efi (calls s)"
  using read_entire_file_calls [of efi f buffer n got s] held_reads by (metis snd_conv)

lemma call_simps [simp]:
  "call efi c s = (r, s') \<longleftrightarrow> r = efi (c # calls s) \<and> s' = s\<lparr>calls := c # calls s\<rparr>"
  by (auto simp: call_def)

lemma load_file_held:
  assumes "load_file efi root s = (k, f, b, s')" and "no_null efi"
  shows "held efi (calls s') = held efi (calls s) + kernel_pages k
    + (if f = 0 then {#} else {#Handle f#}) + (if b = 0 then {#} else {#Pool b#})"
proof -
  have nn: "\<not> EFI_ERROR (status (efi (Open a p x y # h))) \<Longrightarrow> result (efi (Open a p x y # h)) \<noteq> 0"
    "\<not> EFI_ERROR (status (efi (AllocatePool t n # h))) \<Longrightarrow> result (efi (AllocatePool t n # h)) \<noteq> 0" for a p x y h t n
    using assms(2) unfolding no_null_def by blast+
  show ?thesis
    using assms(1) unfolding load_file_def
    by (auto simp: Let_def nn gained_def kernel_pages_def split: if_splits prod.splits
        dest!: read_entire_file_held place_kernel_held)
qed

lemma load_kernel_held:
  assumes "load_kernel efi handle s = (k, s')" and "no_null efi"
  shows "held efi (calls s') = held efi (calls s) + kernel_pages k"
proof -
  define h1 where "h1 = HandleProtocol handle loaded_guid # calls s"
  define h2 where "h2 = HandleProtocol (load64 (lmem s) (result (efi h1) + 24)) fs_guid # h1"
  define h3 where "h3 = OpenVolume (result (efi h2)) # h2"
  have held: "held efi h1 = held efi (calls s)" "held efi h2 = held efi (calls s)"
    by (simp_all add: h1_def h2_def gained_def)
  show ?thesis
  proof (cases "EFI_ERROR (status (efi h1)) \<or> EFI_ERROR (status (efi h2)) \<or> EFI_ERROR (status (efi h3))")
    case True
    have "calls s' = (if EFI_ERROR (status (efi h1)) then h1 else if EFI_ERROR (status (efi h2)) then h2 else h3) \<and> (\<exists>st. k = Inl st)"
      using assms(1) True by (auto simp: load_kernel_def Let_def h1_def h2_def h3_def call_def)
    moreover have "EFI_ERROR (status (efi h3)) \<Longrightarrow> held efi h3 = held efi (calls s)"
      using held by (simp add: h3_def gained_def)
    ultimately show ?thesis using True held by (auto simp: kernel_pages_def)
  next
    case False
    define s3 where "s3 = s\<lparr>calls := h3\<rparr>"
    obtain k' f b s4 where lf: "load_file efi (result (efi h3)) s3 = (k', f, b, s4)" by (metis prod_cases4)
    have h3: "held efi h3 = held efi (calls s) + {#Handle (result (efi h3))#}"
      using False held by (simp add: h3_def gained_def)
    define h5 where "h5 = (if b \<noteq> 0 then FreePool b # calls s4 else calls s4)"
    define h6 where "h6 = (if f \<noteq> 0 then Close f # h5 else h5)"
    have "k = k'" "calls s' = Close (result (efi h3)) # h6"
      using assms(1) False lf
      by (auto simp: load_kernel_def Let_def h1_def h2_def h3_def s3_def h5_def h6_def call_def split: if_splits)
    moreover have "held efi h6 = held efi (calls s) + kernel_pages k' + {#Handle (result (efi h3))#}"
      using load_file_held [OF lf assms(2)] h3
      by (auto simp: h6_def h5_def s3_def gained_def)
    ultimately show ?thesis by (simp add: gained_def)
  qed
qed


section \<open>An example file\<close>

definition demo_elf :: "u8 list" where
  "demo_elf = [0x7f, 0x45, 0x4c, 0x46, 2, 1, 1] @ replicate 9 0 @ [2, 0, 62, 0, 1, 0, 0, 0]
     @ [0, 0, 0x10, 0, 0, 0, 0, 0] @ [64, 0, 0, 0, 0, 0, 0, 0] @ replicate 8 0 @ replicate 4 0
     @ [64, 0, 56, 0, 1, 0, 0, 0, 0, 0, 0, 0]
     @ [1, 0, 0, 0, 5, 0, 0, 0] @ [120, 0, 0, 0, 0, 0, 0, 0]
     @ [0, 0, 0x10, 0, 0, 0, 0, 0] @ [0, 0, 0x10, 0, 0, 0, 0, 0]
     @ [2, 0, 0, 0, 0, 0, 0, 0] @ [0, 0x80, 0, 0, 0, 0, 0, 0] @ [1, 0, 0, 0, 0, 0, 0, 0]
     @ [0xeb, 0xfe]"

definition elf_loader :: loader where
  "elf_loader = \<lparr>lcpu = \<lparr>rsp = 0, rflags = 2, cr0 = 0, cr3 = 0, cr4 = 0, msr = (\<lambda>_. 0),
     cpuid = (\<lambda>_ _. \<lparr>eax = 0, ebx = 0, ecx = 0, edx = 0\<rparr>), ram = store_bytes 0x10000 demo_elf (\<lambda>_. 0xcc),
     tlb = (\<lambda>_. None), io = [], device = (\<lambda>_ _. 0)\<rparr>, calls = []\<rparr>"

text \<open>A firmware that grants every request at the requested address.\<close>

definition kind_firmware :: firmware where
  "kind_firmware h = \<lparr>status = 0, result = (case h of AllocatePages _ _ _ a # _ \<Rightarrow> a | _ \<Rightarrow> 1),
     bytes = [], map_key = 0, map_stride = 0, map_version = 0\<rparr>"

lemma demo_header:
  "load_ELF_HEADER (lmem elf_loader) 0x10000 = \<lparr>e_ident = [0x7f, 0x45, 0x4c, 0x46, 2, 1, 1] @ replicate 9 0,
     e_type = 2, e_machine = 62, e_version = 1, e_entry = 0x100000, e_phoff = 64, e_ehsize = 64,
     e_phentsize = 56, e_phnum = 1\<rparr>"
  by code_simp

definition demo_program :: ELF_PROGRAM where
  "demo_program = \<lparr>p_type = 1, p_flags = 5, p_offset = 120, p_vaddr = 0x100000, p_paddr = 0x100000,
     p_filesz = 2, p_memsz = 0x8000, p_align = 1\<rparr>"

lemma demo_phdr: "program (lmem elf_loader) 0x10040 0 = demo_program"
  by code_simp

definition demo_elf_header :: ELF_HEADER where
  "demo_elf_header = load_ELF_HEADER (lmem elf_loader) 0x10000"

lemma demo_elf_valid: "valid_elf_header demo_elf_header 122" "e_phoff demo_elf_header = 64"
  "e_phnum demo_elf_header = 1" "e_entry demo_elf_header = 0x100000"
  unfolding demo_elf_header_def demo_header by (simp_all add: valid_elf_header_def)

lemma demo_acceptable: "acceptable (lmem elf_loader) 0x10000 demo_elf_header 122"
proof -
  have "loadable demo_program" "valid_segment demo_program 122" "entry_in 0x100000 demo_program"
    "seg_ceil demo_program \<le> seg_floor demo_program + 0x4000000"
    by (simp_all add: loadable_def demo_program_def valid_segment_def entry_in_def file_range_def
        seg_ceil_def seg_floor_def bit_numeral_word_iff)
  then show ?thesis
    by (simp add: acceptable_def demo_elf_valid seg_ok_def demo_phdr Let_def) (simp add: demo_program_def)
qed


section \<open>Properties\<close>

text \<open>
  C31: \<open>place_kernel\<close> accepts exactly the files whose header is a 64-bit x86 executable, whose
  loadable segments lie in the file, between 1 MiB and 4 GiB, do not overlap, span at most
  64 MiB and contain the entry point in executable file bytes, and that need no dynamic
  linking; then it asks the firmware for the page-aligned hull of the segments. When that
  is granted outside the file buffer, the hull holds the bytes of each segment at its
  address and zeros elsewhere, and no other memory has changed. Otherwise memory is
  unchanged and the status is an error.
\<close>

theorem place_kernel_image:
  assumes "place_kernel efi data n s = (k, s')"
  shows "case k of
      Inl st \<Rightarrow> EFI_ERROR st \<and> lmem s' = lmem s \<and>
        (calls s' = calls s \<and> \<not> (64 \<le> n \<and> valid_elf_header (load_ELF_HEADER (lmem s) data) n
           \<and> acceptable (lmem s) data (load_ELF_HEADER (lmem s) data) n)
         \<or> (\<exists>pages a. calls s' = AllocatePages 2 1 pages a # calls s \<and> status (efi (calls s')) = st))
    | Inr kern \<Rightarrow> 64 \<le> n \<and> placed efi data n s kern s'"
  using place_kernel_cases [where efi = efi and data = data and n = n and s = s] assms
  by (auto split: sum.splits)

theorem place_kernel_image_witness:
  "\<exists>k s'. place_kernel kind_firmware 0x10000 122 elf_loader = (Inr k, s')
     \<and> placed kind_firmware 0x10000 122 elf_loader k s'"
proof -
  obtain k s' where r: "place_kernel kind_firmware 0x10000 122 elf_loader = (k, s')" by fastforce
  have ok: "\<not> EFI_ERROR (status (kind_firmware h))" for h by (simp add: kind_firmware_def EFI_ERROR_def)
  show ?thesis
  proof (cases k)
    case (Inl st)
    then show ?thesis
      using place_kernel_image [OF r] demo_acceptable demo_elf_valid(1) ok
      by (auto simp: demo_elf_header_def)
  next
    case (Inr kern)
    then show ?thesis using place_kernel_image [OF r] r by auto
  qed
qed

text \<open>
  C32: \<open>load_kernel\<close> gives back what it took: on every path, errors included, the directory and
  file handles and the file buffer that the firmware handed out are closed and freed, and
  the only pages still held are those of the kernel that is returned.
\<close>

theorem load_kernel_releases:
  assumes "load_kernel efi handle s = (k, s')" and "no_null efi"
  shows "held efi (calls s') = held efi (calls s) + kernel_pages k"
  using load_kernel_held [OF assms] .

theorem load_kernel_releases_witness:
  "\<exists>k s'. load_kernel kind_firmware 7 elf_loader = (k, s')
     \<and> held kind_firmware (calls s') = kernel_pages k"
proof -
  obtain k s' where r: "load_kernel kind_firmware 7 elf_loader = (k, s')" by fastforce
  moreover have "no_null kind_firmware" by (auto simp: no_null_def kind_firmware_def)
  ultimately show ?thesis using load_kernel_releases [OF r] by (auto simp: elf_loader_def)
qed

text \<open>
  C33: \<open>read_entire_file\<close> always returns: with \<open>n\<close> bytes missing it makes at most \<open>n\<close> calls of
  \<open>Read\<close> and no other call, whatever the firmware answers.
\<close>

theorem read_entire_file_terminates:
  "\<exists>cs. calls (snd (read_entire_file efi f buffer n got s)) = cs @ calls s \<and> reads f cs
     \<and> length cs \<le> unat n - unat got"
  by (rule read_entire_file_calls)

end
