(* ===== verification/Handoff.thy ===== *)
theory Handoff
  imports KernelMain ElfProps
begin

text \<open>
  The contract between the loader and the kernel: what \<open>efi_main\<close> leaves in memory when it
  enters the kernel is what the checks of \<open>kernel_main\<close> accept. Of the firmware it is
  assumed that \<open>AllocatePages\<close> returns a page-aligned range of memory, and that
  \<open>GetMemoryMap\<close> stays within the buffer and returns a whole number of descriptors of version 1.
\<close>

definition firmware_conforms :: "firmware \<Rightarrow> bool" where
  "firmware_conforms efi \<longleftrightarrow>
     (\<forall>h a b n x. \<not> EFI_ERROR (status (efi (AllocatePages a b n x # h))) \<longrightarrow>
        (let base = result (efi (AllocatePages a b n x # h)) in
         base \<noteq> 0 \<and> page_aligned base \<and> unat base + unat n * 4096 < 2 ^ 64))
     \<and> (\<forall>h cap buf. \<not> EFI_ERROR (status (efi (GetMemoryMap cap buf # h))) \<longrightarrow>
        (let r = efi (GetMemoryMap cap buf # h) in
         0 < result r \<and> result r \<le> cap \<and> length (bytes r) \<le> unat cap
         \<and> sizeof_BOOT_MEMORY_DESCRIPTOR \<le> map_stride r \<and> result r mod map_stride r = 0 \<and> map_version r = 1))"

lemma conforming_map:
  assumes "firmware_conforms efi"
  defines "r \<equiv> \<lambda>cap buf h. efi (GetMemoryMap cap buf # h)"
  shows "\<not> EFI_ERROR (status (r cap buf h)) \<Longrightarrow> 0 < result (r cap buf h) \<and> result (r cap buf h) \<le> cap
    \<and> length (bytes (r cap buf h)) \<le> unat cap \<and> sizeof_BOOT_MEMORY_DESCRIPTOR \<le> map_stride (r cap buf h)
    \<and> result (r cap buf h) mod map_stride (r cap buf h) = 0 \<and> map_version (r cap buf h) = 1"
  using assms unfolding firmware_conforms_def r_def Let_def by blast

lemma conforming_pages:
  assumes "firmware_conforms efi"
  defines "r \<equiv> \<lambda>a b n x h. efi (AllocatePages a b n x # h)"
  shows "\<not> EFI_ERROR (status (r a b n x h)) \<Longrightarrow> result (r a b n x h) \<noteq> 0 \<and> page_aligned (result (r a b n x h))
    \<and> unat (result (r a b n x h)) + unat n * 4096 < 2 ^ 64"
  using assms unfolding firmware_conforms_def r_def Let_def by blast


section \<open>Writing the information block\<close>

lemma info_stores:
  "load_BOOT_INFO (store64 (a + 24) x m) a = (load_BOOT_INFO m a)\<lparr>memory_map_size := x\<rparr>"
  "load_BOOT_INFO (store64 (a + 32) x m) a = (load_BOOT_INFO m a)\<lparr>descriptor_size := x\<rparr>"
  "load_BOOT_INFO (store32 (a + 40) v m) a = (load_BOOT_INFO m a)\<lparr>descriptor_version := v\<rparr>"
  "load_BOOT_INFO (store64 (a + 80) x m) a = (load_BOOT_INFO m a)\<lparr>info_flags := x\<rparr>"
  by (simp_all add: load_BOOT_INFO_def c_simps)

text \<open>The map buffer is the page after the block and the fifteen behind it.\<close>

lemma info_store_bytes:
  assumes "length bs \<le> 65536"
  shows "load_BOOT_INFO (store_bytes (a + 4096) bs m) a = load_BOOT_INFO m a"
proof -
  have "store_bytes (a + 4096) bs m (a + of_nat i) = m (a + of_nat i)" if "i < 88" for i
  proof -
    have "(of_nat i :: u64) \<le> 4096" using that by (simp add: word_le_nat_alt unat_of_nat64)
    then have "unat ((of_nat i :: u64) - 4096) = 2 ^ 64 + i - 4096"
      using that by (simp add: unat_sub_if' unat_of_nat64)
    moreover have "a + of_nat i - (a + 4096) = of_nat i - 4096" by simp
    ultimately have "\<not> unat (a + of_nat i - (a + 4096)) < length bs" using assms that by (simp only:) simp
    then show ?thesis by (simp add: store_bytes_def)
  qed
  then show ?thesis by (intro load_BOOT_INFO_same) (simp add: same_bytes_def)
qed

definition handoff_info :: "u64 \<Rightarrow> LOADED_KERNEL \<Rightarrow> u64 \<Rightarrow> u64 \<Rightarrow> u32 \<Rightarrow> u64 \<Rightarrow> BOOT_INFO" where
  "handoff_info a kern sz stride ver flags = \<lparr>magic = BOOT_INFO_MAGIC, version = BOOT_INFO_VERSION,
     info_size = 88, memory_map = a + 4096, memory_map_size = sz, descriptor_size = stride, descriptor_version = ver,
     reserved = 0, kernel_base = kbase kern, kernel_size = kpages kern * 4096,
     stack_base = a + 73728, stack_size = 65536, info_flags = flags\<rparr>"

lemma load_zeroed:
  assumes "j + n \<le> 88"
  shows "load_le n (zero_bytes a (handoff_pages * 4096) m) (a + of_nat j) = (0 :: 'a::len word)"
proof (rule bit_word_eqI)
  fix k
  have "zero_bytes a (handoff_pages * 4096) m (a + of_nat j + of_nat (k div 8)) = 0" if "k < 8 * n"
  proof -
    have "j + k div 8 < 88" using that assms less_mult_imp_div_less [of k n 8] by (simp add: mult.commute)
    then have "unat (of_nat (j + k div 8) :: u64) < 143360" by (simp add: unat_of_nat64 del: of_nat_add)
    moreover have "a + of_nat j + of_nat (k div 8) - a = of_nat (j + k div 8)" by simp
    ultimately show ?thesis unfolding zero_bytes_eq by (simp only:) simp
  qed
  then show "bit (load_le n (zero_bytes a (handoff_pages * 4096) m) (a + of_nat j) :: 'a word) k = bit (0 :: 'a word) k"
    by (auto simp: bit_load_le)
qed

lemma fill_info_block:
  "load_BOOT_INFO (fill_info a kern (zero_bytes a (handoff_pages * 4096) m)) a = handoff_info a kern 0 0 0 0"
proof -
  define z where "z = zero_bytes a (handoff_pages * 4096) m"
  have "load64 z (a + 24) = 0" "load64 z (a + 32) = 0" "load32 z (a + 40) = 0" "load32 z (a + 44) = 0" "load64 z (a + 80) = 0"
    using load_zeroed [of 24 8 a m] load_zeroed [of 32 8 a m] load_zeroed [of 40 4 a m] load_zeroed [of 44 4 a m]
      load_zeroed [of 80 8 a m] by (simp_all add: load64_def load32_def z_def)
  then show ?thesis unfolding z_def [symmetric]
    by (simp add: load_BOOT_INFO_def fill_info_def handoff_info_def c_simps Let_def)
qed


section \<open>Leaving boot services\<close>

text \<open>The state of the loop before an attempt.\<close>

definition prepared :: "u64 \<Rightarrow> LOADED_KERNEL \<Rightarrow> loader \<Rightarrow> bool" where
  "prepared a kern s \<longleftrightarrow> (\<exists>sz stride ver. load_BOOT_INFO (lmem s) a = handoff_info a kern sz stride ver 0)"

text \<open>What the kernel finds.\<close>

definition handed_over :: "u64 \<Rightarrow> LOADED_KERNEL \<Rightarrow> loader \<Rightarrow> bool" where
  "handed_over a kern s \<longleftrightarrow> (\<exists>sz stride. load_BOOT_INFO (lmem s) a = handoff_info a kern sz stride 1 BOOT_SERVICES_EXITED
     \<and> 0 < sz \<and> sz \<le> map_capacity \<and> sizeof_BOOT_MEMORY_DESCRIPTOR \<le> stride \<and> sz mod stride = 0) \<and> \<not> bit (rflags (lcpu s)) 9"

definition enters :: "u64 \<Rightarrow> LOADED_KERNEL \<Rightarrow> boot_outcome \<times> loader \<Rightarrow> bool" where
  "enters a kern r \<longleftrightarrow> (case r of (EnterKernel e info stack_top, s) \<Rightarrow>
     e = kentry kern \<and> info = a \<and> stack_top = a + 139264 \<and> handed_over a kern s | _ \<Rightarrow> True)"

lemma report_error_returns: "enters a kern (let (st, s) = report_error efi table msg st0 s0 in (Returned st, s))"
  by (cases "report_error efi table msg st0 s0") (simp add: enters_def)

lemma lmem_simps [simp]:
  "lmem (set_lmem m s) = m" "lmem (s\<lparr>calls := c\<rparr>) = lmem s" "lmem (s\<lparr>lcpu := x86_disable_interrupts (lcpu s)\<rparr>) = lmem s"
  by (simp_all add: lmem_def set_lmem_def x86_disable_interrupts_def)

lemma disable_clears: "\<not> bit (rflags (x86_disable_interrupts m)) 9"
  using irq_save_disables [of m] by (simp add: x86_irq_save_def Let_def)

lemma exit_attempt_hands_over:
  assumes efi: "firmware_conforms efi" and p: "prepared a kern s"
  shows "case exit_attempt efi handle table kern a n (st, s) of Inl r \<Rightarrow> enters a kern r | Inr (st', s') \<Rightarrow> prepared a kern s'"
proof -
  obtain sz0 stride0 ver0 where b: "load_BOOT_INFO (lmem s) a = handoff_info a kern sz0 stride0 ver0 0"
    using p by (auto simp: prepared_def)
  then have buf: "load64 (lmem s) (a + 16) = a + 4096" by (simp add: load_BOOT_INFO_def handoff_info_def)
  let ?c = "GetMemoryMap map_capacity (a + 4096)"
  define r where "r = efi (?c # calls s)"
  define s1 where "s1 = set_lmem (store_bytes (a + 4096) (bytes r) (lmem s)) (s\<lparr>calls := ?c # calls s\<rparr>)"
  show ?thesis
  proof (cases "EFI_ERROR (status r)")
    case True
    then show ?thesis
      unfolding exit_attempt_def Let_def buf snd_conv call_def prod.case r_def [symmetric]
      by (cases "n = 0"; cases "report_error efi table ''GetMemoryMap'' (status r)
          (snd (call efi (FreePages (kbase kern) (kpages kern)) (snd (call efi (FreePages a handoff_pages) s1))))")
        (simp_all add: s1_def call_def enters_def stop_boot_def)
  next
    case False
    then have g: "0 < result r" "result r \<le> map_capacity" "length (bytes r) \<le> 65536"
      "sizeof_BOOT_MEMORY_DESCRIPTOR \<le> map_stride r" "result r mod map_stride r = 0" "map_version r = 1"
      using conforming_map [OF efi, of map_capacity "a + 4096" "calls s", folded r_def] by simp_all
    define m where "m = store32 (a + 40) (map_version r) (store64 (a + 32) (map_stride r) (store64 (a + 24) (result r) (lmem s1)))"
    have m: "load_BOOT_INFO m a = handoff_info a kern (result r) (map_stride r) 1 0"
      using info_store_bytes [OF g(3)] b g(6) by (simp add: m_def s1_def info_stores handoff_info_def)
    define r2 where "r2 = efi (ExitBootServices handle (map_key r) # calls s1)"
    define s2 where "s2 = (set_lmem m s1)\<lparr>calls := ExitBootServices handle (map_key r) # calls s1\<rparr>"
    have run: "exit_attempt efi handle table kern a n (st, s) =
        (if status r2 = EFI_SUCCESS then
           let s = set_lmem (store64 (a + 80) BOOT_SERVICES_EXITED (lmem s2)) s2; s = s\<lparr>lcpu := x86_disable_interrupts (lcpu s)\<rparr>
           in Inl (EnterKernel (kentry kern) a (load64 (lmem s) (a + 64) + load64 (lmem s) (a + 72)), s)
         else if status r2 \<noteq> EFI_INVALID_PARAMETER then Inl (stop_boot (status r2) s2) else Inr (status r2, s2))"
      using False unfolding exit_attempt_def Let_def buf snd_conv call_def prod.case r_def [symmetric]
      by (simp add: s1_def s2_def r2_def m_def set_lmem_def)
    have "load_BOOT_INFO (lmem s2) a = handoff_info a kern (result r) (map_stride r) 1 0" using m by (simp add: s2_def)
    then have e: "load_BOOT_INFO (store64 (a + 80) 1 (lmem s2)) a = handoff_info a kern (result r) (map_stride r) 1 1"
      and p2: "prepared a kern s2" by (auto simp: info_stores prepared_def handoff_info_def)
    then have "load64 (store64 (a + 80) 1 (lmem s2)) (a + 64) = a + 73728" "load64 (store64 (a + 80) 1 (lmem s2)) (a + 72) = 65536"
      by (simp_all add: load_BOOT_INFO_def handoff_info_def)
    moreover have "handed_over a kern (t\<lparr>lcpu := x86_disable_interrupts (lcpu t)\<rparr>)"
      if "t = set_lmem (store64 (a + 80) 1 (lmem s2)) s2" for t
      using e g disable_clears that
      unfolding handed_over_def by (intro conjI exI [of _ "result r"] exI [of _ "map_stride r"]) simp_all
    ultimately show ?thesis unfolding run using p2 by (simp add: enters_def stop_boot_def Let_def)
  qed
qed


lemma start_kernel_hands_over:
  assumes efi: "firmware_conforms efi" and run: "start_kernel efi handle table kern s = (EnterKernel e info stack_top, s')"
  shows "e = kentry kern" and "stack_top = info + 139264" and "handed_over info kern s'"
    and "info \<noteq> 0" and "page_aligned info" and "unat info + 143360 < 2 ^ 64"
proof -
  let ?c = "AllocatePages 0 2 handoff_pages 0"
  define r where "r = efi (?c # calls s)"
  have "info \<noteq> 0 \<and> page_aligned info \<and> unat info + 143360 < 2 ^ 64 \<and> e = kentry kern \<and> stack_top = info + 139264
    \<and> handed_over info kern s'" (is ?goal)
  proof (cases "EFI_ERROR (status r)")
    case True
    then show ?goal
      using run by (simp add: start_kernel_def allocate_handoff_def call_def r_def Let_def split: prod.splits)
  next
    case False
    define a where "a = result r"
    note pages = conforming_pages [OF efi, of 0 2 handoff_pages 0 "calls s", folded r_def, OF False, folded a_def]
    define s1 where "s1 = set_lmem (fill_info a kern (zero_bytes a (handoff_pages * 4096) (lmem s))) (s\<lparr>calls := ?c # calls s\<rparr>)"
    have al: "allocate_handoff efi kern s = (Inr a, s1)"
      using False by (simp add: allocate_handoff_def call_def r_def a_def s1_def Let_def) (simp add: set_lmem_def)
    have p: "prepared a kern s1" using fill_info_block [of a kern] by (auto simp: prepared_def s1_def)
    have "case for_ret 0 8 (exit_attempt efi handle table kern a) (0, s1) of
        Inl r \<Rightarrow> enters a kern r | Inr t \<Rightarrow> (\<lambda>(st, t). prepared a kern t) t"
    proof (rule for_ret_inv [where P = "\<lambda>_ (st, t). prepared a kern t"])
      fix k :: nat and t :: "EFI_STATUS \<times> loader" assume "(\<lambda>(st, t). prepared a kern t) t"
      then show "case exit_attempt efi handle table kern a (of_nat k) t of
          Inl r \<Rightarrow> enters a kern r | Inr t' \<Rightarrow> (\<lambda>(st, t). prepared a kern t) t'"
        using exit_attempt_hands_over [OF efi] by (cases t) simp
    qed (use p in simp_all)
    then have "enters a kern (EnterKernel e info stack_top, s')"
      using run unfolding start_kernel_def al by (simp add: stop_boot_def split: sum.splits prod.splits)
    then show ?goal
      using pages by (simp add: enters_def)
  qed
  then show "info \<noteq> 0" "page_aligned info" "unat info + 143360 < 2 ^ 64" "e = kentry kern" "stack_top = info + 139264"
    "handed_over info kern s'" by simp_all
qed

lemma efi_main_enters:
  assumes "efi_main efi handle table s = (EnterKernel e info stack_top, s')"
  obtains kern s0 where "start_kernel efi handle table kern s0 = (EnterKernel e info stack_top, s')"
proof -
  have fail: "fail_with efi table msg st t \<noteq> (EnterKernel e info stack_top, s')" for msg st t
    by (cases "report_error efi table msg st t") (simp add: fail_with_def)
  then obtain serial t where "load_and_start efi handle table serial t = (EnterKernel e info stack_top, s')"
    using assms unfolding efi_main_def Let_def by (auto split: prod.splits if_splits)
  then show ?thesis
    using that fail unfolding load_and_start_def Let_def by (auto split: prod.splits if_splits sum.splits)
qed


section \<open>Property\<close>

lemma stack_pointer_aligned:
  assumes "page_aligned a"
  shows "(a + 139264) AND NOT 15 = a + 139264" and "(a + 139264) AND 15 = 0"
proof -
  have "page_aligned (139264 :: u64)" by (simp add: page_aligned_unat)
  then have "page_aligned (a + 139264)"
    using assms by (auto simp: page_aligned_unat unat_word_ariths(1) dvd_mod)
  then have "take_bit 12 (a + 139264) = 0" by (simp add: page_aligned_def take_bit_eq_mod)
  then have b: "\<not> bit (a + 139264) k" if "k < 12" for k
    using that bit_take_bit_iff [of 12 "a + 139264" k] by simp
  have m: "(15 :: u64) = mask 4" by (simp add: mask_eq_exp_minus_1)
  have bits: "bit (15 :: u64) k \<longleftrightarrow> k < 4" for k unfolding m by (auto simp: bit_mask_iff)
  have "bit ((a + 139264) AND NOT 15) k = bit (a + 139264) k" if "k < 64" for k
    using b [of k] that by (auto simp only: bit_and_iff bit_not_iff bits possible_bit_word) simp_all
  then show "(a + 139264) AND NOT 15 = a + 139264" by (intro bit_word_eqI) simp
  have "\<not> bit ((a + 139264) AND 15) k" for k using b [of k] by (auto simp only: bit_and_iff bits) simp
  then show "(a + 139264) AND 15 = 0" by (intro bit_word_eqI) simp
qed

lemma handoff_checks:
  assumes "firmware_conforms efi" and "start_kernel efi handle table kern s = (EnterKernel e info stack_top, s')"
    and "stack_base (load_BOOT_INFO (lmem s') info) \<le> sp" and "sp < stack_top"
  defines "b \<equiv> load_BOOT_INFO (lmem s') info"
  shows "e = kentry kern \<and> valid_boot_header (lmem s') info \<and> valid_memory_map b
    \<and> valid_stack b (stack_top AND NOT 15) sp
    \<and> kernel_base b = kbase kern \<and> kernel_size b = kpages kern * 4096
    \<and> unat info + 88 \<le> unat (memory_map b) \<and> unat (memory_map b) + unat (memory_map_size b) \<le> unat (stack_base b - 4096)
    \<and> \<not> bit (rflags (lcpu s')) 9"
proof -
  note h = start_kernel_hands_over [OF assms(1,2)]
  obtain sz stride where b: "b = handoff_info info kern sz stride 1 1" and sz: "0 < sz" "sz \<le> map_capacity"
    "sizeof_BOOT_MEMORY_DESCRIPTOR \<le> stride" "sz mod stride = 0" and IF: "\<not> bit (rflags (lcpu s')) 9"
    using h(3) unfolding handed_over_def b_def by (elim conjE exE)
  have u: "unat (info + 4096) = unat info + 4096" "unat (info + 73728) = unat info + 73728" "unat (info + 139264) = unat info + 139264"
    "unat (info + 69632) = unat info + 69632"
    using h(6) by (simp_all add: unat_add_no_wrap)
  have ne: "info + 4096 \<noteq> 0" using u(1) by (metis add_is_0 unat_0 zero_neq_numeral)
  have "unat (- 1 - 65536 :: u64) = 2 ^ 64 - 1 - 65536" by simp
  then have le: "\<not> info + 73728 > - 1 - 65536" using u(2) h(6) by (simp add: word_less_nat_alt)
  have "valid_boot_header (lmem s') info"
    using h(4) by (simp add: valid_boot_header_def b_def [symmetric] b handoff_info_def Let_def)
  moreover have "valid_memory_map b"
    using sz ne by (auto simp: valid_memory_map_def b handoff_info_def not_less)
  moreover have "valid_stack b (stack_top AND NOT 15) sp"
  proof -
    have "stack_base b = info + 73728" "stack_size b = 65536" by (simp_all add: b handoff_info_def)
    moreover have "info + 73728 + 65536 = stack_top" using h(2) by simp
    moreover have "stack_top AND NOT 15 = stack_top" "stack_top AND 15 = 0" using stack_pointer_aligned [OF h(5)] h(2) by simp_all
    moreover have "\<not> 65536 < (4096 :: u64)" by simp
    moreover have "\<not> stack_top \<le> sp" "\<not> sp < stack_base b" using assms(3,4) by (simp_all add: b_def)
    ultimately show ?thesis
      unfolding valid_stack_def Let_def using le by (simp only: if_False simp_thms)
  qed
  moreover have "unat sz \<le> 65536" using sz(2) by (simp add: word_le_nat_alt)
  moreover have "unat (info + 73728 - 4096) = unat info + 69632" using u(4) by (simp add: add.commute)
  ultimately show ?thesis using h(1) IF u by (simp add: b handoff_info_def)
qed

text \<open>A firmware that has 16 MiB of memory at 2 MiB and a map of one descriptor, and lets the loader go at once.\<close>

definition plain_firmware :: firmware where
  "plain_firmware h = \<lparr>status = (case h of AllocatePages _ _ n _ # _ \<Rightarrow> if n \<le> 0x1000 then 0 else EFI_LOAD_ERROR
       | GetMemoryMap cap _ # _ \<Rightarrow> if cap < 48 then EFI_LOAD_ERROR else 0 | _ \<Rightarrow> 0),
     result = (case h of AllocatePages _ _ _ _ # _ \<Rightarrow> 0x200000 | _ \<Rightarrow> 48),
     bytes = [], map_key = 0, map_stride = 48, map_version = 1\<rparr>"

definition plain_kernel :: LOADED_KERNEL where
  "plain_kernel = \<lparr>kbase = 0x400000, kpages = 16, kentry = 0x400000\<rparr>"

lemma plain_conforms: "firmware_conforms plain_firmware"
proof -
  have err: "EFI_ERROR EFI_LOAD_ERROR" "\<not> EFI_ERROR 0"
    by (simp_all add: EFI_ERROR_def EFI_LOAD_ERROR_def EFI_ERROR_BIT_def)
  have "unat n * 4096 \<le> 0x1000000" if "n \<le> 0x1000" for n :: u64
    using that by (simp add: word_le_nat_alt)
  then show ?thesis
    using err by (fastforce simp: firmware_conforms_def plain_firmware_def Let_def page_aligned_unat not_less split: if_splits)
qed

lemma plain_enters:
  obtains e t s' where "start_kernel plain_firmware 7 \<lparr>ConOut = 0, StdErr = 0\<rparr> plain_kernel elf_loader = (EnterKernel e 0x200000 t, s')"
proof -
  have err: "\<not> EFI_ERROR 0" by (simp add: EFI_ERROR_def)
  obtain s1 where a: "allocate_handoff plain_firmware plain_kernel elf_loader = (Inr 0x200000, s1)"
    using err by (simp add: allocate_handoff_def call_def plain_firmware_def Let_def)
  obtain e t s' where "exit_attempt plain_firmware 7 \<lparr>ConOut = 0, StdErr = 0\<rparr> plain_kernel 0x200000 0 (0, s1)
      = Inl (EnterKernel e 0x200000 t, s')"
    using err by (simp add: exit_attempt_def call_def plain_firmware_def Let_def)
  then show ?thesis using that a by (simp add: start_kernel_def for_ret.simps [of 0])
qed

text \<open>
  C40: The kernel accepts what the loader hands over. When \<open>start_kernel\<close> enters the kernel, it
  jumps to the entry point of the loaded image, and the checks of \<open>kernel_main\<close> on the header, the
  memory map and the stack succeed for the block it passes, for every stack pointer in the stack, with
  the initial stack pointer that the entry code derives from the second argument. The block describes the loaded
  image, the memory map fits in front of the lower guard page of the stack, and interrupts are off.
\<close>

theorem handoff_accepted:
  assumes "firmware_conforms efi" and "start_kernel efi handle table kern s = (EnterKernel e info stack_top, s')"
    and "stack_base (load_BOOT_INFO (lmem s') info) \<le> sp" and "sp < stack_top"
  defines "b \<equiv> load_BOOT_INFO (lmem s') info"
  shows "e = kentry kern \<and> valid_boot_header (lmem s') info \<and> valid_memory_map b
    \<and> valid_stack b (stack_top AND NOT 15) sp
    \<and> kernel_base b = kbase kern \<and> kernel_size b = kpages kern * 4096
    \<and> unat info + 88 \<le> unat (memory_map b) \<and> unat (memory_map b) + unat (memory_map_size b) \<le> unat (stack_base b - 4096)
    \<and> \<not> bit (rflags (lcpu s')) 9"
  using assms(1-4) unfolding b_def by (rule handoff_checks)

theorem handoff_accepted_witness:
  "\<exists>e t s'. start_kernel plain_firmware 7 \<lparr>ConOut = 0, StdErr = 0\<rparr> plain_kernel elf_loader = (EnterKernel e 0x200000 t, s')
    \<and> e = 0x400000 \<and> valid_boot_header (lmem s') 0x200000 \<and> valid_memory_map (load_BOOT_INFO (lmem s') 0x200000)
    \<and> valid_stack (load_BOOT_INFO (lmem s') 0x200000) (t AND NOT 15) 0x221ff8"
proof -
  obtain e t s' where run: "start_kernel plain_firmware 7 \<lparr>ConOut = 0, StdErr = 0\<rparr> plain_kernel elf_loader
      = (EnterKernel e 0x200000 t, s')" by (rule plain_enters)
  note h = start_kernel_hands_over(2,3) [OF plain_conforms run]
  have "stack_base (load_BOOT_INFO (lmem s') 0x200000) \<le> 0x221ff8" "0x221ff8 < t"
    using h by (auto simp: handed_over_def handoff_info_def)
  from handoff_accepted [OF plain_conforms run this] run show ?thesis by (auto simp: plain_kernel_def)
qed

end
