(* ===== verification/SystemBoot.thy ===== *)
theory SystemBoot
  imports KernelBoot Handoff
begin

text \<open>
  The whole way from the firmware to the console: the machine that \<open>efi_main\<close> leaves is the one
  \<open>kernel_entry\<close> starts on.
\<close>

definition entered :: "loader \<Rightarrow> kernel \<Rightarrow> kernel" where
  "entered s k = k\<lparr>drv := (drv k)\<lparr>cpu := lcpu s\<rparr>\<rparr>"

lemma entry_machine:
  fixes m :: machine and sp :: u64
  assumes "\<not> bit (rflags m) 9"
  defines "m' \<equiv> (x86_disable_interrupts m)\<lparr>rflags := rflags (x86_disable_interrupts m) AND NOT 0x400, rsp := sp\<rparr>"
  shows "supported_cpu_state (cr4 m') m' = supported_cpu_state (cr4 m) m" and "serial_alive m' = serial_alive m"
    and "\<not> bit (rflags m') 9" and "ram m' = ram m" and "cpuid m' = cpuid m" and "msr m' = msr m"
proof -
  have nine: "\<not> bit (rflags (x86_disable_interrupts m)) 9" by (rule disable_clears)
  then show off: "\<not> bit (rflags m') 9" by (simp add: m'_def bit_and_iff)
  show same: "ram m' = ram m" "cpuid m' = cpuid m" "msr m' = msr m" by (simp_all add: m'_def x86_disable_interrupts_def)
  show "serial_alive m' = serial_alive m" by (simp add: m'_def x86_disable_interrupts_def serial_alive_def)
  have "cr4 m' = cr4 m" by (simp add: m'_def x86_disable_interrupts_def)
  then show "supported_cpu_state (cr4 m') m' = supported_cpu_state (cr4 m) m"
    using off assms(1) same by (simp add: supported_cpu_state_def x86_read_rflags_def x86_cpuid_def x86_read_msr_def flag_bits Let_def)
qed

lemma stack_pointer_inside:
  fixes a pushed :: u64
  assumes "unat a + 139264 < 2 ^ 64" and "0 < pushed" and "pushed \<le> 65536"
  shows "a + 73728 \<le> a + 139264 - pushed" and "a + 139264 - pushed < a + 139264"
proof -
  have "unat (a + 73728) = unat a + 73728" "unat (a + 139264) = unat a + 139264" using assms(1) by (simp_all add: unat_add_no_wrap)
  moreover have p: "0 < unat pushed" "unat pushed \<le> 65536" using assms(2,3) by (simp_all add: word_le_nat_alt word_less_nat_alt)
  ultimately have "unat (a + 139264 - pushed) = unat a + 139264 - unat pushed"
    by (subst unat_sub) (simp_all add: word_le_nat_alt)
  with \<open>unat (a + 73728) = unat a + 73728\<close> \<open>unat (a + 139264) = unat a + 139264\<close> p
  show "a + 73728 \<le> a + 139264 - pushed" "a + 139264 - pushed < a + 139264"
    by (simp_all only: word_le_nat_alt word_less_nat_alt)
qed

lemma system_runs:
  assumes efi: "firmware_conforms efi" and run: "efi_main efi handle table s = (EnterKernel e p stack_top, s')"
    and pushed: "0 < pushed" "pushed \<le> 65536" and mem: "memory_demands L p (lmem s') pm0"
    and entry: "at_entry (entered s' k)" and cpu: "supported_cpu_state (cr4 (lcpu s')) (lcpu s')"
    and alive: "serial_alive (lcpu s')" and src: "irq_source (drv k) = (\<lambda>_. [32])" and regs: "\<And>d. survived d"
  defines "info \<equiv> load_BOOT_INFO (lmem s') p" and "R \<equiv> boot_ram (lmem s') (load_BOOT_INFO (lmem s') p)"
  shows "\<exists>k'. kernel_entry y L survived pushed p stack_top (entered s' k) = Running k'
    \<and> vm_inv (paged k') \<and> active (vm k') \<and> cr3 (cpu (drv k')) = paging_root (vm k')
    \<and> (\<forall>w. vmap (paged k') w = (if w \<in> R - guard_pages L info then Some (section_mapping L w) else None))
    \<and> pmm_used (pm (vm k')) = tables (vm k') \<and> outside (pmm_avail pm0) (lmem s') (kernel_ram k')
    \<and> receive_enabled (drv k') \<and> bit (rflags (cpu (drv k'))) 9"
proof -
  obtain kern s0 where start: "start_kernel efi handle table kern s0 = (EnterKernel e p stack_top, s')"
    by (rule efi_main_enters [OF run])
  note h = start_kernel_hands_over [OF efi start]
  have base: "stack_base info = p + 73728" using h(3) by (auto simp: handed_over_def handoff_info_def info_def)
  define sp where "sp = stack_top AND NOT 15"
  have sp: "sp = stack_top" using stack_pointer_aligned(1) [OF h(5)] by (simp add: sp_def h(2))
  have inside: "stack_base info \<le> sp - pushed" "sp - pushed < stack_top"
    using stack_pointer_inside [OF _ pushed, of p] h(6) by (simp_all add: base sp h(2))
  have hdr: "valid_boot_header (lmem s') p" "valid_memory_map info" "valid_stack info sp (sp - pushed)"
    and IF: "\<not> bit (rflags (lcpu s')) 9"
    using handoff_checks [OF efi start, of "sp - pushed"] inside unfolding info_def sp_def by blast+
  define m' where "m' = (x86_disable_interrupts (lcpu s'))\<lparr>rflags := rflags (x86_disable_interrupts (lcpu s')) AND NOT 0x400, rsp := sp - pushed\<rparr>"
  note m' = entry_machine [OF IF, of "sp - pushed", folded m'_def]
  define k1 where "k1 = k\<lparr>kernel_initial_rsp := sp, drv := (drv k)\<lparr>cpu := m'\<rparr>\<rparr>"
  have go: "kernel_entry y L survived pushed p stack_top (entered s' k) = kernel_main y L survived p k1"
    by (simp add: kernel_entry_def entered_def Let_def k1_def m'_def sp_def)
  have c: "cpu (drv k1) = m'" "kernel_ram k1 = lmem s'" "rsp m' = sp - pushed" "kernel_initial_rsp k1 = sp"
    "irq_source (drv k1) = (\<lambda>_. [32])"
    using src by (simp_all add: k1_def m'(4) lmem_def) (simp add: m'_def)
  have e1: "at_entry k1"
    using entry m'(3,5,6) by (simp add: at_entry_def entered_def k1_def irq_ready_def)
  have "\<exists>k'. kernel_main y L survived p k1 = Running k'
    \<and> tabs k' = fst (tables_init y (stack_base info + stack_size info) (tabs k1, cpu (drv k1)))
    \<and> vm_inv (paged k') \<and> active (vm k') \<and> cr3 (cpu (drv k')) = paging_root (vm k') \<and> bit (cr0 (cpu (drv k'))) 16
    \<and> (\<forall>w. vmap (paged k') w = (if w \<in> R - guard_pages L info then Some (section_mapping L w) else None))
    \<and> pmm_used (pm (vm k')) = tables (vm k') \<and> pmm_avail (pm (vm k')) = pmm_avail pm0 - tables (vm k')
    \<and> outside (pmm_avail pm0) (lmem s') (kernel_ram k')
    \<and> receive_enabled (drv k') \<and> rx_wf (receive_buffer (drv k')) \<and> bit (rflags (cpu (drv k'))) 9"
    using kernel_main_runs [of k1 p L pm0 survived y, unfolded c(2)] hdr mem e1 m'(1,2) cpu alive regs
    unfolding c info_def [symmetric] R_def by blast
  then show ?thesis unfolding go by (elim exE conjE) (intro exI conjI)
qed


section \<open>An example machine\<close>

text \<open>
  A firmware with the example file of the loader and the memory of \<open>live_info\<close>: it grants the pages
  of the image and of the handoff block, and lets the loader go at once.
\<close>

definition sys_map :: memory where
  "sys_map = store_DESCRIPTOR 0x111030 (live_descriptors ! 1) (store_DESCRIPTOR 0x111000 (live_descriptors ! 0) (\<lambda>_. 0))"

definition sys_firmware :: firmware where
  "sys_firmware h = \<lparr>status = (case h of
         AllocatePages kind _ n a # _ \<Rightarrow> if kind = 2 \<and> n = 8 \<and> a = 0x100000 \<or> kind = 0 \<and> n = 35 then 0 else EFI_LOAD_ERROR
       | GetMemoryMap cap _ # _ \<Rightarrow> if cap < 96 then EFI_LOAD_ERROR else 0 | _ \<Rightarrow> 0),
     result = (case h of AllocatePages kind _ _ a # _ \<Rightarrow> if kind = 2 then a else 0x110000 | GetMemoryMap _ _ # _ \<Rightarrow> 96
       | GetPosition _ # _ \<Rightarrow> 122 | AllocatePool _ _ # _ \<Rightarrow> 0x10000 | Read _ n _ # _ \<Rightarrow> n | Write _ n _ # _ \<Rightarrow> n | _ \<Rightarrow> 1),
     bytes = (case h of Read _ _ _ # _ \<Rightarrow> demo_elf
       | GetMemoryMap _ _ # _ \<Rightarrow> map (\<lambda>i. sys_map (0x111000 + of_nat i)) [0..<96] | _ \<Rightarrow> []),
     map_key = 0, map_stride = 48, map_version = 1\<rparr>"

definition sys_loader :: loader where
  "sys_loader = \<lparr>lcpu = boot_machine\<lparr>ram := (\<lambda>_. 0xcc)\<rparr>, calls = []\<rparr>"

definition no_console :: EFI_SYSTEM_TABLE where
  "no_console = \<lparr>ConOut = 0, StdErr = 0\<rparr>"

definition sys_kernel :: LOADED_KERNEL where
  "sys_kernel = \<lparr>kbase = 0x100000, kpages = 8, kentry = 0x100000\<rparr>"

lemma efi_status: "EFI_ERROR EFI_LOAD_ERROR" "\<not> EFI_ERROR 0"
  by (simp_all add: EFI_ERROR_def EFI_LOAD_ERROR_def EFI_ERROR_BIT_def)

lemma sys_conforms: "firmware_conforms sys_firmware"
  using efi_status word_le_nat_alt [of "96 :: u64"] unfolding firmware_conforms_def
  by (auto simp: sys_firmware_def Let_def page_aligned_unat not_less split: if_splits)

lemma sys_inspect: "inspect_segments (lmem elf_loader) 0x10000 demo_elf_header 122 = Inr \<lparr>range_base = 0x100000, range_end = 0x108000\<rparr>"
  by code_simp

text \<open>Of the processor the loader changes memory only.\<close>

definition same_regs :: "loader \<Rightarrow> loader \<Rightarrow> bool" where
  "same_regs s s' \<longleftrightarrow> (lcpu s')\<lparr>ram := (\<lambda>_. 0)\<rparr> = (lcpu s)\<lparr>ram := (\<lambda>_. 0)\<rparr>"

lemma same_regs_simps [simp]:
  "same_regs s (set_lmem m t) = same_regs s t" "same_regs s (t\<lparr>calls := h\<rparr>) = same_regs s t" "same_regs (t\<lparr>calls := h\<rparr>) s = same_regs t s"
  "same_regs s s"
  by (simp_all add: same_regs_def set_lmem_def)

lemma same_regs_trans: "same_regs a b \<Longrightarrow> same_regs b c \<Longrightarrow> same_regs a c"
  by (auto simp: same_regs_def)

lemma sys_place:
  assumes "lmem s = lmem elf_loader"
  obtains s' where "place_kernel sys_firmware 0x10000 122 s = (Inr sys_kernel, s')" "same_regs s s'"
  using assms demo_elf_valid(1,4) sys_inspect efi_status(2)
  by (simp add: place_kernel_def demo_elf_header_def call_def Let_def sys_firmware_def sys_kernel_def)

lemma sys_reply:
  assumes "\<forall>a b n x. c \<noteq> AllocatePages a b n x" and "\<forall>n b. c \<noteq> GetMemoryMap n b"
  shows "\<not> EFI_ERROR (status (sys_firmware (c # h)))"
  using assms efi_status(2) by (cases c) (simp_all add: sys_firmware_def)

lemma sys_read:
  assumes "lmem s = (\<lambda>_. 0xcc)"
  obtains s' where "read_entire_file sys_firmware f 0x10000 122 0 s = (0, s')" "lmem s' = lmem elf_loader" "same_regs s s'"
proof -
  have "lmem elf_loader = store_bytes 0x10000 demo_elf (\<lambda>_. 0xcc)" by (simp add: lmem_def elf_loader_def)
  then show ?thesis
    using that assms efi_status(2) read_entire_file.simps [of sys_firmware f "0x10000" "122" "0" s]
      read_entire_file.simps [of sys_firmware f "0x10000" "122" "122"]
    by (simp add: call_def sys_firmware_def Let_def)
qed

lemma sys_load_file:
  assumes "lmem s = (\<lambda>_. 0xcc)"
  shows "\<exists>f b s'. load_file sys_firmware r s = (Inr sys_kernel, f, b, s') \<and> same_regs s s'"
proof -
  have res: "result (sys_firmware (GetPosition f # h)) = 122" "result (sys_firmware (AllocatePool i n # h)) = 0x10000"
    for f h i n by (simp_all add: sys_firmware_def)
  define s4 where "s4 = s\<lparr>calls := AllocatePool 2 122 # SetPosition (result (sys_firmware (Open r kernel_path 1 0 # calls s))) 0
    # GetPosition (result (sys_firmware (Open r kernel_path 1 0 # calls s))) # SetPosition (result (sys_firmware (Open r kernel_path 1 0 # calls s))) UINT64_MAX
    # Open r kernel_path 1 0 # calls s\<rparr>"
  obtain s5 where 5: "read_entire_file sys_firmware (result (sys_firmware (Open r kernel_path 1 0 # calls s))) 0x10000 122 0 s4 = (0, s5)"
    "lmem s5 = lmem elf_loader" "same_regs s4 s5" by (rule sys_read [of s4]) (simp add: s4_def assms)
  obtain s6 where 6: "place_kernel sys_firmware 0x10000 122 s5 = (Inr sys_kernel, s6)" "same_regs s5 s6"
    by (rule sys_place [OF 5(2)])
  have "same_regs s s6" using same_regs_trans [OF 5(3) 6(2)] by (simp add: s4_def)
  then show ?thesis
    using 5(1) 6(1) by (simp add: load_file_def call_def sys_reply res Let_def s4_def efi_status(2))
qed

lemma sys_load:
  assumes "lmem s = (\<lambda>_. 0xcc)"
  shows "\<exists>s'. load_kernel sys_firmware handle s = (Inr sys_kernel, s') \<and> same_regs s s'"
proof -
  have "x = Inr sys_kernel \<and> same_regs s t" if "load_file sys_firmware r (s\<lparr>calls := h\<rparr>) = (x, f, b, t)" for r h x f b t
    using sys_load_file [of "s\<lparr>calls := h\<rparr>" r] assms that by auto
  then show ?thesis
    by (auto simp: load_kernel_def call_def sys_reply Let_def split: prod.splits)
qed

lemma sys_final_map:
  assumes "m = store64 0x110050 1 (store32 0x110028 1 (store64 0x110020 48 (store64 0x110018 96
    (store_bytes 0x111000 (map (\<lambda>i. sys_map (0x111000 + of_nat i)) [0..<96])
      (fill_info 0x110000 sys_kernel (zero_bytes 0x110000 (handoff_pages * 4096) m0))))))"
  shows "live_map m"
proof
  let ?b = "map (\<lambda>i. sys_map (0x111000 + of_nat i)) [0..<96]"
  let ?f = "fill_info 0x110000 sys_kernel (zero_bytes 0x110000 (handoff_pages * 4096) m0)"
  have "load_BOOT_INFO m 0x110000 = handoff_info 0x110000 sys_kernel 96 48 1 1"
    using info_stores [of "0x110000"] info_store_bytes [of ?b "0x110000" ?f] fill_info_block [of "0x110000" sys_kernel m0]
    by (simp add: assms handoff_info_def)
  then show "load_BOOT_INFO m 0x110000 = live_info" by (simp add: handoff_info_def live_info_def sys_kernel_def)
  have d: "load_DESCRIPTOR m a = load_DESCRIPTOR (store_bytes 0x111000 ?b ?f) a" if "a = 0x111000 \<or> a = 0x111030" for a
    using that unfolding assms load_DESCRIPTOR_def by (auto simp: c_simps)
  have b: "load_DESCRIPTOR (store_bytes 0x111000 ?b ?f) (0x111000 + of_nat j) = load_DESCRIPTOR sys_map (0x111000 + of_nat j)" if "j \<le> 48" for j
  proof (rule load_DESCRIPTOR_same)
    have "store_bytes 0x111000 ?b ?f (0x111000 + of_nat j + of_nat i) = sys_map (0x111000 + of_nat j + of_nat i)" if "i < 40" for i
    proof -
      have "unat (of_nat (j + i) :: u64) = j + i" using that \<open>j \<le> 48\<close> by (simp add: unat_of_nat64 del: of_nat_add)
      moreover have "0x111000 + of_nat j + of_nat i - 0x111000 = (of_nat (j + i) :: u64)" by simp
      ultimately show ?thesis using that \<open>j \<le> 48\<close> unfolding store_bytes_def by (simp only:) (simp add: add.assoc)
    qed
    then show "same_bytes sys_map (store_bytes 0x111000 ?b ?f) (0x111000 + of_nat j) 40" by (simp add: same_bytes_def)
  qed
  have "load_DESCRIPTOR sys_map 0x111000 = load_DESCRIPTOR (store_DESCRIPTOR 0x111000 (live_descriptors ! 0) (\<lambda>_. 0)) 0x111000"
    unfolding sys_map_def store_DESCRIPTOR_def load_DESCRIPTOR_def by (simp add: c_simps)
  then show "load_DESCRIPTOR m 0x111000 = live_descriptors ! 0" using b [of 0] d [of "0x111000"] by simp
  have "load_DESCRIPTOR sys_map 0x111030 = live_descriptors ! 1" by (simp add: sys_map_def)
  then show "load_DESCRIPTOR m 0x111030 = live_descriptors ! 1" using b [of 48] d [of "0x111030"] by simp
qed

lemma sys_start:
  "\<exists>s'. start_kernel sys_firmware handle no_console sys_kernel s = (EnterKernel 0x100000 0x110000 0x132000, s')
    \<and> live_map (lmem s') \<and> (\<exists>t. same_regs s t \<and> lcpu s' = x86_disable_interrupts (lcpu t))"
proof -
  have r: "status (sys_firmware (AllocatePages 0 2 handoff_pages 0 # h)) = 0" "result (sys_firmware (AllocatePages 0 2 handoff_pages 0 # h)) = 0x110000"
    "sys_firmware (GetMemoryMap map_capacity b # h) = \<lparr>status = 0, result = 96,
       bytes = map (\<lambda>i. sys_map (0x111000 + of_nat i)) [0..<96], map_key = 0, map_stride = 48, map_version = 1\<rparr>"
    "status (sys_firmware (ExitBootServices handle 0 # h)) = 0" for h b by (simp_all add: sys_firmware_def)
  define f where "f = fill_info 0x110000 sys_kernel (zero_bytes 0x110000 (handoff_pages * 4096) (lmem s))"
  define s1 where "s1 = set_lmem f (s\<lparr>calls := AllocatePages 0 2 handoff_pages 0 # calls s\<rparr>)"
  have a: "allocate_handoff sys_firmware sys_kernel s = (Inr 0x110000, s1)"
    using r(1,2) efi_status(2) by (simp add: allocate_handoff_def call_def Let_def s1_def f_def) (simp add: set_lmem_def)
  have "load_BOOT_INFO f 0x110000 = handoff_info 0x110000 sys_kernel 0 0 0 0" unfolding f_def by (rule fill_info_block)
  then have buf: "load64 f 0x110010 = 0x111000" by (simp add: load_BOOT_INFO_def handoff_info_def)
  define m where "m = store64 0x110050 1 (store32 0x110028 1 (store64 0x110020 48 (store64 0x110018 96
    (store_bytes 0x111000 (map (\<lambda>i. sys_map (0x111000 + of_nat i)) [0..<96]) f))))"
  have live: "live_map m" using sys_final_map [of m "lmem s"] by (simp add: m_def f_def)
  have top: "load64 m 0x110040 = 0x122000" "load64 m 0x110048 = 0x10000"
    using live_map.info [OF live] by (simp_all add: load_BOOT_INFO_def live_info_def)
  define t where "t = set_lmem m (s1\<lparr>calls := ExitBootServices handle 0 # GetMemoryMap map_capacity 0x111000 # calls s1\<rparr>)"
  define s' where "s' = t\<lparr>lcpu := x86_disable_interrupts (lcpu t)\<rparr>"
  have "lmem s1 = f" by (simp add: s1_def)
  then have "exit_attempt sys_firmware handle no_console sys_kernel 0x110000 0 (0, s1) = Inl (EnterKernel 0x100000 0x110000 0x132000, s')"
    using r(3,4) efi_status(2) buf top unfolding s'_def t_def m_def
    by (simp add: exit_attempt_def call_def Let_def sys_kernel_def) (simp add: set_lmem_def)
  then have "start_kernel sys_firmware handle no_console sys_kernel s = (EnterKernel 0x100000 0x110000 0x132000, s')"
    using a by (simp add: start_kernel_def for_ret.simps [of 0])
  moreover have "lmem s' = m" "lcpu s' = x86_disable_interrupts (lcpu t)" "same_regs s t" by (simp_all add: s'_def t_def s1_def)
  ultimately show ?thesis using live by (intro exI conjI) simp_all
qed

lemma sys_main:
  "\<exists>s'. efi_main sys_firmware 7 no_console sys_loader = (EnterKernel 0x100000 0x110000 0x132000, s')
    \<and> live_map (lmem s') \<and> (\<exists>t. same_regs sys_loader t \<and> lcpu s' = x86_disable_interrupts (lcpu t))"
proof -
  have w: "result (sys_firmware (Write a n b # h)) = n" "result (sys_firmware (LocateProtocol g # h)) \<noteq> 0" for a n b h g
    by (simp_all add: sys_firmware_def)
  have run: "\<exists>s'. load_and_start sys_firmware 7 no_console serial s = (EnterKernel 0x100000 0x110000 0x132000, s')
    \<and> live_map (lmem s') \<and> (\<exists>t. same_regs s t \<and> lcpu s' = x86_disable_interrupts (lcpu t))" if mem: "lmem s = (\<lambda>_. 0xcc)" for serial s
  proof -
    obtain s1 where 1: "load_kernel sys_firmware 7 s = (Inr sys_kernel, s1)" "same_regs s s1" using sys_load [OF mem] by blast
    define s2 where "s2 = s1\<lparr>calls := Write serial (of_nat (length (entry_text (kentry sys_kernel)))) (entry_text (kentry sys_kernel)) # calls s1\<rparr>"
    obtain s' t where 2: "start_kernel sys_firmware 7 no_console sys_kernel s2 = (EnterKernel 0x100000 0x110000 0x132000, s')"
      "live_map (lmem s')" "same_regs s2 t" "lcpu s' = x86_disable_interrupts (lcpu t)" using sys_start by blast
    have "same_regs s t" using same_regs_trans [OF 1(2), of t] 2(3) by (simp add: s2_def)
    moreover have "load_and_start sys_firmware 7 no_console serial s = start_kernel sys_firmware 7 no_console sys_kernel s2"
      using 1(1) w(1) by (simp add: load_and_start_def call_def sys_reply Let_def s2_def)
    ultimately show ?thesis using 2 by auto
  qed
  define h where "h = Write (result (sys_firmware [LocateProtocol serial_guid, SetWatchdogTimer 0 0 0])) (of_nat (length banner)) banner
    # SetAttributes (result (sys_firmware [LocateProtocol serial_guid, SetWatchdogTimer 0 0 0])) 115200 0 10000 1 8 1
    # [LocateProtocol serial_guid, SetWatchdogTimer 0 0 0]"
  have "efi_main sys_firmware 7 no_console sys_loader = load_and_start sys_firmware 7 no_console
      (result (sys_firmware [LocateProtocol serial_guid, SetWatchdogTimer 0 0 0])) (sys_loader\<lparr>calls := h\<rparr>)"
    using w by (simp add: efi_main_def call_def sys_reply Let_def h_def) (simp add: sys_loader_def)
  moreover have "lmem (sys_loader\<lparr>calls := h\<rparr>) = (\<lambda>_. 0xcc)" by (simp add: lmem_def sys_loader_def)
  ultimately show ?thesis using run [of "sys_loader\<lparr>calls := h\<rparr>"] by simp
qed

definition sys_end :: loader where
  "sys_end = snd (efi_main sys_firmware 7 no_console sys_loader)"

lemma sys_end:
  "efi_main sys_firmware 7 no_console sys_loader = (EnterKernel 0x100000 0x110000 0x132000, sys_end)" "live_map (lmem sys_end)"
  "\<exists>t. same_regs sys_loader t \<and> lcpu sys_end = x86_disable_interrupts (lcpu t)"
  using sys_main by (auto simp: sys_end_def)

interpretation sys: live_map "lmem sys_end"
  by (rule sys_end(2))

lemma sys_machine:
  "supported_cpu_state (cr4 (lcpu sys_end)) (lcpu sys_end)" "serial_alive (lcpu sys_end)" "at_entry (entered sys_end boot_kernel)"
proof -
  obtain t where t: "same_regs sys_loader t" "lcpu sys_end = x86_disable_interrupts (lcpu t)" using sys_end(3) by blast
  have "lcpu t = (lcpu t)\<lparr>ram := (\<lambda>_. 0)\<rparr>\<lparr>ram := ram (lcpu t)\<rparr>" by simp
  also have "\<dots> = boot_machine\<lparr>ram := ram (lcpu t)\<rparr>" using t(1) by (simp add: same_regs_def sys_loader_def)
  finally have "lcpu sys_end = x86_disable_interrupts (boot_machine\<lparr>ram := ram (lcpu t)\<rparr>)" using t(2) by simp
  moreover have off: "\<not> bit (rflags boot_machine) 9" using boot_kernel_facts(1,6) by (simp add: at_entry_def irq_ready_def)
  ultimately have l: "lcpu sys_end = boot_machine\<lparr>ram := ram (lcpu t)\<rparr>"
    using disable_off [of "boot_machine\<lparr>ram := ram (lcpu t)\<rparr>"] by simp
  show "supported_cpu_state (cr4 (lcpu sys_end)) (lcpu sys_end)" using boot_kernel_facts(3) by (simp add: l)
  show "serial_alive (lcpu sys_end)" using boot_kernel_facts(4) by (simp add: l serial_alive_def)
  show "at_entry (entered sys_end boot_kernel)"
    using boot_kernel_facts(1,6) by (simp add: at_entry_def entered_def irq_ready_def l)
qed

lemmas sys_ready = sys_conforms sys_end(1) sys.meets_demands sys_machine(3,1,2) boot_kernel_facts(5)

end
