(* ===== verification/Spec2Isabelle.thy ===== *)
theory Spec2Isabelle
  imports PagingFixtures ConsoleRun TablesProps SystemBoot
begin

text \<open>
  A verification development of OS\_by\_AI: a UEFI loader and a small x86-64 kernel in C.

  \<^bold>\<open>The program.\<close> The loader (\<open>boot/main.c\<close>, \<open>boot/load.c\<close>) sets up the serial port through the firmware, reads
  \<open>kernel.elf\<close>, copies its segments to their addresses, allocates one block for the boot
  information, the memory map and the stack, leaves boot services and jumps to the kernel.
  \<open>kernel_entry\<close> (\<open>kernel/entry.S\<close>) switches to the stack and calls \<open>kernel_main\<close> (\<open>kernel/main.c\<close>), which checks the
  boot information and brings up, in this order, the serial port, the descriptor tables, the page
  allocator with a RAM check, the page tables with a self-test, the interrupt controller and
  timer, and interrupt-driven input. Then it runs the console. The loader and the kernel share
  the structs of \<open>include/boot_info.h\<close>; the allocator gives frames to the page tables; the serial interrupt fills
  the receive ring buffer that the console reads.

  \<^bold>\<open>Theories and sources.\<close> Definitions keep the names of the C functions, one per function, with loop bodies and
  long straight sequences as definitions of their own. C integers are words of their width, so wrap-around is that of C. A struct
  is a record, the static variables of a file are a record that is passed and returned; memory is a function from 64-bit addresses to
  bytes, and structs and page tables are read from it and written to it at the byte offsets of the ABI.
  \<^item> \<open>Prelude\<close>: word types, byte memory, the counting loops \<open>for_up\<close> and \<open>for_ret\<close> (with early return), the collection \<open>c_simps\<close>.
  \<^item> \<open>X86\<close>: \<open>include/x86.h\<close>, the processor as the record \<open>machine\<close>: registers, memory, cached translations, history of port accesses.
  \<^item> \<open>BootInfo\<close>: \<open>include/boot_info.h\<close>.
  \<^item> \<open>Bitset\<close>, \<open>FrameAllocator\<close> (interfaces), \<open>Pmm\<close>: \<open>kernel/pmm.c\<close>; \<open>PageMem\<close>, \<open>PmmCheck\<close>: \<open>kernel/pmm_check.c\<close>.
  \<^item> \<open>Paging\<close>: \<open>kernel/paging.c\<close>; \<open>PageTree\<close>, \<open>PagingInv\<close>: what the tables in memory mean and the invariant; \<open>PagingDyn\<close>, \<open>PagingSpec\<close>,
    \<open>AddressSpace\<close>, \<open>PagingProps\<close>: the dynamic window; \<open>PagingBoot\<close>, \<open>PagingInit\<close>, \<open>PagingLive\<close>: the identity map.
  \<^item> \<open>PagingCheck\<close>: \<open>kernel/paging_check.c\<close>; \<open>PagingClient\<close>, \<open>PagingCheckProps\<close>, \<open>PagingFixtures\<close>: the self-test and the fault fixtures.
  \<^item> \<open>RxBuffer\<close>: \<open>kernel/rx_buffer.c\<close>; \<open>Drivers\<close>: \<open>kernel/timer.c\<close>, set-up in \<open>kernel/irq.c\<close> and the record \<open>drivers\<close> of all driver variables;
    \<open>Serial\<close>: \<open>kernel/serial.c\<close> and \<open>irq_dispatch\<close>; \<open>Controllers\<close>, \<open>SerialProps\<close>, \<open>IrqProps\<close>: their properties.
  \<^item> \<open>Console\<close>: \<open>kernel/console.c\<close>; \<open>ConsoleProps\<close>, \<open>ConsoleRun\<close>: its properties.
  \<^item> \<open>ElfLoader\<close>: \<open>boot/load.c\<close> and the used part of \<open>boot/efi.h\<close>; \<open>ElfProps\<close>: its properties; \<open>BootMain\<close>: \<open>boot/main.c\<close>.
  \<^item> \<open>Tables\<close>: \<open>kernel/tables.c\<close> and \<open>tables_load\<close> of \<open>kernel/interrupts.S\<close>; \<open>TablesProps\<close>: the tables as the processor reads them.
  \<^item> \<open>KernelMain\<close>: \<open>kernel/main.c\<close> and \<open>kernel_entry\<close>; \<open>KernelProps\<close>, \<open>KernelBoot\<close>: what reaching the console implies, and that it is reached.
  \<^item> \<open>Handoff\<close>, \<open>SystemBoot\<close>: loader and kernel together; this theory states the result.

  \<^bold>\<open>Interfaces.\<close> \<open>bitset\<close> (a set of indices; interpreted on the allocator's bitmaps), \<open>frame_allocator\<close> and \<open>lowest_first_allocator\<close>
  (on \<open>pmm_alloc\<close> and \<open>pmm_free\<close>), \<open>page_words\<close> (a page as 512 words), \<open>lossy_queue\<close> (on the ring buffer), \<open>address_space\<close> (a partial map
  from pages to frames and rights; on \<open>paging_map\<close>, \<open>paging_unmap\<close>, \<open>paging_protect\<close>). \<open>live_map\<close> collects what is needed of an example
  memory map; it is interpreted on a given memory and on the memory that \<open>efi_main\<close> leaves in a concrete run.

  \<^bold>\<open>What is shown.\<close>
  \<^item> Allocator: which pages it manages, that the lowest free frame is returned, exact conditions of success of each call, no frame is handed
    out twice in any run, exhaustion and reuse.
  \<^item> Page tables: each operation of the window changes exactly one translation or nothing, rollback of a failed call included; no table leaks; sequences
    of operations refine an abstract map; no stale cached translation. \<open>paging_init\<close> always returns, maps exactly the boot memory with the rights of
    each section or leaves everything as it was, and succeeds under stated demands. The self-test passes, and each fixture faults where it should.
  \<^item> Drivers: the ring buffer refines a queue of 255 bytes that reports a loss; nothing received is lost silently; output under any interrupts is
    a prefix of the text, and all of it with a working transmitter; each interrupt is acknowledged exactly once; the registers the set-up leaves.
  \<^item> Console: the editor refines an abstract line discipline, a line is executed once, buffers stay in bounds forever, numbers are
    printed in decimal.
  \<^item> Loader: which files are accepted and what memory holds afterwards, everything taken from the firmware is given back, reading ends.
  \<^item> Boot: the kernel's checks accept what the loader writes, the console is reached only with everything initialised, and it
    is reached on every machine that meets the demands.

  \<^bold>\<open>Loops and bounds.\<close> Counting loops are total functions with their bound as the measure. Polling makes at most \<open>POLL_LIMIT\<close> = 1000000 reads,
  an interrupt serves at most 256 causes, leaving boot services is tried 8 times, \<open>read_entire_file\<close> recurses on the missing bytes. There is no fuel: loops
  that need not end in every state (\<open>map_boot_ram_from\<close>, \<open>hold_pages\<close>, \<open>release_held\<close>) are partial functions into \<open>option\<close>, \<open>None\<close> being a loop without end or
  a page fault, and that they return is proved. The endless console loop is the inductive set of states at its head.

  \<^bold>\<open>Parameters.\<close> The firmware (\<open>firmware\<close>, the reply to each history of calls), the devices (\<open>device\<close>, the value of a port read after a history of accesses), when
  interrupts arrive (\<open>irq_source\<close>, at every port access made with interrupts enabled), the addresses that the linker assigns (\<open>layout\<close>, \<open>table_symbols\<close>), the
  outcome of the register comparison in \<open>timer_check_registers\<close> (\<open>survived\<close>) and the bytes pushed when \<open>kernel_main\<close> reads its stack
  pointer. They are arbitrary; what a property needs of them is a hypothesis, such as \<open>firmware_conforms\<close> or \<open>serial_alive\<close>.

  \<^bold>\<open>Not modelled.\<close> General registers and the contents of the C stack, so the register saving, the exception stubs and the frame
  layout of \<open>kernel/interrupts.S\<close> are left out, and the kernel's static variables are records of their own and not bytes of memory. Time, apart from the order
  of events; other processors (the code runs on one). \<open>x86_pause\<close> and \<open>x86_idle\<close>, which only wait: spinning forever and halting are final outcomes. Firmware services
  that are declared in \<open>boot/efi.h\<close> but not called. The linker script, the build and the test scripts with their wrapper of \<open>rx_read\<close>.
\<close>



end
